(* ===== verification/Errors.thy ===== *)
theory Errors
  imports Main
begin

text \<open>
  The error type of \<^verbatim>\<open>sockudo-core/src/error.rs\<close> with its WebSocket close code and the two
  classifications of an error. An error of another library that a variant wraps is its printed
  text.
\<close>

datatype (plugins only: code) error =
    SSLRequired
  | ApplicationNotFound
  | ApplicationDisabled
  | OverConnectionQuota
  | PathNotFound
  | InvalidVersionFormat
  | UnsupportedProtocolVersion string
  | NoProtocolVersion
  | Unauthorized
  | OriginNotAllowed
  | OverCapacity
  | ReconnectImmediately
  | PongNotReceived
  | InactivityTimeout
  | ClientEventRateLimit
  | ClientEventRateLimitTerminate
  | WatchlistLimitExceeded
  | Channel string
  | InvalidChannelName string
  | ChannelExists
  | ChannelNotFound
  | MessageNotFound string
  | Auth string
  | InvalidSignature
  | InvalidKey
  | Connection string
  | ConnectionExists
  | ConnectionNotFound
  | ConnectionClosed string
  | BufferFull string
  | Protocol string
  | InvalidMessageFormat string
  | InvalidEventName string
  | IdempotencyConflict
  | IdempotencyInProgress
  | AiTransport nat string string
  | WebSocket string
  | Internal string
  | Json string
  | ClientEvent string
  | Io string
  | InvalidAppKey
  | Cache string
  | Serialization string
  | Broadcast string
  | OtherError string
  | Redis string
  | RequestTimeout
  | OwnRequestIgnored
  | NoResponseNeeded
  | RequestNotForThisNode
  | HorizontalAdapter string
  | Queue string
  | Config string
  | Configuration string
  | ConfigFile string
  | ClusterPresence string
  | DeadNodeCleanup string

type_synonym 'a result = "error + 'a"

definition close_code :: "error \<Rightarrow> nat" where
  "close_code e =
     (case e of
        SSLRequired \<Rightarrow> 4000
      | ApplicationNotFound \<Rightarrow> 4001
      | ApplicationDisabled \<Rightarrow> 4003
      | OverConnectionQuota \<Rightarrow> 4004
      | PathNotFound \<Rightarrow> 4005
      | InvalidVersionFormat \<Rightarrow> 4006
      | UnsupportedProtocolVersion _ \<Rightarrow> 4007
      | NoProtocolVersion \<Rightarrow> 4008
      | Unauthorized \<Rightarrow> 4009
      | OriginNotAllowed \<Rightarrow> 4009
      | OverCapacity \<Rightarrow> 4100
      | ReconnectImmediately \<Rightarrow> 4200
      | PongNotReceived \<Rightarrow> 4201
      | InactivityTimeout \<Rightarrow> 4202
      | ClientEventRateLimit \<Rightarrow> 4301
      | ClientEventRateLimitTerminate \<Rightarrow> 4301
      | WatchlistLimitExceeded \<Rightarrow> 4302
      | Broadcast _ \<Rightarrow> 4303
      | Channel _ \<Rightarrow> 4300
      | InvalidChannelName _ \<Rightarrow> 4300
      | ChannelExists \<Rightarrow> 4300
      | ChannelNotFound \<Rightarrow> 4300
      | MessageNotFound _ \<Rightarrow> 4300
      | ClientEvent _ \<Rightarrow> 4301
      | AiTransport _ _ _ \<Rightarrow> 4000
      | Auth _ \<Rightarrow> 4009
      | InvalidSignature \<Rightarrow> 4009
      | InvalidKey \<Rightarrow> 4009
      | Connection _ \<Rightarrow> 4000
      | ConnectionExists \<Rightarrow> 4000
      | ConnectionNotFound \<Rightarrow> 4000
      | BufferFull _ \<Rightarrow> 4100
      | _ \<Rightarrow> 4000)"

definition is_fatal :: "error \<Rightarrow> bool" where
  "is_fatal e =
     (case e of
        SSLRequired \<Rightarrow> True
      | ApplicationNotFound \<Rightarrow> True
      | ApplicationDisabled \<Rightarrow> True
      | OverConnectionQuota \<Rightarrow> True
      | PathNotFound \<Rightarrow> True
      | InvalidVersionFormat \<Rightarrow> True
      | UnsupportedProtocolVersion _ \<Rightarrow> True
      | NoProtocolVersion \<Rightarrow> True
      | Unauthorized \<Rightarrow> True
      | ClientEventRateLimitTerminate \<Rightarrow> True
      | _ \<Rightarrow> False)"

definition should_reconnect :: "error \<Rightarrow> bool" where
  "should_reconnect e =
     (case e of
        OverCapacity \<Rightarrow> True
      | ReconnectImmediately \<Rightarrow> True
      | PongNotReceived \<Rightarrow> True
      | InactivityTimeout \<Rightarrow> True
      | _ \<Rightarrow> False)"

text \<open>Every error has a close code of the application range 4000 to 4399; an error that asks for
  a reconnect is never fatal; and the close code is in the two reconnect ranges 4100 to 4299
  exactly for the errors that ask for a reconnect, except that a full send buffer closes with
  4100 although it does not.\<close>

theorem close_code_ranges:
  "4000 \<le> close_code e \<and> close_code e \<le> 4399 \<and>
   \<not> (should_reconnect e \<and> is_fatal e) \<and>
   (4100 \<le> close_code e \<and> close_code e \<le> 4299) = (should_reconnect e \<or> (\<exists>m. e = BufferFull m))"
  by (cases e) (simp_all add: close_code_def is_fatal_def should_reconnect_def)

end
