(* ===== verification/Prelude.thy ===== *)
theory Prelude
  imports Errors "HOL-Library.Word" "HOL-Library.List_Lexorder" "HOL-Library.Char_ord"
begin

text \<open>
  Shared vocabulary of the development: the machine integers of the Rust sources, strings as UTF-8 byte strings, decimal printing, and the
  "pop from the front while a condition holds" loop that the retention code of several stores
  is written with. Everything here is the language or its standard library.

  Conventions: \<^verbatim>\<open>u64\<close> and \<^verbatim>\<open>usize\<close> (64-bit targets) are 64-bit words, so that
  \<^verbatim>\<open>+\<close> wraps exactly as the release profile does and \<^verbatim>\<open>saturating_add\<close> is written out;
  \<^verbatim>\<open>i64\<close> values are integers, with saturation written out; a Rust \<^verbatim>\<open>Result\<close> is a sum
  with the error on the left; a clock reading or a fresh UUID is an argument of the operation
  that takes it.
\<close>

named_theorems sat_simps \<open>saturating arithmetic read through unat\<close>

type_synonym u8 = "8 word"
type_synonym u64 = "64 word"
type_synonym usize = "64 word"
type_synonym i64 = int
type_synonym bytes = "u8 list"

section \<open>Saturating arithmetic\<close>

definition sat_add :: "u64 \<Rightarrow> u64 \<Rightarrow> u64" where
  "sat_add a b = (if a \<le> a + b then a + b else - 1)"

definition sat_sub :: "u64 \<Rightarrow> u64 \<Rightarrow> u64" where
  "sat_sub a b = (if b \<le> a then a - b else 0)"

definition sat_mul :: "u64 \<Rightarrow> u64 \<Rightarrow> u64" where
  "sat_mul a b = (if uint a * uint b < 2 ^ 64 then a * b else - 1)"

definition i64_sat_sub :: "i64 \<Rightarrow> i64 \<Rightarrow> i64" where
  "i64_sat_sub a b = max (- (2 ^ 63)) (min (2 ^ 63 - 1) (a - b))"

text \<open>\<^verbatim>\<open>len() as u64\<close>.\<close>

definition len64 :: "'a list \<Rightarrow> u64" where
  "len64 xs = of_nat (length xs)"

lemma unat_minus_one_u64 [simp]: "unat (- 1 :: u64) = 2 ^ 64 - 1"
  by transfer (simp add: mask_eq_exp_minus_1)

lemma unat_u64_less: "unat (a :: u64) < 2 ^ 64"
  using unsigned_less [of a] by simp

lemma unat_sat_add [sat_simps]: "unat (sat_add a b) = min (unat a + unat b) (2 ^ 64 - 1)"
proof (cases "unat a + unat b < 2 ^ 64")
  case True
  then have "unat (a + b) = unat a + unat b"
    by (simp add: unat_add_lem [THEN iffD1])
  with True show ?thesis by (simp add: sat_add_def word_le_nat_alt)
next
  case False
  then have "\<not> a \<le> a + b" by (simp add: no_olen_add_nat)
  with False show ?thesis by (simp add: sat_add_def)
qed

lemma unat_sat_sub [sat_simps]: "unat (sat_sub a b) = unat a - unat b"
  by (simp add: sat_sub_def unat_sub word_le_nat_alt)

lemma unat_len64: "length xs < 2 ^ 64 \<Longrightarrow> unat (len64 xs) = length xs"
  by (simp add: len64_def unat_of_nat)

lemma unat_le_max_u64 [simp]: "unat (a :: u64) \<le> 18446744073709551615"
  using unat_u64_less [of a] by simp

lemma le_minus_one_u64 [simp]: "(a :: u64) \<le> - 1"
  by simp

lemma u64_less_iff: "(a :: u64) < b \<longleftrightarrow> unat a < unat b"
  by (simp add: word_less_nat_alt)

lemma u64_le_iff: "(a :: u64) \<le> b \<longleftrightarrow> unat a \<le> unat b"
  by (simp add: word_le_nat_alt)

lemma u64_eq_iff: "(a :: u64) = b \<longleftrightarrow> unat a = unat b"
  by (simp add: word_unat_eq_iff)

lemma u64_neq_max_iff: "(a :: u64) \<noteq> - 1 \<longleftrightarrow> unat a < 2 ^ 64 - 1"
  using unat_u64_less [of a] by (auto simp: u64_eq_iff)

lemmas u64_unat = u64_less_iff u64_le_iff sat_simps

lemma sat_add_ge [simp]: "a \<le> sat_add a b"
  by (simp add: u64_unat)

lemma less_sat_add_1: "a \<noteq> - 1 \<Longrightarrow> a < sat_add a 1"
  by (simp add: u64_neq_max_iff u64_unat)

lemma sat_add_1_le_iff: "b \<noteq> - 1 \<Longrightarrow> sat_add b 1 \<le> a \<longleftrightarrow> b < a"
  by (auto simp: u64_neq_max_iff u64_unat)

lemma less_imp_sat_add_1_le: "b < a \<Longrightarrow> sat_add b 1 \<le> a"
  using unat_u64_less [of a] by (auto simp: u64_unat)

lemma sat_add_mono: "a \<le> a' \<Longrightarrow> b \<le> b' \<Longrightarrow> sat_add a b \<le> sat_add a' b'"
  by (auto simp: u64_unat)

lemma less_sat_add_1_iff: "b \<noteq> - 1 \<Longrightarrow> a < sat_add b 1 \<longleftrightarrow> a \<le> b"
  by (auto simp: u64_neq_max_iff u64_unat)

lemma unat_limit_plus_1: "(l :: usize) \<noteq> - 1 \<Longrightarrow> unat (l + 1) = Suc (unat l)"
  by (simp add: unat_add_lem [THEN iffD1] u64_neq_max_iff)

section \<open>Strings\<close>

text \<open>
  A Rust \<^verbatim>\<open>String\<close> is a valid UTF-8 byte string; its \<^verbatim>\<open>Ord\<close> is the lexicographic order of
  the bytes, which is the order of \<^typ>\<open>string\<close> here. \<^term>\<open>ws_len s\<close> is the number of bytes
  of the Unicode White\_Space character that \<open>s\<close> begins with, and 0 if it begins with
  another character: UTF-8 is self-synchronising, so matching the encodings is matching the
  characters.
\<close>

definition byte_at :: "string \<Rightarrow> nat \<Rightarrow> nat" where
  "byte_at s i = (if i < length s then of_char (s ! i) else 256)"

definition ws_len :: "string \<Rightarrow> nat" where
  "ws_len s =
     (let a = byte_at s 0; b = byte_at s 1; c = byte_at s 2 in
      if a \<in> {9, 10, 11, 12, 13, 32} then 1
      else if a = 0xC2 \<and> b \<in> {0x85, 0xA0} then 2
      else if a = 0xE1 \<and> b = 0x9A \<and> c = 0x80 then 3
      else if a = 0xE2 \<and> b = 0x80 \<and> (0x80 \<le> c \<and> c \<le> 0x8A \<or> c \<in> {0xA8, 0xA9, 0xAF}) then 3
      else if a = 0xE2 \<and> b = 0x81 \<and> c = 0x9F then 3
      else if a = 0xE3 \<and> b = 0x80 \<and> c = 0x80 then 3
      else 0)"

text \<open>\<^verbatim>\<open>value.chars().any(char::is_whitespace)\<close>.\<close>

fun has_whitespace :: "string \<Rightarrow> bool" where
  "has_whitespace [] \<longleftrightarrow> False"
| "has_whitespace (c # s) \<longleftrightarrow> ws_len (c # s) \<noteq> 0 \<or> has_whitespace s"

text \<open>\<^verbatim>\<open>value.trim().is_empty()\<close>: every character is white space.\<close>

function trim_is_empty :: "string \<Rightarrow> bool" where
  "trim_is_empty s \<longleftrightarrow>
     (if s = [] then True
      else if ws_len s = 0 then False
      else trim_is_empty (drop (ws_len s) s))"
  by pat_completeness auto
termination
  by (relation "measure length") auto

declare trim_is_empty.simps [simp del]

lemma trim_is_empty_Nil [simp]: "trim_is_empty []"
  by (simp add: trim_is_empty.simps)

lemma trim_is_empty_imp: "trim_is_empty s \<Longrightarrow> s = [] \<or> has_whitespace s"
  by (cases s) (auto simp: trim_is_empty.simps [of "_ # _"] split: if_splits)

fun show_nat :: "nat \<Rightarrow> string" where
  "show_nat n = (if n < 10 then [char_of (48 + n)] else show_nat (n div 10) @ [char_of (48 + n mod 10)])"

declare show_nat.simps [simp del]

definition show_u64 :: "u64 \<Rightarrow> string" where
  "show_u64 w = show_nat (unat w)"

section \<open>Popping from the front of a queue\<close>

text \<open>
  \<^verbatim>\<open>while let Some(front) = q.front() { if c { account; q.pop_front() } else { break } }\<close>,
  and the \<^verbatim>\<open>while len > max\<close> variants of the same loop: \<open>c\<close> is the condition on the
  accounting state and the queue, \<open>f\<close> the accounting for the popped element.
\<close>

fun pop_front_while :: "('s \<Rightarrow> 'r list \<Rightarrow> bool) \<Rightarrow> ('r \<Rightarrow> 's \<Rightarrow> 's) \<Rightarrow> 's \<Rightarrow> 'r list \<Rightarrow> 's \<times> 'r list" where
  "pop_front_while c f s [] = (s, [])"
| "pop_front_while c f s (r # rs) =
     (if c s (r # rs) then pop_front_while c f (f r s) rs else (s, r # rs))"

lemma pop_front_while_drop:
  "pop_front_while c f s rs = (s', rs') \<Longrightarrow>
     \<exists>n \<le> length rs. rs' = drop n rs \<and> s' = fold f (take n rs) s \<and>
       (\<forall>m < n. c (fold f (take m rs) s) (drop m rs))"
proof (induction c f s rs rule: pop_front_while.induct)
  case (2 c f s r rs)
  show ?case
  proof (cases "c s (r # rs)")
    case True
    with 2 obtain n where n: "n \<le> length rs" "rs' = drop n rs" "s' = fold f (take n rs) (f r s)"
      "\<forall>m < n. c (fold f (take m rs) (f r s)) (drop m rs)"
      by auto
    have "c (fold f (take m (r # rs)) s) (drop m (r # rs))" if "m < Suc n" for m
      using that True n(4) by (cases m) simp_all
    with n show ?thesis by (intro exI [of _ "Suc n"]) simp
  next
    case False
    with 2 show ?thesis by (intro exI [of _ 0]) simp
  qed
qed simp

lemma pop_front_while_stop:
  "pop_front_while c f s rs = (s', rs') \<Longrightarrow> rs' = [] \<or> \<not> c s' rs'"
  by (induction c f s rs rule: pop_front_while.induct) (auto split: if_splits)

lemma pop_front_while_fix: "rs = [] \<or> \<not> c s rs \<Longrightarrow> pop_front_while c f s rs = (s, rs)"
  by (cases rs) auto

lemma pop_front_while_all:
  "(\<And>s r rs'. r \<in> set rs \<Longrightarrow> c s (r # rs')) \<Longrightarrow> snd (pop_front_while c f s rs) = []"
  by (induction c f s rs rule: pop_front_while.induct) auto

text \<open>
  Byte accounting: a counter that starts as the total size of the queue and is decreased, with
  saturation, by the size of every popped element stays the total size of what is left.
\<close>

definition account_pop :: "('r \<Rightarrow> 'b list) \<Rightarrow> 'r \<Rightarrow> u64 \<Rightarrow> u64" where
  "account_pop payload r b = sat_sub b (len64 (payload r))"

definition total_len :: "('r \<Rightarrow> 'b list) \<Rightarrow> 'r list \<Rightarrow> nat" where
  "total_len payload rs = sum_list (map (\<lambda>r. length (payload r)) rs)"

lemma total_len_simps [simp]:
  "total_len payload [] = 0"
  "total_len payload (r # rs) = length (payload r) + total_len payload rs"
  "total_len payload (rs @ rs') = total_len payload rs + total_len payload rs'"
  by (simp_all add: total_len_def)

lemma total_len_drop_le: "total_len payload (drop n rs) \<le> total_len payload rs"
  by (induction rs arbitrary: n) (auto simp: drop_Cons' le_SucI trans_le_add2)

lemma unat_account_pop:
  "unat b = total_len payload (r # rs) \<Longrightarrow> unat (account_pop payload r b) = total_len payload rs"
proof -
  assume b: "unat b = total_len payload (r # rs)"
  then have "length (payload r) < 2 ^ 64"
    using unat_u64_less [of b] by simp
  with b show ?thesis
    by (simp add: account_pop_def unat_sat_sub unat_len64)
qed

lemma fold_account_pop:
  "unat b = total_len payload rs \<Longrightarrow>
     unat (fold (account_pop payload) (take n rs) b) = total_len payload (drop n rs)"
proof (induction rs arbitrary: n b)
  case (Cons r rs)
  then show ?case by (cases n) (simp_all add: unat_account_pop)
qed simp

lemma pop_front_while_account:
  assumes "unat b = total_len payload rs"
    and "pop_front_while c (account_pop payload) b rs = (b', rs')"
  shows "\<exists>n \<le> length rs. rs' = drop n rs \<and> unat b' = total_len payload rs' \<and>
    (\<forall>m < n. \<exists>bm. unat bm = total_len payload (drop m rs) \<and> c bm (drop m rs)) \<and>
    (rs' = [] \<or> \<not> c b' rs')"
  using pop_front_while_drop [OF assms(2)] pop_front_while_stop [OF assms(2)]
    fold_account_pop [OF assms(1)]
  by blast

text \<open>\<^verbatim>\<open>front()\<close> and \<^verbatim>\<open>back()\<close> of a queue, \<^verbatim>\<open>first()\<close> and \<^verbatim>\<open>last()\<close> of a vector.\<close>

definition front_of :: "'a list \<Rightarrow> 'a option" where
  "front_of xs = (case xs of [] \<Rightarrow> None | x # _ \<Rightarrow> Some x)"

definition back_of :: "'a list \<Rightarrow> 'a option" where
  "back_of xs = (if xs = [] then None else Some (last xs))"

lemma front_of_simps [simp]: "front_of [] = None" "front_of (x # xs) = Some x"
  by (simp_all add: front_of_def)

lemma back_of_simps [simp]: "back_of [] = None" "back_of (xs @ [x]) = Some x"
  by (simp_all add: back_of_def)

lemma back_of_nonempty: "xs \<noteq> [] \<Longrightarrow> back_of xs = Some (last xs)"
  by (simp add: back_of_def)

lemma sorted_wrt_drop: "sorted_wrt P xs \<Longrightarrow> sorted_wrt P (drop n xs)"
  by (metis append_take_drop_id sorted_wrt_append)

lemma filter_eq_drop_if_sorted:
  assumes "sorted_wrt R xs" and "0 < n" and "n < length xs"
    and "\<And>x. \<not> R x x" and "\<And>x y. R x y \<Longrightarrow> \<not> R y x"
  shows "filter (R (xs ! (n - 1))) xs = drop n xs"
proof -
  let ?p = "xs ! (n - 1)"
  have split: "xs = take n xs @ drop n xs" by simp
  have "filter (R ?p) (take n xs) = []"
  proof -
    have "\<not> R ?p x" if x: "x \<in> set (take n xs)" for x
    proof -
      from x obtain i where i: "i < n" "i < length xs" "x = xs ! i"
        by (auto simp: in_set_conv_nth)
      show ?thesis
      proof (cases "i = n - 1")
        case True
        with i assms(4) show ?thesis by simp
      next
        case False
        with i have "i < n - 1" by simp
        with assms(1,3) i have "R x ?p"
          by (auto simp: sorted_wrt_iff_nth_less)
        with assms(5) show ?thesis by blast
      qed
    qed
    then show ?thesis by (simp add: filter_empty_conv)
  qed
  moreover have "filter (R ?p) (drop n xs) = drop n xs"
  proof -
    have "R ?p x" if x: "x \<in> set (drop n xs)" for x
    proof -
      from x obtain i where "i < length xs - n" "x = xs ! (n + i)"
        by (auto simp: in_set_conv_nth)
      with assms(1-3) show ?thesis
        by (auto simp: sorted_wrt_iff_nth_less)
    qed
    then show ?thesis by (simp add: filter_id_conv)
  qed
  ultimately show ?thesis
    by (subst split) (simp only: filter_append append_Nil)
qed

lemma last_take_nth: "0 < n \<Longrightarrow> n \<le> length xs \<Longrightarrow> last (take n xs) = xs ! (n - 1)"
  by (subst last_conv_nth) auto

lemma back_of_map_take:
  assumes "0 < n" and "n \<le> length xs"
  shows "back_of (map f (take n xs)) = Some (f (xs ! (n - 1)))"
proof -
  have "take n xs \<noteq> []" using assms by auto
  then show ?thesis
    using assms by (simp only: back_of_nonempty last_map map_is_Nil_conv not_False_eq_True last_take_nth)
qed

end
