(* ===== verification/Paging.thy ===== *)
theory Paging
  imports Prelude
begin

text \<open>
  Cursor paging. Several stores of the program (history, presence history, message versions, the in-memory
  cache) answer a request with one page of rows and, when there are more, a cursor for the next page.
  The locale \<open>cursor_reader\<close> is that contract; \<open>drain\<close> is the client that follows the cursors
  until there is none. The locale \<open>progress_reader\<close> is the weaker contract of a reader whose pages may be
  short or empty as long as each one goes further; every \<open>cursor_reader\<close> meets it. There it is proved once
  that the client gets every row exactly once and in order.
\<close>

text \<open>
  The client: \<^term>\<open>n\<close> bounds the number of pages, and running out of it is \<^term>\<open>None\<close>.
\<close>

fun drain :: "nat \<Rightarrow> ('s \<Rightarrow> 'c option \<Rightarrow> 's \<times> ('e + 'i list \<times> 'c option)) \<Rightarrow> 's \<Rightarrow> 'c option
    \<Rightarrow> ('s \<times> ('e + 'i list)) option" where
  "drain 0 rd s c = None"
| "drain (Suc n) rd s c =
     (case rd s c of
        (s', Inl e) \<Rightarrow> Some (s', Inl e)
      | (s', Inr (items, None)) \<Rightarrow> Some (s', Inr items)
      | (s', Inr (items, Some c')) \<Rightarrow>
          (case drain n rd s' (Some c') of
             None \<Rightarrow> None
           | Some (s'', Inl e) \<Rightarrow> Some (s'', Inl e)
           | Some (s'', Inr more) \<Rightarrow> Some (s'', Inr (items @ more))))"

text \<open>
  The step every provider shares: in a list sorted by \<open>key\<close>, what lies beyond the last row of a
  full page is exactly the rest of the selection.
\<close>

lemma next_window:
  assumes "sorted_wrt (\<lambda>x y. lt (key x) (key y)) xs"
    and "transp lt" and "asymp lt"
    and "0 < n" and "n < length (filter P xs)"
    and P: "\<And>x. P x \<longleftrightarrow> B x \<and> (case c of None \<Rightarrow> True | Some k \<Rightarrow> lt k (key x))"
  shows "filter (\<lambda>x. B x \<and> lt (key (filter P xs ! (n - 1))) (key x)) xs = drop n (filter P xs)"
proof -
  let ?ys = "filter P xs" and ?R = "\<lambda>x y. lt (key x) (key y)"
  have "?ys ! (n - 1) \<in> set ?ys" using assms(5) by (intro nth_mem) simp
  then have p: "P (?ys ! (n - 1))" by simp
  have "filter (\<lambda>x. B x \<and> ?R (?ys ! (n - 1)) x) xs = filter (?R (?ys ! (n - 1))) ?ys"
    unfolding filter_filter using p assms(2)
    by (intro filter_cong refl) (auto simp: P split: option.splits dest: transpD)
  also have "\<dots> = drop n ?ys"
    using assms by (intro filter_eq_drop_if_sorted) (auto simp: sorted_wrt_filter dest: asympD)
  finally show ?thesis .
qed

locale progress_reader =
  fixes rd :: "'q \<Rightarrow> 's \<Rightarrow> 'c option \<Rightarrow> 's \<times> ('e + 'i list \<times> 'c option)"
    and ready :: "'q \<Rightarrow> 's \<Rightarrow> bool"
    and live :: "'q \<Rightarrow> 's \<Rightarrow> 'c option \<Rightarrow> bool"
    and rest :: "'q \<Rightarrow> 's \<Rightarrow> 'c option \<Rightarrow> 'i list"
    and todo :: "'q \<Rightarrow> 's \<Rightarrow> 'c option \<Rightarrow> nat"
  assumes page: "ready q s \<Longrightarrow> live q s c \<Longrightarrow>
     (\<exists>s'. rd q s c = (s', Inr (rest q s c, None))) \<or>
     (\<exists>s' items c'. rd q s c = (s', Inr (items, Some c')) \<and> ready q s' \<and> live q s' (Some c') \<and>
        rest q s c = items @ rest q s' (Some c') \<and> todo q s' (Some c') < todo q s c)"
begin

lemma drain_all:
  assumes "ready q s" and "live q s c" and "todo q s c < n"
  shows "\<exists>s'. drain n (rd q) s c = Some (s', Inr (rest q s c))"
  using assms
proof (induction n arbitrary: s c)
  case (Suc n)
  from page [OF Suc.prems(1,2)] show ?case
  proof (elim disjE exE conjE)
    fix s' assume "rd q s c = (s', Inr (rest q s c, None))"
    then show ?thesis by simp
  next
    fix s' items c'
    assume step: "rd q s c = (s', Inr (items, Some c'))" "ready q s'" "live q s' (Some c')"
      "rest q s c = items @ rest q s' (Some c')" "todo q s' (Some c') < todo q s c"
    then obtain s'' where "drain n (rd q) s' (Some c') = Some (s'', Inr (rest q s' (Some c')))"
      using Suc.IH [of s' "Some c'"] Suc.prems(3) by auto
    with step show ?thesis by simp
  qed
qed simp

end

locale cursor_reader =
  fixes rd :: "'q \<Rightarrow> 's \<Rightarrow> 'c option \<Rightarrow> 's \<times> ('e + 'i list \<times> 'c option)"
    and ready :: "'q \<Rightarrow> 's \<Rightarrow> bool"
    and live :: "'q \<Rightarrow> 's \<Rightarrow> 'c option \<Rightarrow> bool"
    and rest :: "'q \<Rightarrow> 's \<Rightarrow> 'c option \<Rightarrow> 'i list"
    and page_size :: "'q \<Rightarrow> nat"
  assumes page_size_pos: "ready q s \<Longrightarrow> 0 < page_size q"
    and last_page: "ready q s \<Longrightarrow> live q s c \<Longrightarrow> length (rest q s c) \<le> page_size q \<Longrightarrow>
          \<exists>s'. rd q s c = (s', Inr (rest q s c, None))"
    and inner_page: "ready q s \<Longrightarrow> live q s c \<Longrightarrow> page_size q < length (rest q s c) \<Longrightarrow>
          \<exists>s' c'. rd q s c = (s', Inr (take (page_size q) (rest q s c), Some c')) \<and> ready q s' \<and>
             live q s' (Some c') \<and> rest q s' (Some c') = drop (page_size q) (rest q s c)"

sublocale cursor_reader \<subseteq> progress_reader rd ready live rest "\<lambda>q s c. length (rest q s c)"
proof
  fix q s c assume rdy: "ready q s" "live q s c"
  show "(\<exists>s'. rd q s c = (s', Inr (rest q s c, None))) \<or>
     (\<exists>s' items c'. rd q s c = (s', Inr (items, Some c')) \<and> ready q s' \<and> live q s' (Some c') \<and>
        rest q s c = items @ rest q s' (Some c') \<and> length (rest q s' (Some c')) < length (rest q s c))"
  proof (cases "length (rest q s c) \<le> page_size q")
    case False
    with inner_page [OF rdy] page_size_pos [OF rdy(1)] show ?thesis by fastforce
  qed (use last_page [OF rdy] in blast)
qed

end
