(* ===== verification/Retention.thy ===== *)
theory Retention
  imports Prelude
begin

text \<open>
  Retention of a queue of records by age, number and bytes. The two history stores evict with
  the same three loops, in the same order, and differ in what they account for a popped record;
  \<open>retention_loops\<close> is those loops over an accounting state. The locale \<open>retained_queue\<close> is what
  the loops rely on (the byte counter of the accounting state is decreased by the payload
  length), and its lemmas say that the loops leave the longest suffix within the limits.
\<close>

definition retention_loops ::
    "('r \<Rightarrow> i64) \<Rightarrow> ('s \<Rightarrow> u64) \<Rightarrow> ('r \<Rightarrow> 's \<Rightarrow> 's) \<Rightarrow> i64 \<Rightarrow> usize option \<Rightarrow> u64 option \<Rightarrow> 's \<Rightarrow> 'r list \<Rightarrow> 's \<times> 'r list" where
  "retention_loops time bytes_of account cutoff_ms max_messages max_bytes s rs =
     (let (s1, rs1) = pop_front_while (\<lambda>_ rs. time (hd rs) < cutoff_ms) account s rs;
          (s2, rs2) = (case max_messages of
                         None \<Rightarrow> (s1, rs1)
                       | Some m \<Rightarrow> pop_front_while (\<lambda>_ rs. length rs > unat m) account s1 rs1);
          (s3, rs3) = (case max_bytes of
                         None \<Rightarrow> (s2, rs2)
                       | Some m \<Rightarrow> pop_front_while (\<lambda>s _. bytes_of s > m) account s2 rs2)
      in (s3, rs3))"

text \<open>
  What retention asks of the retained records: none older than the cutoff, at most the
  configured number, at most the configured number of bytes.
\<close>

definition within_retention ::
    "('r \<Rightarrow> i64) \<Rightarrow> ('r \<Rightarrow> 'b list) \<Rightarrow> i64 \<Rightarrow> usize option \<Rightarrow> u64 option \<Rightarrow> 'r list \<Rightarrow> bool" where
  "within_retention time payload cutoff_ms max_messages max_bytes rs \<longleftrightarrow>
     (\<forall>r \<in> set rs. cutoff_ms \<le> time r) \<and>
     (case max_messages of None \<Rightarrow> True | Some m \<Rightarrow> length rs \<le> unat m) \<and>
     (case max_bytes of None \<Rightarrow> True | Some m \<Rightarrow> total_len payload rs \<le> unat m)"

lemma within_retention_Nil [simp]: "within_retention time payload cutoff_ms max_messages max_bytes []"
  by (simp add: within_retention_def split: option.splits)

lemma within_retention_drop:
  "within_retention time payload cutoff_ms max_messages max_bytes rs \<Longrightarrow>
   within_retention time payload cutoff_ms max_messages max_bytes (drop n rs)"
  using total_len_drop_le [of payload n rs]
  by (auto simp: within_retention_def split: option.splits dest: in_set_dropD)

lemma retention_loops_expired:
  assumes "\<And>r. r \<in> set rs \<Longrightarrow> time r < cutoff"
  shows "snd (retention_loops time bytes_of account cutoff mm mb s rs) = []"
proof -
  have "snd (pop_front_while (\<lambda>_ rs. time (hd rs) < cutoff) account s rs) = []"
    using assms by (intro pop_front_while_all) simp
  then show ?thesis
    by (cases "pop_front_while (\<lambda>_ rs. time (hd rs) < cutoff) account s rs")
      (simp add: retention_loops_def split: option.splits)
qed

locale retained_queue =
  fixes time :: "'r \<Rightarrow> i64"
    and payload :: "'r \<Rightarrow> 'b list"
    and bytes_of :: "'s \<Rightarrow> u64"
    and account :: "'r \<Rightarrow> 's \<Rightarrow> 's"
  assumes bytes_account: "bytes_of (account r s) = account_pop payload r (bytes_of s)"
begin

lemma bytes_fold_account: "bytes_of (fold account rs s) = fold (account_pop payload) rs (bytes_of s)"
  by (induction rs arbitrary: s) (simp_all add: bytes_account)

lemma bytes_after:
  "unat (bytes_of s) = total_len payload rs \<Longrightarrow>
   unat (bytes_of (fold account (take n rs) s)) = total_len payload (drop n rs)"
  by (simp add: bytes_fold_account fold_account_pop)

text \<open>One loop, its limit possibly absent.\<close>

lemma loop_opt:
  assumes "(case lim of None \<Rightarrow> (s, rs) | Some m \<Rightarrow> pop_front_while (c m) account s rs) = (s', rs')"
  shows "\<exists>n \<le> length rs. rs' = drop n rs \<and> s' = fold account (take n rs) s \<and>
    (\<forall>k < n. \<exists>m. lim = Some m \<and> c m (fold account (take k rs) s) (drop k rs)) \<and>
    (rs' = [] \<or> (case lim of None \<Rightarrow> True | Some m \<Rightarrow> \<not> c m s' rs'))"
proof (cases lim)
  case None
  with assms show ?thesis by (intro exI [of _ 0]) auto
next
  case (Some m)
  then have "pop_front_while (c m) account s rs = (s', rs')" using assms by simp
  from pop_front_while_drop [OF this] pop_front_while_stop [OF this] Some show ?thesis by auto
qed

text \<open>The three loops pop in sequence; each pop has a reason.\<close>

lemma loops_decompose:
  assumes "retention_loops time bytes_of account cutoff mm mb s rs = (s', rs')"
  obtains n1 n2 n3 where "n1 + n2 + n3 \<le> length rs"
    and "rs' = drop (n1 + n2 + n3) rs" and "s' = fold account (take (n1 + n2 + n3) rs) s"
    and "\<And>k. k < n1 \<Longrightarrow> time (hd (drop k rs)) < cutoff"
    and "\<And>k. k < n2 \<Longrightarrow> \<exists>m. mm = Some m \<and> length (drop (n1 + k) rs) > unat m"
    and "\<And>k. k < n3 \<Longrightarrow> \<exists>m. mb = Some m \<and> bytes_of (fold account (take (n1 + n2 + k) rs) s) > m"
    and "drop n1 rs = [] \<or> cutoff \<le> time (hd (drop n1 rs))"
    and "drop (n1 + n2) rs = [] \<or> (case mm of None \<Rightarrow> True | Some m \<Rightarrow> length (drop (n1 + n2) rs) \<le> unat m)"
    and "rs' = [] \<or> (case mb of None \<Rightarrow> True | Some m \<Rightarrow> bytes_of s' \<le> m)"
proof -
  obtain s1 rs1 where l1: "pop_front_while (\<lambda>_ rs. time (hd rs) < cutoff) account s rs = (s1, rs1)"
    by fastforce
  obtain s2 rs2 where l2: "(case mm of None \<Rightarrow> (s1, rs1)
      | Some m \<Rightarrow> pop_front_while (\<lambda>_ rs. length rs > unat m) account s1 rs1) = (s2, rs2)" by fastforce
  have l3: "(case mb of None \<Rightarrow> (s2, rs2)
      | Some m \<Rightarrow> pop_front_while (\<lambda>s _. bytes_of s > m) account s2 rs2) = (s', rs')"
    using assms l1 l2 by (simp add: retention_loops_def Let_def split: prod.splits)
  from pop_front_while_drop [OF l1] pop_front_while_stop [OF l1] obtain n1 where
    n1: "n1 \<le> length rs" "rs1 = drop n1 rs" "s1 = fold account (take n1 rs) s"
      "\<forall>k < n1. time (hd (drop k rs)) < cutoff" "rs1 = [] \<or> cutoff \<le> time (hd rs1)"
    by (auto simp: not_less)
  from loop_opt [OF l2] obtain n2 where
    n2: "n2 \<le> length rs1" "rs2 = drop n2 rs1" "s2 = fold account (take n2 rs1) s1"
      "\<forall>k < n2. \<exists>m. mm = Some m \<and> length (drop k rs1) > unat m"
      "rs2 = [] \<or> (case mm of None \<Rightarrow> True | Some m \<Rightarrow> \<not> length rs2 > unat m)"
    by blast
  from loop_opt [OF l3] obtain n3 where
    n3: "n3 \<le> length rs2" "rs' = drop n3 rs2" "s' = fold account (take n3 rs2) s2"
      "\<forall>k < n3. \<exists>m. mb = Some m \<and> bytes_of (fold account (take k rs2) s2) > m"
      "rs' = [] \<or> (case mb of None \<Rightarrow> True | Some m \<Rightarrow> \<not> bytes_of s' > m)"
    by blast
  have rs2: "rs2 = drop (n1 + n2) rs" "s2 = fold account (take (n1 + n2) rs) s"
    using n1 n2 by (simp_all add: take_add add.commute)
  have take: "take (n1 + n2 + k) rs = take (n1 + n2) rs @ take k rs2" for k
    using rs2 by (simp add: take_add)
  show thesis
  proof (rule that [of n1 n2 n3])
    show "n1 + n2 + n3 \<le> length rs" using n1(1,2) n2(1,2) n3(1) by simp
    show "rs' = drop (n1 + n2 + n3) rs" using n3(2) rs2 by (simp add: add.commute)
    show "s' = fold account (take (n1 + n2 + n3) rs) s" using n3(3) rs2 by (simp add: take)
    show "\<exists>m. mm = Some m \<and> length (drop (n1 + k) rs) > unat m" if "k < n2" for k
      using n2(4) that n1(2) by auto
    show "\<exists>m. mb = Some m \<and> bytes_of (fold account (take (n1 + n2 + k) rs) s) > m" if "k < n3" for k
      using n3(4) that rs2 by (auto simp: take)
  qed (use n1 n2 n3 rs2 in \<open>auto split: option.splits\<close>)
qed

lemma loops_suffix:
  assumes "unat (bytes_of s) = total_len payload rs"
  obtains n where "n \<le> length rs"
    and "retention_loops time bytes_of account cutoff mm mb s rs = (fold account (take n rs) s, drop n rs)"
    and "\<And>k. k < n \<Longrightarrow> \<not> within_retention time payload cutoff mm mb (drop k rs)"
    and "sorted (map time rs) \<Longrightarrow> within_retention time payload cutoff mm mb (drop n rs)"
proof -
  obtain s' rs' where l: "retention_loops time bytes_of account cutoff mm mb s rs = (s', rs')"
    by fastforce
  from loops_decompose [OF l] obtain n1 n2 n3 where
    n: "n1 + n2 + n3 \<le> length rs"
      "rs' = drop (n1 + n2 + n3) rs" "s' = fold account (take (n1 + n2 + n3) rs) s"
    and p1: "\<And>k. k < n1 \<Longrightarrow> time (hd (drop k rs)) < cutoff"
    and p2: "\<And>k. k < n2 \<Longrightarrow> \<exists>m. mm = Some m \<and> length (drop (n1 + k) rs) > unat m"
    and p3: "\<And>k. k < n3 \<Longrightarrow> \<exists>m. mb = Some m \<and> bytes_of (fold account (take (n1 + n2 + k) rs) s) > m"
    and q: "drop n1 rs = [] \<or> cutoff \<le> time (hd (drop n1 rs))"
      "drop (n1 + n2) rs = [] \<or> (case mm of None \<Rightarrow> True | Some m \<Rightarrow> length (drop (n1 + n2) rs) \<le> unat m)"
      "rs' = [] \<or> (case mb of None \<Rightarrow> True | Some m \<Rightarrow> bytes_of s' \<le> m)"
    by metis
  have out: "\<not> within_retention time payload cutoff mm mb (drop k rs)" if k: "k < n1 + n2 + n3" for k
  proof -
    consider "k < n1" | "n1 \<le> k" "k - n1 < n2" | "n1 + n2 \<le> k" "k - (n1 + n2) < n3"
      using k by linarith
    then show ?thesis
    proof cases
      case 1
      then have "hd (drop k rs) \<in> set (drop k rs)" using n(1) by (intro hd_in_set) simp
      with p1 [OF 1] show ?thesis by (fastforce simp: within_retention_def)
    next
      case 2
      with p2 [of "k - n1"] show ?thesis by (auto simp: within_retention_def)
    next
      case 3
      with p3 [of "k - (n1 + n2)"] bytes_after [OF assms] show ?thesis
        by (auto simp: within_retention_def u64_less_iff)
    qed
  qed
  have "within_retention time payload cutoff mm mb rs'" if sorted: "sorted (map time rs)"
  proof (cases "rs' = []")
    case False
    have "sorted (map time (drop n1 rs))"
      using sorted by (simp add: sorted_wrt_drop flip: drop_map)
    then have "\<forall>r \<in> set (drop n1 rs). cutoff \<le> time r"
      using q(1) by (cases "drop n1 rs") fastforce+
    moreover have "set rs' \<subseteq> set (drop n1 rs)"
      using set_drop_subset [of "n2 + n3" "drop n1 rs"] n(2) by (simp add: add.commute add.left_commute)
    moreover have "unat (bytes_of s') = total_len payload rs'"
      using bytes_after [OF assms] n by simp
    ultimately show ?thesis
      using False q(2,3) n(2) by (auto simp: within_retention_def u64_le_iff split: option.splits)
  qed simp
  with that [of "n1 + n2 + n3"] n out l show thesis by blast
qed

lemma loops_within_fix:
  assumes "unat (bytes_of s) = total_len payload rs"
    and "within_retention time payload cutoff mm mb rs"
  shows "retention_loops time bytes_of account cutoff mm mb s rs = (s, rs)"
proof -
  from loops_suffix [OF assms(1)] obtain n where n: "n \<le> length rs"
    "retention_loops time bytes_of account cutoff mm mb s rs = (fold account (take n rs) s, drop n rs)"
    "\<And>k. k < n \<Longrightarrow> \<not> within_retention time payload cutoff mm mb (drop k rs)" by metis
  have "n = 0" using n(3) [of 0] assms(2) by auto
  with n(2) show ?thesis by simp
qed

end

end
