(* ===== verification/History.thy ===== *)
theory History
  imports BTree Paging Retention
begin

text \<open>
  The channel history of \<^verbatim>\<open>sockudo-core/src/history\<close>: request types and their validation,
  the cursor, and the in-memory store with its operations (reserve, append, read a page, head,
  runtime state, inspection, reset, purge). One lock guards the channel map, so every operation
  is one atomic step on the store; a clock reading \<open>now\<close> and the UUID \<open>fresh\<close> that a new or
  reset channel takes are arguments.
\<close>

section \<open>Types\<close>

datatype history_direction = NewestFirst | OldestFirst

record history_query_bounds =
  hb_start_serial :: "u64 option"
  hb_end_serial :: "u64 option"
  hb_start_time_ms :: "i64 option"
  hb_end_time_ms :: "i64 option"

record history_cursor =
  hcur_version :: u8
  hcur_app_id :: string
  hcur_channel :: string
  hcur_stream_id :: string
  hcur_serial :: u64
  hcur_direction :: history_direction
  hcur_bounds :: history_query_bounds

record history_write_reservation =
  hwr_stream_id :: string
  hwr_serial :: u64

record history_retention_policy =
  hrp_retention_window_seconds :: u64
  hrp_max_messages_per_channel :: "usize option"
  hrp_max_bytes_per_channel :: "u64 option"

record history_append_record =
  har_app_id :: string
  har_channel :: string
  har_stream_id :: string
  har_serial :: u64
  har_published_at_ms :: i64
  har_message_id :: "string option"
  har_event_name :: "string option"
  har_operation_kind :: string
  har_payload_bytes :: bytes
  har_retention :: history_retention_policy

record history_item =
  hi_stream_id :: string
  hi_serial :: u64
  hi_published_at_ms :: i64
  hi_message_id :: "string option"
  hi_event_name :: "string option"
  hi_operation_kind :: string
  hi_payload_size_bytes :: nat
  hi_payload_bytes :: bytes

record history_read_request =
  hrr_app_id :: string
  hrr_channel :: string
  hrr_direction :: history_direction
  hrr_limit :: usize
  hrr_cursor :: "history_cursor option"
  hrr_bounds :: history_query_bounds

record history_retention_stats =
  hst_stream_id :: "string option"
  hst_retained_messages :: u64
  hst_retained_bytes :: u64
  hst_oldest_serial :: "u64 option"
  hst_newest_serial :: "u64 option"
  hst_oldest_published_at_ms :: "i64 option"
  hst_newest_published_at_ms :: "i64 option"

record history_page =
  hp_items :: "history_item list"
  hp_next_cursor :: "history_cursor option"
  hp_retained :: history_retention_stats
  hp_has_more :: bool
  hp_complete :: bool
  hp_truncated_by_retention :: bool

datatype history_durable_state = Healthy | Degraded | ResetRequired

definition recovery_allowed :: "history_durable_state \<Rightarrow> bool" where
  "recovery_allowed st \<longleftrightarrow> st = Healthy"

definition reset_required :: "history_durable_state \<Rightarrow> bool" where
  "reset_required st \<longleftrightarrow> st = ResetRequired"

record history_stream_runtime_state =
  hrs_app_id :: string
  hrs_channel :: string
  hrs_stream_id :: "string option"
  hrs_durable_state :: history_durable_state
  hrs_recovery_allowed :: bool
  hrs_reset_required :: bool
  hrs_reason :: "string option"
  hrs_node_id :: "string option"
  hrs_last_transition_at_ms :: "i64 option"
  hrs_authoritative_source :: string
  hrs_observed_source :: string

definition history_healthy :: "string \<Rightarrow> string \<Rightarrow> string option \<Rightarrow> string \<Rightarrow> history_stream_runtime_state" where
  "history_healthy app_id channel stream_id source =
     \<lparr>hrs_app_id = app_id, hrs_channel = channel, hrs_stream_id = stream_id,
      hrs_durable_state = Healthy, hrs_recovery_allowed = True, hrs_reset_required = False,
      hrs_reason = None, hrs_node_id = None, hrs_last_transition_at_ms = None,
      hrs_authoritative_source = source, hrs_observed_source = source\<rparr>"

record history_stream_inspection =
  hsi_app_id :: string
  hsi_channel :: string
  hsi_stream_id :: "string option"
  hsi_next_serial :: "u64 option"
  hsi_retained :: history_retention_stats
  hsi_state :: history_stream_runtime_state

datatype history_purge_mode = PurgeAll | PurgeBeforeSerial | PurgeBeforeTimeMs

record history_purge_request =
  hpr_mode :: history_purge_mode
  hpr_before_serial :: "u64 option"
  hpr_before_time_ms :: "i64 option"
  hpr_reason :: string
  hpr_requested_by :: "string option"

record history_reset_result =
  hrt_app_id :: string
  hrt_channel :: string
  hrt_previous_stream_id :: "string option"
  hrt_new_stream_id :: string
  hrt_purged_messages :: u64
  hrt_purged_bytes :: u64
  hrt_inspection :: history_stream_inspection

record history_purge_result =
  hpt_app_id :: string
  hpt_channel :: string
  hpt_mode :: history_purge_mode
  hpt_before_serial :: "u64 option"
  hpt_before_time_ms :: "i64 option"
  hpt_purged_messages :: u64
  hpt_purged_bytes :: u64
  hpt_inspection :: history_stream_inspection

section \<open>Validation\<close>

definition history_purge_validate :: "history_purge_request \<Rightarrow> unit result" where
  "history_purge_validate r =
     (if trim_is_empty (hpr_reason r)
      then Inl (InvalidMessageFormat ''Purge reason must not be empty'')
      else case hpr_mode r of
        PurgeAll \<Rightarrow>
          if hpr_before_serial r \<noteq> None \<or> hpr_before_time_ms r \<noteq> None
          then Inl (InvalidMessageFormat ''Purge mode 'all' does not accept bounds'')
          else Inr ()
      | PurgeBeforeSerial \<Rightarrow>
          if hpr_before_serial r = None \<or> hpr_before_time_ms r \<noteq> None
          then Inl (InvalidMessageFormat ''Purge mode 'before_serial' requires before_serial only'')
          else Inr ()
      | PurgeBeforeTimeMs \<Rightarrow>
          if hpr_before_time_ms r = None \<or> hpr_before_serial r \<noteq> None
          then Inl (InvalidMessageFormat ''Purge mode 'before_time_ms' requires before_time_ms only'')
          else Inr ())"

definition opt_gt :: "'a::linorder option \<Rightarrow> 'a option \<Rightarrow> bool" where
  "opt_gt a b \<longleftrightarrow> (case (a, b) of (Some x, Some y) \<Rightarrow> x > y | _ \<Rightarrow> False)"

definition history_read_validate :: "history_read_request \<Rightarrow> unit result" where
  "history_read_validate r =
     (if hrr_limit r = 0 then Inl (InvalidMessageFormat ''History limit must be greater than 0'')
      else if opt_gt (hb_start_serial (hrr_bounds r)) (hb_end_serial (hrr_bounds r))
      then Inl (InvalidMessageFormat ''start_serial must be less than or equal to end_serial'')
      else if opt_gt (hb_start_time_ms (hrr_bounds r)) (hb_end_time_ms (hrr_bounds r))
      then Inl (InvalidMessageFormat ''start_time_ms must be less than or equal to end_time_ms'')
      else case hrr_cursor r of
        None \<Rightarrow> Inr ()
      | Some cursor \<Rightarrow>
          if hcur_version cursor \<noteq> 1
          then Inl (InvalidMessageFormat
                 (''Unsupported history cursor version: '' @ show_nat (unat (hcur_version cursor))))
          else if hcur_app_id cursor \<noteq> hrr_app_id r
          then Inl (InvalidMessageFormat ''History cursor app does not match the request'')
          else if hcur_channel cursor \<noteq> hrr_channel r
          then Inl (InvalidMessageFormat ''History cursor channel does not match the request'')
          else if hcur_direction cursor \<noteq> hrr_direction r
          then Inl (InvalidMessageFormat ''History cursor direction does not match the request'')
          else if hcur_bounds cursor \<noteq> hrr_bounds r
          then Inl (InvalidMessageFormat ''History cursor bounds do not match the request'')
          else Inr ())"

text \<open>
  The cursor codec. JSON and base64 are third-party code: \<open>to_vec\<close>, \<open>b64_encode\<close>, \<open>b64_decode\<close>
  and \<open>from_slice\<close> are parameters, a left result carrying the printed error.
\<close>

definition history_cursor_encode ::
    "(history_cursor \<Rightarrow> string + bytes) \<Rightarrow> (bytes \<Rightarrow> string) \<Rightarrow> history_cursor \<Rightarrow> string result" where
  "history_cursor_encode to_vec b64_encode c =
     (case to_vec c of
        Inl e \<Rightarrow> Inl (Serialization (''Failed to encode history cursor: '' @ e))
      | Inr bs \<Rightarrow> Inr (b64_encode bs))"

definition history_cursor_decode ::
    "(string \<Rightarrow> string + bytes) \<Rightarrow> (bytes \<Rightarrow> string + history_cursor) \<Rightarrow> string \<Rightarrow> history_cursor result" where
  "history_cursor_decode b64_decode from_slice encoded =
     (if length encoded > 16 * 1024 then Inl (InvalidMessageFormat ''History cursor exceeds 16 KiB'')
      else case b64_decode encoded of
        Inl e \<Rightarrow> Inl (InvalidMessageFormat (''Invalid history cursor: '' @ e))
      | Inr bs \<Rightarrow>
          (case from_slice bs of
             Inl e \<Rightarrow> Inl (InvalidMessageFormat (''Invalid history cursor: '' @ e))
           | Inr c \<Rightarrow>
               if hcur_version c \<noteq> 1
               then Inl (InvalidMessageFormat
                      (''Unsupported history cursor version: '' @ show_nat (unat (hcur_version c))))
               else Inr c))"

section \<open>The in-memory store\<close>

record memory_history_store_config =
  hcfg_retention_window :: u64
  hcfg_max_messages_per_channel :: "usize option"
  hcfg_max_bytes_per_channel :: "u64 option"

record memory_history_channel =
  hch_stream_id :: string
  hch_next_serial :: u64
  hch_retained_bytes :: u64
  hch_records :: "history_append_record list"
  hch_retention :: "history_retention_policy option"

record memory_history_store =
  hs_channels :: "(string, memory_history_channel) btree"
  hs_config :: memory_history_store_config

definition history_channel_default :: "string \<Rightarrow> memory_history_channel" where
  "history_channel_default fresh =
     \<lparr>hch_stream_id = fresh, hch_next_serial = 1, hch_retained_bytes = 0, hch_records = [],
      hch_retention = None\<rparr>"

definition history_store_new :: "memory_history_store_config \<Rightarrow> memory_history_store" where
  "history_store_new config = \<lparr>hs_channels = [], hs_config = config\<rparr>"

definition history_channel_key :: "string \<Rightarrow> string \<Rightarrow> string" where
  "history_channel_key app_id channel = app_id @ CHR 0x00 # channel"

definition history_default_retention :: "memory_history_store_config \<Rightarrow> history_retention_policy" where
  "history_default_retention config =
     \<lparr>hrp_retention_window_seconds = hcfg_retention_window config,
      hrp_max_messages_per_channel = hcfg_max_messages_per_channel config,
      hrp_max_bytes_per_channel = hcfg_max_bytes_per_channel config\<rparr>"

text \<open>
  \<^verbatim>\<open>now_ms().saturating_sub((retention_window_seconds * 1000) as i64)\<close>: the product is a
  \<^verbatim>\<open>u64\<close> and the cast reinterprets its bits.
\<close>

definition history_cutoff_ms :: "i64 \<Rightarrow> history_retention_policy \<Rightarrow> i64" where
  "history_cutoff_ms now retention =
     i64_sat_sub now (sint (hrp_retention_window_seconds retention * 1000))"

definition history_evict_channel ::
    "i64 \<Rightarrow> history_retention_policy \<Rightarrow> memory_history_channel \<Rightarrow> memory_history_channel" where
  "history_evict_channel now retention ch =
     (let (bytes, records) =
            retention_loops har_published_at_ms (\<lambda>b. b) (account_pop har_payload_bytes)
              (history_cutoff_ms now retention)
              (hrp_max_messages_per_channel retention) (hrp_max_bytes_per_channel retention)
              (hch_retained_bytes ch) (hch_records ch)
      in ch\<lparr>hch_retained_bytes := bytes, hch_records := records\<rparr>)"

definition history_retained_from_channel :: "memory_history_channel \<Rightarrow> history_retention_stats" where
  "history_retained_from_channel ch =
     \<lparr>hst_stream_id = Some (hch_stream_id ch),
      hst_retained_messages = len64 (hch_records ch),
      hst_retained_bytes = hch_retained_bytes ch,
      hst_oldest_serial = map_option har_serial (front_of (hch_records ch)),
      hst_newest_serial = map_option har_serial (back_of (hch_records ch)),
      hst_oldest_published_at_ms = map_option har_published_at_ms (front_of (hch_records ch)),
      hst_newest_published_at_ms = map_option har_published_at_ms (back_of (hch_records ch))\<rparr>"

definition history_stats_default :: history_retention_stats where
  "history_stats_default =
     \<lparr>hst_stream_id = None, hst_retained_messages = 0, hst_retained_bytes = 0,
      hst_oldest_serial = None, hst_newest_serial = None,
      hst_oldest_published_at_ms = None, hst_newest_published_at_ms = None\<rparr>"

definition is_truncated_by_retention :: "history_query_bounds \<Rightarrow> history_retention_stats \<Rightarrow> bool" where
  "is_truncated_by_retention bounds retained \<longleftrightarrow>
     opt_gt (hst_oldest_serial retained) (hb_start_serial bounds) \<or>
     opt_gt (hst_oldest_published_at_ms retained) (hb_start_time_ms bounds) \<or>
     hb_start_serial bounds = None \<and> hb_start_time_ms bounds = None \<and>
       (case hst_oldest_serial retained of None \<Rightarrow> False | Some oldest \<Rightarrow> oldest > 1)"

text \<open>\<^verbatim>\<open>channels.entry(key).or_default()\<close>, and writing the entry back.\<close>

definition history_entry :: "string \<Rightarrow> string \<Rightarrow> memory_history_store \<Rightarrow> memory_history_channel" where
  "history_entry fresh key s =
     (case bt_get (hs_channels s) key of None \<Rightarrow> history_channel_default fresh | Some ch \<Rightarrow> ch)"

definition history_put :: "string \<Rightarrow> memory_history_channel \<Rightarrow> memory_history_store \<Rightarrow> memory_history_store" where
  "history_put key ch s = s\<lparr>hs_channels := bt_insert key ch (hs_channels s)\<rparr>"

text \<open>\<^verbatim>\<open>retention.clone().unwrap_or_else(default_retention)\<close> followed by \<^verbatim>\<open>evict_channel\<close>.\<close>

definition history_evict ::
    "i64 \<Rightarrow> memory_history_store_config \<Rightarrow> memory_history_channel \<Rightarrow> memory_history_channel" where
  "history_evict now config ch =
     history_evict_channel now
       (case hch_retention ch of None \<Rightarrow> history_default_retention config | Some r \<Rightarrow> r) ch"

definition history_reserve_publish_position ::
    "string \<Rightarrow> string \<Rightarrow> string \<Rightarrow> memory_history_store \<Rightarrow>
     memory_history_store \<times> history_write_reservation result" where
  "history_reserve_publish_position fresh app_id channel s =
     (let key = history_channel_key app_id channel;
          ch = history_entry fresh key s;
          reservation = \<lparr>hwr_stream_id = hch_stream_id ch, hwr_serial = hch_next_serial ch\<rparr>
      in (history_put key (ch\<lparr>hch_next_serial := sat_add (hch_next_serial ch) 1\<rparr>) s, Inr reservation))"

definition history_append ::
    "i64 \<Rightarrow> string \<Rightarrow> history_append_record \<Rightarrow> memory_history_store \<Rightarrow> memory_history_store \<times> unit result" where
  "history_append now fresh r s =
     (let key = history_channel_key (har_app_id r) (har_channel r);
          ch = history_entry fresh key s;
          ch1 = ch\<lparr>hch_stream_id := har_stream_id r,
                   hch_next_serial := max (hch_next_serial ch) (sat_add (har_serial r) 1),
                   hch_retention := Some (har_retention r),
                   hch_retained_bytes := sat_add (hch_retained_bytes ch) (len64 (har_payload_bytes r)),
                   hch_records := hch_records ch @ [r]\<rparr>
      in (history_put key (history_evict now (hs_config s) ch1) s, Inr ()))"

definition in_bounds :: "history_query_bounds \<Rightarrow> u64 \<Rightarrow> i64 \<Rightarrow> bool" where
  "in_bounds b serial time \<longleftrightarrow>
     (case hb_start_serial b of None \<Rightarrow> True | Some start \<Rightarrow> serial \<ge> start) \<and>
     (case hb_end_serial b of None \<Rightarrow> True | Some e \<Rightarrow> serial \<le> e) \<and>
     (case hb_start_time_ms b of None \<Rightarrow> True | Some start \<Rightarrow> time \<ge> start) \<and>
     (case hb_end_time_ms b of None \<Rightarrow> True | Some e \<Rightarrow> time \<le> e)"

definition history_matcher :: "history_read_request \<Rightarrow> history_append_record \<Rightarrow> bool" where
  "history_matcher q r \<longleftrightarrow>
     in_bounds (hrr_bounds q) (har_serial r) (har_published_at_ms r) \<and>
     (case hrr_cursor q of
        None \<Rightarrow> True
      | Some c \<Rightarrow>
          (case hrr_direction q of
             NewestFirst \<Rightarrow> har_stream_id r = hcur_stream_id c \<and> har_serial r < hcur_serial c
           | OldestFirst \<Rightarrow> har_stream_id r = hcur_stream_id c \<and> har_serial r > hcur_serial c))"

definition history_item_of :: "history_append_record \<Rightarrow> history_item" where
  "history_item_of r =
     \<lparr>hi_stream_id = har_stream_id r, hi_serial = har_serial r,
      hi_published_at_ms = har_published_at_ms r, hi_message_id = har_message_id r,
      hi_event_name = har_event_name r, hi_operation_kind = har_operation_kind r,
      hi_payload_size_bytes = length (har_payload_bytes r), hi_payload_bytes = har_payload_bytes r\<rparr>"

text \<open>The page built from an evicted channel; \<^verbatim>\<open>request.limit + 1\<close> is a \<^verbatim>\<open>usize\<close> addition.\<close>

definition history_page_of :: "history_read_request \<Rightarrow> memory_history_channel \<Rightarrow> history_page" where
  "history_page_of q ch =
     (let retained = history_retained_from_channel ch;
          ordered = (case hrr_direction q of
                       NewestFirst \<Rightarrow> rev (hch_records ch) | OldestFirst \<Rightarrow> hch_records ch);
          collected = take (unat (hrr_limit q + 1)) (filter (history_matcher q) ordered);
          has_more = length collected > unat (hrr_limit q);
          items = map history_item_of (take (unat (hrr_limit q)) collected);
          next_cursor =
            (if has_more then
               map_option (\<lambda>i. \<lparr>hcur_version = 1, hcur_app_id = hrr_app_id q, hcur_channel = hrr_channel q,
                  hcur_stream_id = hi_stream_id i, hcur_serial = hi_serial i,
                  hcur_direction = hrr_direction q, hcur_bounds = hrr_bounds q\<rparr>) (back_of items)
             else None);
          truncated = is_truncated_by_retention (hrr_bounds q) retained
      in \<lparr>hp_items = items, hp_next_cursor = next_cursor, hp_retained = retained,
          hp_has_more = has_more, hp_complete = (\<not> has_more \<and> \<not> truncated),
          hp_truncated_by_retention = truncated\<rparr>)"

definition history_cursor_check :: "history_read_request \<Rightarrow> memory_history_channel \<Rightarrow> unit result" where
  "history_cursor_check q ch =
     (case hrr_cursor q of
        None \<Rightarrow> Inr ()
      | Some c \<Rightarrow>
          if hcur_stream_id c \<noteq> hch_stream_id ch
          then Inl (InvalidMessageFormat ''Expired history cursor: channel stream changed'')
          else if opt_gt (hst_oldest_serial (history_retained_from_channel ch)) (Some (hcur_serial c))
          then Inl (InvalidMessageFormat ''Expired history cursor: cursor points before retained history'')
          else Inr ())"

definition history_read_page ::
    "i64 \<Rightarrow> history_read_request \<Rightarrow> memory_history_store \<Rightarrow> memory_history_store \<times> history_page result" where
  "history_read_page now q s =
     (case history_read_validate q of
        Inl e \<Rightarrow> (s, Inl e)
      | Inr _ \<Rightarrow>
          (let key = history_channel_key (hrr_app_id q) (hrr_channel q) in
           case bt_get (hs_channels s) key of
             None \<Rightarrow> (s, Inr \<lparr>hp_items = [], hp_next_cursor = None, hp_retained = history_stats_default,
                             hp_has_more = False, hp_complete = True, hp_truncated_by_retention = False\<rparr>)
           | Some ch0 \<Rightarrow>
               (let ch = history_evict now (hs_config s) ch0; s' = history_put key ch s in
                case history_cursor_check q ch of
                  Inl e \<Rightarrow> (s', Inl e)
                | Inr _ \<Rightarrow> (s', Inr (history_page_of q ch)))))"

definition history_channel_head ::
    "i64 \<Rightarrow> string \<Rightarrow> string \<Rightarrow> memory_history_store \<Rightarrow> memory_history_store \<times> history_retention_stats result" where
  "history_channel_head now app_id channel s =
     (let key = history_channel_key app_id channel in
      case bt_get (hs_channels s) key of
        None \<Rightarrow> (s, Inr history_stats_default)
      | Some ch0 \<Rightarrow>
          (let ch = history_evict now (hs_config s) ch0
           in (history_put key ch s, Inr (history_retained_from_channel ch))))"

definition history_stream_runtime_state_op ::
    "i64 \<Rightarrow> string \<Rightarrow> string \<Rightarrow> string \<Rightarrow> memory_history_store \<Rightarrow>
     memory_history_store \<times> history_stream_runtime_state result" where
  "history_stream_runtime_state_op now fresh app_id channel s =
     (let key = history_channel_key app_id channel;
          ch = history_evict now (hs_config s) (history_entry fresh key s)
      in (history_put key ch s,
          Inr (history_healthy app_id channel (Some (hch_stream_id ch)) ''in_memory'')))"

definition history_inspection_of :: "string \<Rightarrow> string \<Rightarrow> memory_history_channel \<Rightarrow> history_stream_inspection" where
  "history_inspection_of app_id channel ch =
     \<lparr>hsi_app_id = app_id, hsi_channel = channel, hsi_stream_id = Some (hch_stream_id ch),
      hsi_next_serial = Some (hch_next_serial ch), hsi_retained = history_retained_from_channel ch,
      hsi_state = history_healthy app_id channel (Some (hch_stream_id ch)) ''in_memory''\<rparr>"

definition history_stream_inspection_op ::
    "i64 \<Rightarrow> string \<Rightarrow> string \<Rightarrow> string \<Rightarrow> memory_history_store \<Rightarrow>
     memory_history_store \<times> history_stream_inspection result" where
  "history_stream_inspection_op now fresh app_id channel s =
     (let key = history_channel_key app_id channel;
          ch = history_evict now (hs_config s) (history_entry fresh key s)
      in (history_put key ch s, Inr (history_inspection_of app_id channel ch)))"

text \<open>\<open>fresh\<close> is the UUID of a channel created here, \<open>fresh'\<close> the one of the new stream.\<close>

definition history_reset_stream ::
    "string \<Rightarrow> string \<Rightarrow> string \<Rightarrow> string \<Rightarrow> memory_history_store \<Rightarrow>
     memory_history_store \<times> history_reset_result result" where
  "history_reset_stream fresh fresh' app_id channel s =
     (let key = history_channel_key app_id channel;
          ch = history_entry fresh key s;
          ch' = ch\<lparr>hch_records := [], hch_retained_bytes := 0, hch_next_serial := 1,
                   hch_stream_id := fresh'\<rparr>;
          inspection = history_inspection_of app_id channel ch'
      in (history_put key ch' s,
          Inr \<lparr>hrt_app_id = app_id, hrt_channel = channel,
               hrt_previous_stream_id = Some (hch_stream_id ch),
               hrt_new_stream_id = (case hsi_stream_id inspection of None \<Rightarrow> [] | Some i \<Rightarrow> i),
               hrt_purged_messages = len64 (hch_records ch),
               hrt_purged_bytes = hch_retained_bytes ch,
               hrt_inspection = inspection\<rparr>))"

definition history_purge_keep :: "history_purge_request \<Rightarrow> history_append_record \<Rightarrow> bool" where
  "history_purge_keep q r \<longleftrightarrow>
     (case hpr_mode q of
        PurgeAll \<Rightarrow> False
      | PurgeBeforeSerial \<Rightarrow>
          har_serial r \<ge> (case hpr_before_serial q of None \<Rightarrow> 0 | Some b \<Rightarrow> b)
      | PurgeBeforeTimeMs \<Rightarrow>
          har_published_at_ms r \<ge> (case hpr_before_time_ms q of None \<Rightarrow> 0 | Some t \<Rightarrow> t))"

definition history_purge_stream ::
    "string \<Rightarrow> string \<Rightarrow> string \<Rightarrow> history_purge_request \<Rightarrow> memory_history_store \<Rightarrow>
     memory_history_store \<times> history_purge_result result" where
  "history_purge_stream fresh app_id channel q s =
     (case history_purge_validate q of
        Inl e \<Rightarrow> (s, Inl e)
      | Inr _ \<Rightarrow>
          (let key = history_channel_key app_id channel;
               ch = history_entry fresh key s;
               retained = filter (history_purge_keep q) (hch_records ch);
               ch' = ch\<lparr>hch_records := retained,
                        hch_retained_bytes := sum_list (map (\<lambda>r. len64 (har_payload_bytes r)) retained)\<rparr>
           in (history_put key ch' s,
               Inr \<lparr>hpt_app_id = app_id, hpt_channel = channel, hpt_mode = hpr_mode q,
                    hpt_before_serial = hpr_before_serial q, hpt_before_time_ms = hpr_before_time_ms q,
                    hpt_purged_messages = of_nat (length (hch_records ch) - length retained),
                    hpt_purged_bytes = sat_sub (hch_retained_bytes ch) (hch_retained_bytes ch'),
                    hpt_inspection = history_inspection_of app_id channel ch'\<rparr>)))"

section \<open>Eviction\<close>

definition history_accounted :: "memory_history_channel \<Rightarrow> bool" where
  "history_accounted ch \<longleftrightarrow> unat (hch_retained_bytes ch) = total_len har_payload_bytes (hch_records ch)"

definition history_times_sorted :: "memory_history_channel \<Rightarrow> bool" where
  "history_times_sorted ch \<longleftrightarrow> sorted (map har_published_at_ms (hch_records ch))"

abbreviation history_within :: "i64 \<Rightarrow> history_retention_policy \<Rightarrow> history_append_record list \<Rightarrow> bool" where
  "history_within now retention \<equiv>
     within_retention har_published_at_ms har_payload_bytes (history_cutoff_ms now retention)
       (hrp_max_messages_per_channel retention) (hrp_max_bytes_per_channel retention)"

interpretation hq: retained_queue har_published_at_ms har_payload_bytes "\<lambda>b. b" "account_pop har_payload_bytes"
  by unfold_locales simp

lemma history_evict_channel_suffix:
  assumes "history_accounted ch"
  obtains n b where "n \<le> length (hch_records ch)"
    and "history_evict_channel now retention ch =
      ch\<lparr>hch_retained_bytes := b, hch_records := drop n (hch_records ch)\<rparr>"
    and "unat b = total_len har_payload_bytes (drop n (hch_records ch))"
    and "\<And>k. k < n \<Longrightarrow> \<not> history_within now retention (drop k (hch_records ch))"
    and "history_times_sorted ch \<Longrightarrow> history_within now retention (drop n (hch_records ch))"
proof -
  from assms have acc: "unat (hch_retained_bytes ch) = total_len har_payload_bytes (hch_records ch)"
    by (simp add: history_accounted_def)
  obtain n where n: "n \<le> length (hch_records ch)"
    "retention_loops har_published_at_ms (\<lambda>b. b) (account_pop har_payload_bytes)
       (history_cutoff_ms now retention) (hrp_max_messages_per_channel retention)
       (hrp_max_bytes_per_channel retention) (hch_retained_bytes ch) (hch_records ch) =
     (fold (account_pop har_payload_bytes) (take n (hch_records ch)) (hch_retained_bytes ch),
      drop n (hch_records ch))"
    "\<And>k. k < n \<Longrightarrow> \<not> history_within now retention (drop k (hch_records ch))"
    "sorted (map har_published_at_ms (hch_records ch)) \<Longrightarrow> history_within now retention (drop n (hch_records ch))"
    using hq.loops_suffix [OF acc] by metis
  show thesis
    by (rule that [OF n(1) _ hq.bytes_after [OF acc] n(3)])
      (simp_all add: history_evict_channel_def n(2) n(4) history_times_sorted_def)
qed

lemma history_evict_channel_fix:
  assumes "history_accounted ch" and "history_within now retention (hch_records ch)"
  shows "history_evict_channel now retention ch = ch"
  using hq.loops_within_fix [OF assms(1) [unfolded history_accounted_def] assms(2)]
  by (simp add: history_evict_channel_def)

text \<open>The policy a channel is evicted with.\<close>

definition history_policy :: "memory_history_store_config \<Rightarrow> memory_history_channel \<Rightarrow> history_retention_policy" where
  "history_policy config ch =
     (case hch_retention ch of None \<Rightarrow> history_default_retention config | Some r \<Rightarrow> r)"

lemma history_evict_eq: "history_evict now config ch = history_evict_channel now (history_policy config ch) ch"
  by (simp add: history_evict_def history_policy_def)

definition history_channel_ok :: "memory_history_channel \<Rightarrow> bool" where
  "history_channel_ok ch \<longleftrightarrow>
     history_accounted ch \<and> sorted_wrt (<) (map har_serial (hch_records ch)) \<and>
     (\<forall>r \<in> set (hch_records ch). har_serial r < hch_next_serial ch \<and> har_stream_id r = hch_stream_id ch)"

lemma history_evict_facts:
  assumes "history_accounted ch"
  shows "hch_stream_id (history_evict now config ch) = hch_stream_id ch"
    and "hch_next_serial (history_evict now config ch) = hch_next_serial ch"
    and "hch_retention (history_evict now config ch) = hch_retention ch"
    and "\<exists>n. hch_records (history_evict now config ch) = drop n (hch_records ch)"
    and "history_accounted (history_evict now config ch)"
proof -
  obtain n b where "history_evict now config ch =
      ch\<lparr>hch_retained_bytes := b, hch_records := drop n (hch_records ch)\<rparr>"
    and "unat b = total_len har_payload_bytes (drop n (hch_records ch))"
    using history_evict_channel_suffix [OF assms, of now "history_policy config ch"]
    unfolding history_evict_eq by metis
  then show "hch_stream_id (history_evict now config ch) = hch_stream_id ch"
    and "hch_next_serial (history_evict now config ch) = hch_next_serial ch"
    and "hch_retention (history_evict now config ch) = hch_retention ch"
    and "\<exists>n. hch_records (history_evict now config ch) = drop n (hch_records ch)"
    and "history_accounted (history_evict now config ch)"
    by (auto simp: history_accounted_def)
qed

lemma history_evict_ok:
  assumes "history_channel_ok ch"
  shows "history_channel_ok (history_evict now config ch)"
proof -
  have acc: "history_accounted ch" using assms by (simp add: history_channel_ok_def)
  from history_evict_facts(4) [OF acc] obtain n where
    "hch_records (history_evict now config ch) = drop n (hch_records ch)" by blast
  with assms history_evict_facts [OF acc, of now config] show ?thesis
    by (auto simp: history_channel_ok_def sorted_wrt_drop simp flip: drop_map dest: in_set_dropD)
qed

lemma history_evict_times_sorted:
  assumes "history_accounted ch" and "history_times_sorted ch"
  shows "history_times_sorted (history_evict now config ch)"
proof -
  obtain n where "hch_records (history_evict now config ch) = drop n (hch_records ch)"
    using history_evict_facts(4) [OF assms(1)] by blast
  with assms(2) show ?thesis
    by (simp add: history_times_sorted_def sorted_wrt_drop flip: drop_map)
qed

lemma history_evict_idem:
  assumes "history_accounted ch" and "history_times_sorted ch"
  shows "history_evict now config (history_evict now config ch) = history_evict now config ch"
proof -
  let ?ch = "history_evict now config ch"
  have pol: "history_policy config ?ch = history_policy config ch"
    by (simp add: history_policy_def history_evict_facts(3) [OF assms(1)])
  obtain n b where "history_evict_channel now (history_policy config ch) ch =
      ch\<lparr>hch_retained_bytes := b, hch_records := drop n (hch_records ch)\<rparr>"
    and "history_within now (history_policy config ch) (drop n (hch_records ch))"
    using history_evict_channel_suffix [OF assms(1), of now "history_policy config ch"] assms(2)
    by metis
  then have "history_within now (history_policy config ch) (hch_records ?ch)"
    by (simp add: history_evict_eq)
  then have "history_evict_channel now (history_policy config ?ch) ?ch = ?ch"
    using history_evict_facts(5) [OF assms(1)] by (intro history_evict_channel_fix) (simp_all add: pol)
  then show ?thesis by (simp add: history_evict_eq [of now config ?ch])
qed

section \<open>Invariants of the store\<close>

definition history_store_ok :: "memory_history_store \<Rightarrow> bool" where
  "history_store_ok s \<longleftrightarrow>
     bt_wf (hs_channels s) \<and> (\<forall>k ch. bt_get (hs_channels s) k = Some ch \<longrightarrow> history_channel_ok ch)"

lemma history_channel_default_ok [simp]: "history_channel_ok (history_channel_default fresh)"
  by (simp add: history_channel_ok_def history_accounted_def history_channel_default_def)

lemma history_entry_ok [intro]: "history_store_ok s \<Longrightarrow> history_channel_ok (history_entry fresh key s)"
  by (simp add: history_entry_def history_store_ok_def split: option.splits)

lemma history_put_ok [intro]:
  "history_store_ok s \<Longrightarrow> history_channel_ok ch \<Longrightarrow> history_store_ok (history_put key ch s)"
  by (auto simp: history_store_ok_def history_put_def bt.get_put split: if_splits)

lemma history_put_get [simp]:
  "bt_get (hs_channels (history_put key ch s)) key' = (if key' = key then Some ch else bt_get (hs_channels s) key')"
  by (simp add: history_put_def bt.get_put)

lemma history_put_config [simp]: "hs_config (history_put key ch s) = hs_config s"
  by (simp add: history_put_def)

lemma history_entry_put [simp]: "history_entry fresh key (history_put key ch s) = ch"
  by (simp add: history_entry_def)

lemma history_advance_ok:
  "history_channel_ok ch \<Longrightarrow> history_channel_ok (ch\<lparr>hch_next_serial := sat_add (hch_next_serial ch) 1\<rparr>)"
  by (auto simp: history_channel_ok_def history_accounted_def intro: less_le_trans [OF _ sat_add_ge])

text \<open>Appending in serial order, to the stream the channel is on.\<close>

lemma history_push_ok:
  assumes "history_channel_ok ch" and "har_stream_id r = hch_stream_id ch"
    and "\<forall>r' \<in> set (hch_records ch). har_serial r' < har_serial r"
    and "har_serial r \<noteq> - 1"
    and "total_len har_payload_bytes (hch_records ch) + length (har_payload_bytes r) < 2 ^ 64"
  shows "history_channel_ok
    (ch\<lparr>hch_stream_id := har_stream_id r,
        hch_next_serial := max (hch_next_serial ch) (sat_add (har_serial r) 1),
        hch_retention := Some (har_retention r),
        hch_retained_bytes := sat_add (hch_retained_bytes ch) (len64 (har_payload_bytes r)),
        hch_records := hch_records ch @ [r]\<rparr>)"
proof -
  have "unat (sat_add (hch_retained_bytes ch) (len64 (har_payload_bytes r))) =
      total_len har_payload_bytes (hch_records ch) + length (har_payload_bytes r)"
    using assms(1,5) by (simp add: history_channel_ok_def history_accounted_def unat_sat_add unat_len64)
  moreover have "har_serial r < max (hch_next_serial ch) (sat_add (har_serial r) 1)"
    using less_sat_add_1 [OF assms(4)] by (simp add: less_max_iff_disj)
  ultimately show ?thesis
    using assms(1-3) by (auto simp: history_channel_ok_def history_accounted_def sorted_wrt_append less_max_iff_disj)
qed

text \<open>
  The word sum that a purge recomputes the byte counter with is the number of bytes it keeps.
\<close>

lemma unat_sum_len64:
  "total_len payload rs < 2 ^ 64 \<Longrightarrow> unat (sum_list (map (\<lambda>r. len64 (payload r)) rs)) = total_len payload rs"
proof (induction rs)
  case (Cons r rs)
  then have "unat (len64 (payload r)) = length (payload r)"
    and "unat (sum_list (map (\<lambda>r. len64 (payload r)) rs)) = total_len payload rs"
    by (simp_all add: unat_len64)
  with Cons.prems show ?case
    by (simp add: unat_add_lem [THEN iffD1])
qed simp

lemma total_len_filter_le: "total_len payload (filter P rs) \<le> total_len payload rs"
  by (induction rs) auto

lemma history_accounted_filter:
  assumes "history_accounted ch"
  shows "unat (sum_list (map (\<lambda>r. len64 (har_payload_bytes r)) (filter P (hch_records ch)))) =
    total_len har_payload_bytes (filter P (hch_records ch))"
proof (rule unat_sum_len64)
  have "total_len har_payload_bytes (hch_records ch) < 2 ^ 64"
    using assms unat_u64_less [of "hch_retained_bytes ch"] by (simp add: history_accounted_def)
  then show "total_len har_payload_bytes (filter P (hch_records ch)) < 2 ^ 64"
    using total_len_filter_le by (rule le_less_trans [rotated])
qed

lemma history_purged_ok:
  assumes "history_channel_ok ch"
  shows "history_channel_ok (ch\<lparr>hch_records := filter P (hch_records ch),
    hch_retained_bytes := sum_list (map (\<lambda>r. len64 (har_payload_bytes r)) (filter P (hch_records ch)))\<rparr>)"
proof -
  have "history_accounted ch" using assms by (simp add: history_channel_ok_def)
  from history_accounted_filter [OF this] assms show ?thesis
    by (auto simp: history_channel_ok_def history_accounted_def sorted_wrt_map sorted_wrt_filter)
qed

section \<open>Reachable stores\<close>

text \<open>
  A publisher reserves a position and appends its message with it; \<open>publish\<close> is the two calls
  with no other operation on that store in between. The guards are physical: serial numbers are
  not exhausted and a channel holds less than \<open>2 ^ 64\<close> bytes.
\<close>

inductive history_step :: "memory_history_store \<Rightarrow> memory_history_store \<Rightarrow> bool" where
  publish: "history_reserve_publish_position fresh app_id channel s = (s1, Inr res) \<Longrightarrow>
     har_app_id r = app_id \<Longrightarrow> har_channel r = channel \<Longrightarrow>
     har_stream_id r = hwr_stream_id res \<Longrightarrow> har_serial r = hwr_serial res \<Longrightarrow> hwr_serial res \<noteq> - 1 \<Longrightarrow>
     total_len har_payload_bytes (hch_records (history_entry fresh (history_channel_key app_id channel) s)) +
       length (har_payload_bytes r) < 2 ^ 64 \<Longrightarrow>
     history_step s (fst (history_append now fresh r s1))"
| reserve: "history_step s (fst (history_reserve_publish_position fresh app_id channel s))"
| read: "history_step s (fst (history_read_page now q s))"
| head: "history_step s (fst (history_channel_head now app_id channel s))"
| runtime: "history_step s (fst (history_stream_runtime_state_op now fresh app_id channel s))"
| inspect: "history_step s (fst (history_stream_inspection_op now fresh app_id channel s))"
| reset: "history_step s (fst (history_reset_stream fresh fresh' app_id channel s))"
| purge: "history_step s (fst (history_purge_stream fresh app_id channel pq s))"

inductive history_reachable :: "memory_history_store_config \<Rightarrow> memory_history_store \<Rightarrow> bool" for config where
  init: "history_reachable config (history_store_new config)"
| step: "history_reachable config s \<Longrightarrow> history_step s s' \<Longrightarrow> history_reachable config s'"

lemma history_reserve_ok:
  "history_store_ok s \<Longrightarrow> history_store_ok (fst (history_reserve_publish_position fresh app_id channel s))"
  by (auto simp: history_reserve_publish_position_def Let_def intro!: history_put_ok history_advance_ok)

lemma history_publish_ok:
  assumes s: "history_store_ok s"
    and res: "history_reserve_publish_position fresh app_id channel s = (s1, Inr res)"
    and r: "har_app_id r = app_id" "har_channel r = channel" "har_stream_id r = hwr_stream_id res"
      "har_serial r = hwr_serial res" "hwr_serial res \<noteq> - 1"
    and len: "total_len har_payload_bytes (hch_records (history_entry fresh (history_channel_key app_id channel) s)) +
       length (har_payload_bytes r) < 2 ^ 64"
  shows "history_store_ok (fst (history_append now fresh r s1))"
proof -
  let ?key = "history_channel_key app_id channel"
  let ?ch = "history_entry fresh ?key s"
  let ?ch1 = "?ch\<lparr>hch_next_serial := sat_add (hch_next_serial ?ch) 1\<rparr>"
  have s1: "s1 = history_put ?key ?ch1 s" "hwr_stream_id res = hch_stream_id ?ch"
    "hwr_serial res = hch_next_serial ?ch"
    using res by (auto simp: history_reserve_publish_position_def Let_def)
  have ok: "history_channel_ok ?ch" using s by blast
  have ok1: "history_channel_ok ?ch1" "history_store_ok s1"
    using history_advance_ok [OF ok] s s1(1) by (auto intro: history_put_ok)
  have entry: "history_entry fresh ?key s1 = ?ch1"
    using s1(1) by simp
  have serial: "\<forall>r' \<in> set (hch_records ?ch1). har_serial r' < har_serial r"
    using ok s1 r by (simp add: history_channel_ok_def)
  show ?thesis
    unfolding history_append_def Let_def fst_conv r(1,2) entry
    using r s1 len serial ok1 by (intro history_put_ok history_evict_ok history_push_ok) simp_all
qed

lemma history_evict_put_ok:
  "history_store_ok s \<Longrightarrow> history_channel_ok ch \<Longrightarrow>
   history_store_ok (history_put key (history_evict now config ch) s)"
  by (intro history_put_ok history_evict_ok)

lemma history_step_ok: "history_step s s' \<Longrightarrow> history_store_ok s \<Longrightarrow> history_store_ok s'"
proof (induction rule: history_step.induct)
  case (publish fresh app_id channel s s1 res r now)
  then show ?case by (intro history_publish_ok)
next
  case (reserve s fresh app_id channel)
  then show ?case by (rule history_reserve_ok)
next
  case (read s now q)
  then have "\<And>k ch. bt_get (hs_channels s) k = Some ch \<Longrightarrow> history_channel_ok ch"
    by (simp add: history_store_ok_def)
  with read show ?case
    by (auto simp: history_read_page_def Let_def split: sum.splits option.splits intro!: history_evict_put_ok)
next
  case (head s now app_id channel)
  then have "\<And>k ch. bt_get (hs_channels s) k = Some ch \<Longrightarrow> history_channel_ok ch"
    by (simp add: history_store_ok_def)
  with head show ?case
    by (auto simp: history_channel_head_def Let_def split: option.splits intro!: history_evict_put_ok)
next
  case (runtime s now fresh app_id channel)
  then show ?case
    by (auto simp: history_stream_runtime_state_op_def Let_def intro!: history_evict_put_ok)
next
  case (inspect s now fresh app_id channel)
  then show ?case
    by (auto simp: history_stream_inspection_op_def Let_def intro!: history_evict_put_ok)
next
  case (reset s fresh fresh' app_id channel)
  then show ?case
    by (auto simp: history_reset_stream_def Let_def history_channel_ok_def history_accounted_def
        intro!: history_put_ok)
next
  case (purge s fresh app_id channel pq)
  then show ?case
    by (auto simp: history_purge_stream_def Let_def split: sum.splits
        intro!: history_put_ok history_purged_ok)
qed


inductive_cases history_reachableE: "history_reachable config s"

lemma history_reachable_store_ok: "history_reachable config s \<Longrightarrow> history_store_ok s"
  by (induction rule: history_reachable.induct)
    (auto simp: history_store_new_def history_store_ok_def [of "\<lparr>hs_channels = [], hs_config = _\<rparr>"]
      intro: history_step_ok)

section \<open>Following the cursors\<close>

text \<open>
  The store as a \<open>cursor_reader\<close>: a query is a clock reading and a request whose cursor field is
  replaced by the cursor at hand.
\<close>

definition history_read_cursor ::
    "i64 \<times> history_read_request \<Rightarrow> memory_history_store \<Rightarrow> history_cursor option \<Rightarrow>
     memory_history_store \<times> (error + history_item list \<times> history_cursor option)" where
  "history_read_cursor nq s c =
     (case history_read_page (fst nq) ((snd nq)\<lparr>hrr_cursor := c\<rparr>) s of
        (s', Inl e) \<Rightarrow> (s', Inl e)
      | (s', Inr p) \<Rightarrow> (s', Inr (hp_items p, hp_next_cursor p)))"

definition history_request_key :: "history_read_request \<Rightarrow> string" where
  "history_request_key q = history_channel_key (hrr_app_id q) (hrr_channel q)"

definition history_ready :: "i64 \<times> history_read_request \<Rightarrow> memory_history_store \<Rightarrow> bool" where
  "history_ready nq s \<longleftrightarrow>
     history_read_validate ((snd nq)\<lparr>hrr_cursor := None\<rparr>) = Inr () \<and> hrr_limit (snd nq) \<noteq> - 1 \<and>
     (\<forall>ch. bt_get (hs_channels s) (history_request_key (snd nq)) = Some ch \<longrightarrow>
        history_channel_ok ch \<and> history_times_sorted ch)"

definition history_order :: "history_direction \<Rightarrow> 'a list \<Rightarrow> 'a list" where
  "history_order d rs = (case d of NewestFirst \<Rightarrow> rev rs | OldestFirst \<Rightarrow> rs)"

definition history_rest ::
    "i64 \<times> history_read_request \<Rightarrow> memory_history_store \<Rightarrow> history_cursor option \<Rightarrow> history_item list" where
  "history_rest nq s c =
     (case bt_get (hs_channels s) (history_request_key (snd nq)) of
        None \<Rightarrow> []
      | Some ch \<Rightarrow>
          map history_item_of (filter (history_matcher ((snd nq)\<lparr>hrr_cursor := c\<rparr>))
            (history_order (hrr_direction (snd nq)) (hch_records (history_evict (fst nq) (hs_config s) ch)))))"

definition history_live ::
    "i64 \<times> history_read_request \<Rightarrow> memory_history_store \<Rightarrow> history_cursor option \<Rightarrow> bool" where
  "history_live nq s c \<longleftrightarrow>
     (case c of None \<Rightarrow> True
      | Some cur \<Rightarrow> history_read_validate ((snd nq)\<lparr>hrr_cursor := c\<rparr>) = Inr () \<and>
          (case bt_get (hs_channels s) (history_request_key (snd nq)) of
             None \<Rightarrow> False
           | Some ch \<Rightarrow>
               history_cursor_check ((snd nq)\<lparr>hrr_cursor := c\<rparr>)
                 (history_evict (fst nq) (hs_config s) ch) = Inr ()))"

definition history_page_size :: "i64 \<times> history_read_request \<Rightarrow> nat" where
  "history_page_size nq = unat (hrr_limit (snd nq))"

lemma history_read_cursor_page:
  assumes "history_ready nq s" and "history_live nq s c"
    and "bt_get (hs_channels s) (history_request_key (snd nq)) = Some ch"
  shows "history_read_cursor nq s c =
    (let ch' = history_evict (fst nq) (hs_config s) ch; p = history_page_of ((snd nq)\<lparr>hrr_cursor := c\<rparr>) ch'
     in (history_put (history_request_key (snd nq)) ch' s, Inr (hp_items p, hp_next_cursor p)))"
  using assms
  by (cases c) (auto simp: history_read_cursor_def history_read_page_def history_ready_def history_live_def
      history_request_key_def history_cursor_check_def Let_def split: sum.splits if_splits)

lemma history_page_items:
  assumes "hrr_limit q \<noteq> - 1"
  shows "hp_items (history_page_of q ch) =
    take (unat (hrr_limit q)) (map history_item_of (filter (history_matcher q)
      (history_order (hrr_direction q) (hch_records ch))))"
  using unat_limit_plus_1 [OF assms]
  by (simp add: history_page_of_def Let_def history_order_def take_map min_absorb1 cong: history_direction.case_cong)

lemma history_page_cursor:
  assumes "hrr_limit q \<noteq> - 1" and "hrr_limit q \<noteq> 0"
    and "rs = filter (history_matcher q) (history_order (hrr_direction q) (hch_records ch))"
  shows "hp_next_cursor (history_page_of q ch) =
    (if length rs \<le> unat (hrr_limit q) then None
     else Some \<lparr>hcur_version = 1, hcur_app_id = hrr_app_id q, hcur_channel = hrr_channel q,
                hcur_stream_id = har_stream_id (rs ! (unat (hrr_limit q) - 1)),
                hcur_serial = har_serial (rs ! (unat (hrr_limit q) - 1)),
                hcur_direction = hrr_direction q, hcur_bounds = hrr_bounds q\<rparr>)"
proof -
  let ?n = "unat (hrr_limit q)"
  have n: "0 < ?n" using assms(2) by (simp add: unat_gt_0)
  have last: "back_of (map history_item_of (take ?n rs)) = Some (history_item_of (rs ! (?n - 1)))"
    if "?n < length rs"
    using that n by (intro back_of_map_take) simp_all
  show ?thesis
    using unat_limit_plus_1 [OF assms(1)] last
    unfolding history_page_of_def Let_def assms(3) history_order_def
    by (auto simp: min_def history_item_of_def)
qed


text \<open>The order of a direction, as a relation on serials.\<close>

definition history_lt :: "history_direction \<Rightarrow> u64 \<Rightarrow> u64 \<Rightarrow> bool" where
  "history_lt d a b \<longleftrightarrow> (case d of NewestFirst \<Rightarrow> b < a | OldestFirst \<Rightarrow> a < b)"

lemma history_lt_order [simp]: "transp (history_lt d)" "asymp (history_lt d)"
  by (cases d; auto simp: history_lt_def transp_def asymp_on_def)+

lemma history_order_sorted:
  "sorted_wrt (<) (map har_serial rs) \<Longrightarrow>
   sorted_wrt (\<lambda>x y. history_lt d (har_serial x) (har_serial y)) (history_order d rs)"
  by (cases d) (simp_all add: history_lt_def history_order_def sorted_wrt_map sorted_wrt_rev)

lemma history_order_set [simp]: "set (history_order d rs) = set rs"
  by (cases d) (simp_all add: history_order_def)

lemma history_matcher_cursor:
  "history_matcher (q\<lparr>hrr_cursor := c\<rparr>) r \<longleftrightarrow>
     in_bounds (hrr_bounds q) (har_serial r) (har_published_at_ms r) \<and>
     (case c of None \<Rightarrow> True
      | Some cur \<Rightarrow> har_stream_id r = hcur_stream_id cur \<and> history_lt (hrr_direction q) (hcur_serial cur) (har_serial r))"
  by (auto simp: history_matcher_def history_lt_def split: option.splits history_direction.splits)

text \<open>The records beyond the last one of a full page.\<close>

lemma history_next_rest:
  assumes ok: "history_channel_ok ch"
    and stream: "\<And>cur. c = Some cur \<Longrightarrow> hcur_stream_id cur = hch_stream_id ch"
    and rs: "rs = filter (history_matcher (q\<lparr>hrr_cursor := c\<rparr>)) (history_order (hrr_direction q) (hch_records ch))"
    and n: "0 < n" "n < length rs"
    and c': "hcur_stream_id c' = hch_stream_id ch" "hcur_serial c' = har_serial (rs ! (n - 1))"
  shows "filter (history_matcher (q\<lparr>hrr_cursor := Some c'\<rparr>)) (history_order (hrr_direction q) (hch_records ch)) = drop n rs"
proof -
  let ?xs = "history_order (hrr_direction q) (hch_records ch)"
  let ?B = "\<lambda>r. in_bounds (hrr_bounds q) (har_serial r) (har_published_at_ms r)"
  let ?lt = "history_lt (hrr_direction q)"
  let ?P = "\<lambda>r. ?B r \<and> (case map_option hcur_serial c of None \<Rightarrow> True | Some k \<Rightarrow> ?lt k (har_serial r))"
  have same: "r \<in> set ?xs \<Longrightarrow> har_stream_id r = hch_stream_id ch" for r
    using ok by (simp add: history_channel_ok_def)
  have rs': "rs = filter ?P ?xs"
    unfolding rs using same stream
    by (intro filter_cong refl) (auto simp: history_matcher_cursor split: option.splits)
  have "filter (history_matcher (q\<lparr>hrr_cursor := Some c'\<rparr>)) ?xs =
      filter (\<lambda>r. ?B r \<and> ?lt (har_serial (filter ?P ?xs ! (n - 1))) (har_serial r)) ?xs"
    using same c' by (intro filter_cong refl) (auto simp: history_matcher_cursor rs')
  also have "\<dots> = drop n (filter ?P ?xs)"
    using n rs' ok
    by (intro next_window [where c = "map_option hcur_serial c"])
      (auto simp: history_order_sorted history_channel_ok_def)
  finally show ?thesis by (simp add: rs')
qed

lemma history_cursor_still_live:
  assumes ok: "history_channel_ok ch"
    and v: "history_read_validate (q\<lparr>hrr_cursor := None\<rparr>) = Inr ()"
    and r: "r \<in> set (hch_records ch)"
    and c': "c' = \<lparr>hcur_version = 1, hcur_app_id = hrr_app_id q, hcur_channel = hrr_channel q,
                  hcur_stream_id = har_stream_id r, hcur_serial = har_serial r,
                  hcur_direction = hrr_direction q, hcur_bounds = hrr_bounds q\<rparr>"
  shows "history_read_validate (q\<lparr>hrr_cursor := Some c'\<rparr>) = Inr ()"
    and "history_cursor_check (q\<lparr>hrr_cursor := Some c'\<rparr>) ch = Inr ()"
proof -
  show "history_read_validate (q\<lparr>hrr_cursor := Some c'\<rparr>) = Inr ()"
    using v by (auto simp: history_read_validate_def c' split: if_splits)
  have "\<not> har_serial r < har_serial (hd (hch_records ch))"
    using ok r by (cases "hch_records ch") (auto simp: history_channel_ok_def)
  then show "history_cursor_check (q\<lparr>hrr_cursor := Some c'\<rparr>) ch = Inr ()"
    using ok r by (cases "hch_records ch")
      (auto simp: history_cursor_check_def history_channel_ok_def history_retained_from_channel_def opt_gt_def c')
qed

lemma history_inner_page:
  assumes rdy: "history_ready nq s" and live: "history_live nq s c"
    and long: "history_page_size nq < length (history_rest nq s c)"
  shows "\<exists>s' c'. history_read_cursor nq s c =
      (s', Inr (take (history_page_size nq) (history_rest nq s c), Some c')) \<and>
    history_ready nq s' \<and> history_live nq s' (Some c') \<and>
    history_rest nq s' (Some c') = drop (history_page_size nq) (history_rest nq s c)"
proof -
  obtain now q where nq: "nq = (now, q)" by fastforce
  let ?key = "history_request_key q" and ?n = "unat (hrr_limit q)"
  obtain ch where ch: "bt_get (hs_channels s) ?key = Some ch"
    using long nq by (auto simp: history_rest_def split: option.splits)
  let ?ch = "history_evict now (hs_config s) ch"
  let ?rs = "filter (history_matcher (q\<lparr>hrr_cursor := c\<rparr>)) (history_order (hrr_direction q) (hch_records ?ch))"
  have ok: "history_channel_ok ch" "history_times_sorted ch" "history_accounted ch"
    and lim: "hrr_limit q \<noteq> - 1" "hrr_limit q \<noteq> 0"
    and v: "history_read_validate (q\<lparr>hrr_cursor := None\<rparr>) = Inr ()"
    using rdy ch nq
    by (auto simp: history_ready_def history_channel_ok_def history_read_validate_def split: if_splits)
  have ok': "history_channel_ok ?ch" "history_times_sorted ?ch"
    using ok by (simp_all add: history_evict_ok history_evict_times_sorted)
  have n: "0 < ?n" "?n < length ?rs"
    using long lim nq ch by (simp_all add: unat_gt_0 history_rest_def history_page_size_def)
  let ?r = "?rs ! (?n - 1)"
  have r: "?r \<in> set (hch_records ?ch)"
    using nth_mem [of "?n - 1" ?rs] n by simp
  define c' where "c' = \<lparr>hcur_version = 1, hcur_app_id = hrr_app_id q, hcur_channel = hrr_channel q,
      hcur_stream_id = har_stream_id ?r, hcur_serial = har_serial ?r,
      hcur_direction = hrr_direction q, hcur_bounds = hrr_bounds q\<rparr>"
  let ?s = "history_put ?key ?ch s"
  have idem: "history_evict now (hs_config s) ?ch = ?ch"
    using ok by (intro history_evict_idem)
  have rd: "history_read_cursor nq s c = (?s, Inr (take ?n (history_rest nq s c), Some c'))"
    using history_read_cursor_page [OF rdy live] ch nq n lim
      history_page_items [of "q\<lparr>hrr_cursor := c\<rparr>" ?ch]
      history_page_cursor [of "q\<lparr>hrr_cursor := c\<rparr>" ?rs ?ch]
    by (simp add: history_rest_def c'_def Let_def)
  have "hcur_stream_id cur = hch_stream_id ?ch" if "c = Some cur" for cur
    using live that nq ch by (auto simp: history_live_def history_cursor_check_def split: if_splits)
  with ok' n r have rest: "history_rest nq ?s (Some c') = drop ?n (history_rest nq s c)"
    using history_next_rest [OF ok'(1) _ refl n, of c']
    by (simp add: nq ch history_rest_def idem drop_map c'_def history_channel_ok_def)
  have "history_ready nq ?s" "history_live nq ?s (Some c')"
    using rdy ok' nq idem history_cursor_still_live [OF ok'(1) v r c'_def]
    by (simp_all add: history_ready_def history_live_def)
  with rd rest show ?thesis by (auto simp: nq history_page_size_def)
qed

lemma history_last_page:
  assumes rdy: "history_ready nq s" and live: "history_live nq s c"
    and short: "length (history_rest nq s c) \<le> history_page_size nq"
  shows "\<exists>s'. history_read_cursor nq s c = (s', Inr (history_rest nq s c, None))"
proof (cases "bt_get (hs_channels s) (history_request_key (snd nq))")
  case None
  with rdy live show ?thesis
    by (cases c) (auto simp: history_read_cursor_def history_read_page_def history_ready_def history_rest_def
        history_live_def history_request_key_def Let_def)
next
  case (Some ch)
  let ?q = "(snd nq)\<lparr>hrr_cursor := c\<rparr>" and ?ch = "history_evict (fst nq) (hs_config s) ch"
  have "hrr_limit ?q \<noteq> - 1" "hrr_limit ?q \<noteq> 0"
    using rdy by (auto simp: history_ready_def history_read_validate_def split: if_splits)
  with short Some have "hp_items (history_page_of ?q ?ch) = history_rest nq s c"
    "hp_next_cursor (history_page_of ?q ?ch) = None"
    by (simp_all add: history_page_items history_page_cursor history_rest_def history_page_size_def)
  then show ?thesis
    using history_read_cursor_page [OF rdy live Some] by (simp add: Let_def)
qed

interpretation hpg: cursor_reader history_read_cursor history_ready history_live history_rest history_page_size
proof (unfold_locales, goal_cases)
  case (1 q s)
  then show ?case
    by (auto simp: history_ready_def history_page_size_def history_read_validate_def unat_gt_0 split: if_splits)
qed (use history_last_page history_inner_page in blast)+

section \<open>Properties\<close>

definition history_demo_policy :: history_retention_policy where
  "history_demo_policy =
     \<lparr>hrp_retention_window_seconds = 60, hrp_max_messages_per_channel = Some 2,
      hrp_max_bytes_per_channel = Some 100\<rparr>"

definition history_demo_record :: "u64 \<Rightarrow> i64 \<Rightarrow> history_append_record" where
  "history_demo_record serial time =
     \<lparr>har_app_id = ''app'', har_channel = ''room'', har_stream_id = ''s'', har_serial = serial,
      har_published_at_ms = time, har_message_id = None, har_event_name = None,
      har_operation_kind = ''create'', har_payload_bytes = [1, 2], har_retention = history_demo_policy\<rparr>"

definition history_demo_channel :: memory_history_channel where
  "history_demo_channel =
     \<lparr>hch_stream_id = ''s'', hch_next_serial = 4, hch_retained_bytes = 6,
      hch_records = [history_demo_record 1 1000, history_demo_record 2 2000, history_demo_record 3 3000],
      hch_retention = Some history_demo_policy\<rparr>"

definition history_demo_config :: memory_history_store_config where
  "history_demo_config =
     \<lparr>hcfg_retention_window = 3600, hcfg_max_messages_per_channel = None, hcfg_max_bytes_per_channel = None\<rparr>"

definition history_demo_store :: memory_history_store where
  "history_demo_store =
     \<lparr>hs_channels = [(history_channel_key ''app'' ''room'', history_demo_channel)],
      hs_config = history_demo_config\<rparr>"

definition history_demo_request :: history_read_request where
  "history_demo_request =
     \<lparr>hrr_app_id = ''app'', hrr_channel = ''room'', hrr_direction = OldestFirst, hrr_limit = 1,
      hrr_cursor = None,
      hrr_bounds = \<lparr>hb_start_serial = None, hb_end_serial = None, hb_start_time_ms = None, hb_end_time_ms = None\<rparr>\<rparr>"

lemmas history_demo_defs =
  history_demo_policy_def history_demo_record_def history_demo_channel_def history_demo_config_def
  history_demo_store_def history_demo_request_def

lemma history_demo_channel_ok: "history_channel_ok history_demo_channel" "history_times_sorted history_demo_channel"
  by (simp_all add: history_channel_ok_def history_accounted_def history_times_sorted_def history_demo_defs)



text \<open>C10: In every store reached by sequential publishing (reserve, then append) and any of the
  other operations, every channel counts exactly the bytes of its retained records, the records
  are in strictly increasing serial order, carry the channel's stream id, and lie below the next
  serial, so no two records of a channel share a position.\<close>

theorem history_reachable_channel_ok:
  assumes "history_reachable config s" and "bt_get (hs_channels s) k = Some ch"
  shows "unat (hch_retained_bytes ch) = total_len har_payload_bytes (hch_records ch) \<and>
    sorted_wrt (<) (map har_serial (hch_records ch)) \<and>
    (\<forall>r \<in> set (hch_records ch). har_serial r < hch_next_serial ch \<and> har_stream_id r = hch_stream_id ch)"
  using history_reachable_store_ok [OF assms(1)] assms(2)
  by (auto simp: history_store_ok_def history_channel_ok_def history_accounted_def)

theorem history_reachable_channel_ok_witness:
  "\<exists>s ch. history_reachable history_demo_config s \<and> bt_get (hs_channels s) (history_channel_key ''app'' ''room'') = Some ch \<and>
     unat (hch_retained_bytes ch) = total_len har_payload_bytes (hch_records ch)"
proof -
  let ?s0 = "history_store_new history_demo_config"
  let ?s1 = "fst (history_reserve_publish_position ''s'' ''app'' ''room'' ?s0)"
  let ?s2 = "fst (history_append 1000 ''s'' (history_demo_record 1 1000) ?s1)"
  have "history_reserve_publish_position ''s'' ''app'' ''room'' ?s0 =
      (?s1, Inr \<lparr>hwr_stream_id = ''s'', hwr_serial = 1\<rparr>)"
    by (simp add: history_reserve_publish_position_def history_entry_def history_store_new_def
        history_channel_default_def Let_def)
  then have "history_step ?s0 ?s2"
    by (rule history_step.publish)
      (simp_all add: history_demo_defs history_entry_def history_store_new_def history_channel_default_def)
  then have reach: "history_reachable history_demo_config ?s2"
    by (rule history_reachable.step [OF history_reachable.init])
  obtain ch where "bt_get (hs_channels ?s2) (history_channel_key ''app'' ''room'') = Some ch"
    by (auto simp: history_append_def Let_def history_demo_record_def)
  with history_reachable_channel_ok [OF reach this] reach show ?thesis by blast
qed




text \<open>C18: A valid purge keeps exactly the records that the mode and bound spare, recomputes the byte
  counter to what they hold, reports exactly the number of records and bytes removed, and leaves
  every other channel alone.\<close>

theorem history_purge_exact:
  assumes "history_purge_validate pq = Inr ()" and "history_channel_ok ch"
    and "bt_get (hs_channels s) (history_channel_key app_id channel) = Some ch"
    and "length (hch_records ch) < 2 ^ 64"
    and "history_purge_stream fresh app_id channel pq s = (s', Inr res)"
  shows "(\<exists>ch'. bt_get (hs_channels s') (history_channel_key app_id channel) = Some ch' \<and>
      hch_records ch' = filter (history_purge_keep pq) (hch_records ch) \<and> history_channel_ok ch' \<and>
      hch_stream_id ch' = hch_stream_id ch \<and> hch_next_serial ch' = hch_next_serial ch) \<and>
    unat (hpt_purged_messages res) = length (filter (\<lambda>r. \<not> history_purge_keep pq r) (hch_records ch)) \<and>
    unat (hpt_purged_bytes res) =
      total_len har_payload_bytes (filter (\<lambda>r. \<not> history_purge_keep pq r) (hch_records ch)) \<and>
    (\<forall>k. k \<noteq> history_channel_key app_id channel \<longrightarrow> bt_get (hs_channels s') k = bt_get (hs_channels s) k)"
proof -
  let ?rs = "hch_records ch" and ?keep = "history_purge_keep pq"
  let ?b = "sum_list (map (\<lambda>r. len64 (har_payload_bytes r)) (filter ?keep ?rs))"
  let ?ch = "ch\<lparr>hch_records := filter ?keep ?rs, hch_retained_bytes := ?b\<rparr>"
  have s': "s' = history_put (history_channel_key app_id channel) ?ch s"
    and res: "hpt_purged_messages res = of_nat (length ?rs - length (filter ?keep ?rs))"
      "hpt_purged_bytes res = sat_sub (hch_retained_bytes ch) ?b"
    using assms by (auto simp: history_purge_stream_def Let_def history_entry_def)
  have acc: "history_accounted ch" using assms(2) by (simp add: history_channel_ok_def)
  have split: "total_len har_payload_bytes (filter P rs) + total_len har_payload_bytes (filter (\<lambda>r. \<not> P r) rs)
      = total_len har_payload_bytes rs" for P rs by (induction rs) auto
  have "unat (hpt_purged_bytes res) = total_len har_payload_bytes (filter (\<lambda>r. \<not> ?keep r) ?rs)"
    using res(2) history_accounted_filter [OF acc, of ?keep] acc split [of ?keep ?rs]
    by (simp add: unat_sat_sub history_accounted_def)
  moreover have "unat (hpt_purged_messages res) = length (filter (\<lambda>r. \<not> ?keep r) ?rs)"
    using assms(4) res(1) sum_length_filter_compl [of ?keep ?rs]
    by (simp add: unat_of_nat del: of_nat_diff)
  ultimately show ?thesis
    using history_purged_ok [OF assms(2), of ?keep] by (simp add: s')
qed

definition history_demo_purge :: history_purge_request where
  "history_demo_purge =
     \<lparr>hpr_mode = PurgeBeforeSerial, hpr_before_serial = Some 3, hpr_before_time_ms = None,
      hpr_reason = ''gdpr'', hpr_requested_by = None\<rparr>"

theorem history_purge_exact_witness:
  "history_purge_validate history_demo_purge = Inr () \<and>
   unat (hpt_purged_messages (projr (snd (history_purge_stream ''f'' ''app'' ''room'' history_demo_purge history_demo_store)))) = 2"
proof -
  let ?r = "history_purge_stream ''f'' ''app'' ''room'' history_demo_purge history_demo_store"
  have v: "history_purge_validate history_demo_purge = Inr ()"
    by (simp add: history_purge_validate_def history_demo_purge_def trim_is_empty.simps ws_len_def byte_at_def)
  have get: "bt_get (hs_channels history_demo_store) (history_channel_key ''app'' ''room'') = Some history_demo_channel"
    by (simp add: history_demo_store_def)
  have r: "?r = (fst ?r, Inr (projr (snd ?r)))"
    using v by (simp add: history_purge_stream_def Let_def)
  have "length (hch_records history_demo_channel) < 2 ^ 64"
    by (simp add: history_demo_channel_def)
  from history_purge_exact [OF v history_demo_channel_ok(1) get this r]
  have "unat (hpt_purged_messages (projr (snd ?r))) =
      length (filter (\<lambda>r. \<not> history_purge_keep history_demo_purge r) (hch_records history_demo_channel))"
    by (elim conjE)
  also have "\<dots> = 2"
    by (simp add: history_demo_channel_def history_purge_keep_def history_demo_purge_def history_demo_record_def
        u64_le_iff)
  finally show ?thesis using v by blast
qed

text \<open>After a reset has given a channel a new stream id, a page request with a cursor of an
  earlier stream is refused with the "stream changed" error, whatever the retained records are.\<close>

theorem history_reset_expires_cursors:
  assumes "hrr_cursor q = Some c" and "history_read_validate q = Inr ()"
    and "hcur_stream_id c \<noteq> fresh'"
  shows "snd (history_read_page now q
      (fst (history_reset_stream fresh fresh' (hrr_app_id q) (hrr_channel q) s))) =
    Inl (InvalidMessageFormat ''Expired history cursor: channel stream changed'')"
proof -
  let ?ch = "history_entry fresh (history_channel_key (hrr_app_id q) (hrr_channel q)) s"
  let ?ch' = "?ch\<lparr>hch_records := [], hch_retained_bytes := 0, hch_next_serial := 1, hch_stream_id := fresh'\<rparr>"
  have "history_accounted ?ch'" by (simp add: history_accounted_def)
  from history_evict_facts(1) [OF this, of now "hs_config s"] show ?thesis
    using assms
    by (simp add: history_read_page_def history_reset_stream_def Let_def history_cursor_check_def)
qed

theorem history_reset_expires_cursors_witness:
  "snd (history_read_page 5000
      (history_demo_request\<lparr>hrr_cursor := Some \<lparr>hcur_version = 1, hcur_app_id = ''app'', hcur_channel = ''room'',
        hcur_stream_id = ''s'', hcur_serial = 2, hcur_direction = OldestFirst, hcur_bounds = hrr_bounds history_demo_request\<rparr>\<rparr>)
      (fst (history_reset_stream ''f'' ''t'' ''app'' ''room'' history_demo_store))) =
    Inl (InvalidMessageFormat ''Expired history cursor: channel stream changed'')"
  using history_reset_expires_cursors [of "history_demo_request\<lparr>hrr_cursor := Some \<lparr>hcur_version = 1,
      hcur_app_id = ''app'', hcur_channel = ''room'', hcur_stream_id = ''s'', hcur_serial = 2,
      hcur_direction = OldestFirst, hcur_bounds = hrr_bounds history_demo_request\<rparr>\<rparr>" _ "''t''" 5000 "''f''" history_demo_store]
  by (simp add: history_read_validate_def history_demo_request_def opt_gt_def)


text \<open>The retention window is multiplied by 1000 as an unsigned 64-bit number and reinterpreted
  as a signed one, so the largest window value, which asks to keep everything, evicts every record
  published up to the present.\<close>

theorem history_max_window_evicts_all:
  assumes "\<forall>r \<in> set (hch_records ch). har_published_at_ms r \<le> now"
    and "0 \<le> now" and "now < 2 ^ 62"
    and "hrp_retention_window_seconds retention = - 1"
  shows "hch_records (history_evict_channel now retention ch) = []"
proof -
  have "history_cutoff_ms now retention = now + 1000"
    using assms(2-4) by (simp add: history_cutoff_ms_def i64_sat_sub_def)
  then have "snd (retention_loops har_published_at_ms (\<lambda>b. b) (account_pop har_payload_bytes)
      (history_cutoff_ms now retention) (hrp_max_messages_per_channel retention)
      (hrp_max_bytes_per_channel retention) (hch_retained_bytes ch) (hch_records ch)) = []"
    using assms(1) by (intro retention_loops_expired) force
  then show ?thesis by (auto simp: history_evict_channel_def split: prod.splits)
qed

theorem history_max_window_evicts_all_witness:
  "hch_records (history_evict_channel 5000 (history_demo_policy\<lparr>hrp_retention_window_seconds := - 1\<rparr>)
     history_demo_channel) = []"
  by (rule history_max_window_evicts_all) (simp_all add: history_demo_defs)

end
