(* ===== verification/Presence_History.thy ===== *)
theory Presence_History
  imports History
begin

text \<open>
  The presence history of \<^verbatim>\<open>sockudo-core/src/presence_history\<close>: joins, updates and leaves of the
  members of a presence channel. The in-memory store drops duplicate reports (by dedupe key and
  by the latest retained event of the user), retains like the message history, and is read page
  by page; a snapshot replays the pages into the set of members. JSON values are a type
  parameter, and the JSON encoder of a record's payload is the parameter \<open>to_vec\<close>. Metrics
  calls are left out: they have no effect on the store.
\<close>

section \<open>Types\<close>

datatype presence_direction = PNewestFirst | POldestFirst

record presence_query_bounds =
  pb_start_serial :: "u64 option"
  pb_end_serial :: "u64 option"
  pb_start_time_ms :: "i64 option"
  pb_end_time_ms :: "i64 option"

record presence_cursor =
  pcur_version :: u8
  pcur_app_id :: string
  pcur_channel :: string
  pcur_stream_id :: string
  pcur_serial :: u64
  pcur_direction :: presence_direction
  pcur_bounds :: presence_query_bounds

datatype presence_event_kind = MemberAdded | MemberUpdated | MemberRemoved

datatype presence_event_cause = Join | Disconnect | OrphanCleanup | CauseTimeout | ForcedDisconnect

record presence_retention_policy =
  prp_retention_window_seconds :: u64
  prp_max_events_per_channel :: "usize option"
  prp_max_bytes_per_channel :: "u64 option"

record 'v presence_transition_record =
  ptr_app_id :: string
  ptr_channel :: string
  ptr_event_kind :: presence_event_kind
  ptr_cause :: presence_event_cause
  ptr_user_id :: string
  ptr_connection_id :: "string option"
  ptr_user_info :: "'v option"
  ptr_dead_node_id :: "string option"
  ptr_dedupe_key :: string
  ptr_published_at_ms :: i64
  ptr_retention :: presence_retention_policy

record 'v presence_payload =
  ppl_stream_id :: string
  ppl_serial :: u64
  ppl_published_at_ms :: i64
  ppl_event :: presence_event_kind
  ppl_cause :: presence_event_cause
  ppl_user_id :: string
  ppl_connection_id :: "string option"
  ppl_user_info :: "'v option"
  ppl_dead_node_id :: "string option"

record presence_item =
  pit_stream_id :: string
  pit_serial :: u64
  pit_published_at_ms :: i64
  pit_event :: presence_event_kind
  pit_cause :: presence_event_cause
  pit_user_id :: string
  pit_connection_id :: "string option"
  pit_dead_node_id :: "string option"
  pit_payload_size_bytes :: nat
  pit_payload_bytes :: bytes

record presence_read_request =
  prr_app_id :: string
  prr_channel :: string
  prr_direction :: presence_direction
  prr_limit :: usize
  prr_cursor :: "presence_cursor option"
  prr_bounds :: presence_query_bounds

record presence_retention_stats =
  pst_stream_id :: "string option"
  pst_retained_events :: u64
  pst_retained_bytes :: u64
  pst_oldest_serial :: "u64 option"
  pst_newest_serial :: "u64 option"
  pst_oldest_published_at_ms :: "i64 option"
  pst_newest_published_at_ms :: "i64 option"

record presence_page =
  pp_items :: "presence_item list"
  pp_next_cursor :: "presence_cursor option"
  pp_retained :: presence_retention_stats
  pp_has_more :: bool
  pp_complete :: bool
  pp_truncated_by_retention :: bool
  pp_degraded :: bool

record presence_snapshot_request =
  psr_app_id :: string
  psr_channel :: string
  psr_at_time_ms :: "i64 option"
  psr_at_serial :: "u64 option"

record presence_snapshot_member =
  psm_user_id :: string
  psm_last_event :: presence_event_kind
  psm_last_event_serial :: u64
  psm_last_event_at_ms :: i64

record presence_snapshot =
  psn_channel :: string
  psn_members :: "presence_snapshot_member list"
  psn_events_replayed :: u64
  psn_snapshot_serial :: "u64 option"
  psn_snapshot_time_ms :: "i64 option"
  psn_retained :: presence_retention_stats
  psn_complete :: bool
  psn_truncated_by_retention :: bool

datatype presence_durable_state = PHealthy | PDegraded | PResetRequired

record presence_stream_runtime_state =
  prs_app_id :: string
  prs_channel :: string
  prs_stream_id :: "string option"
  prs_durable_state :: presence_durable_state
  prs_continuity_proven :: bool
  prs_reset_required :: bool
  prs_reason :: "string option"
  prs_node_id :: "string option"
  prs_last_transition_at_ms :: "i64 option"
  prs_authoritative_source :: string
  prs_observed_source :: string

definition presence_healthy :: "string \<Rightarrow> string \<Rightarrow> string option \<Rightarrow> string \<Rightarrow> presence_stream_runtime_state" where
  "presence_healthy app_id channel stream_id source =
     \<lparr>prs_app_id = app_id, prs_channel = channel, prs_stream_id = stream_id,
      prs_durable_state = PHealthy, prs_continuity_proven = True, prs_reset_required = False,
      prs_reason = None, prs_node_id = None, prs_last_transition_at_ms = None,
      prs_authoritative_source = source, prs_observed_source = source\<rparr>"

record presence_stream_inspection =
  psi_app_id :: string
  psi_channel :: string
  psi_stream_id :: "string option"
  psi_next_serial :: "u64 option"
  psi_retained :: presence_retention_stats
  psi_state :: presence_stream_runtime_state

record presence_reset_result =
  prt_app_id :: string
  prt_channel :: string
  prt_previous_stream_id :: "string option"
  prt_new_stream_id :: string
  prt_purged_events :: u64
  prt_purged_bytes :: u64
  prt_inspection :: presence_stream_inspection

definition presence_read_validate :: "presence_read_request \<Rightarrow> unit result" where
  "presence_read_validate r =
     (if prr_limit r = 0 then Inl (InvalidMessageFormat ''Presence history limit must be greater than 0'')
      else if opt_gt (pb_start_serial (prr_bounds r)) (pb_end_serial (prr_bounds r))
      then Inl (InvalidMessageFormat ''start_serial must be less than or equal to end_serial'')
      else if opt_gt (pb_start_time_ms (prr_bounds r)) (pb_end_time_ms (prr_bounds r))
      then Inl (InvalidMessageFormat ''start_time_ms must be less than or equal to end_time_ms'')
      else case prr_cursor r of
        None \<Rightarrow> Inr ()
      | Some cursor \<Rightarrow>
          if pcur_app_id cursor \<noteq> prr_app_id r
          then Inl (InvalidMessageFormat ''Presence history cursor app does not match the request'')
          else if pcur_channel cursor \<noteq> prr_channel r
          then Inl (InvalidMessageFormat ''Presence history cursor channel does not match the request'')
          else if pcur_direction cursor \<noteq> prr_direction r
          then Inl (InvalidMessageFormat ''Presence history cursor direction does not match the request'')
          else if pcur_bounds cursor \<noteq> prr_bounds r
          then Inl (InvalidMessageFormat ''Presence history cursor bounds do not match the request'')
          else Inr ())"

section \<open>The in-memory store\<close>

record memory_presence_config =
  pcfg_retention_window :: u64
  pcfg_max_events_per_channel :: "usize option"
  pcfg_max_bytes_per_channel :: "u64 option"

record presence_append_record =
  par_stream_id :: string
  par_serial :: u64
  par_published_at_ms :: i64
  par_event :: presence_event_kind
  par_cause :: presence_event_cause
  par_user_id :: string
  par_connection_id :: "string option"
  par_dead_node_id :: "string option"
  par_payload_bytes :: bytes
  par_dedupe_key :: string

record memory_presence_channel =
  pch_stream_id :: string
  pch_next_serial :: u64
  pch_retained_bytes :: u64
  pch_records :: "presence_append_record list"
  pch_dedupe_keys :: "string set"
  pch_latest_event_by_user :: "(string, presence_event_kind) btree"
  pch_retention :: "presence_retention_policy option"

record memory_presence_store =
  ps_channels :: "(string, memory_presence_channel) btree"
  ps_config :: memory_presence_config

definition presence_channel_default :: "string \<Rightarrow> memory_presence_channel" where
  "presence_channel_default fresh =
     \<lparr>pch_stream_id = fresh, pch_next_serial = 1, pch_retained_bytes = 0, pch_records = [],
      pch_dedupe_keys = {}, pch_latest_event_by_user = [], pch_retention = None\<rparr>"

definition presence_store_new :: "memory_presence_config \<Rightarrow> memory_presence_store" where
  "presence_store_new config = \<lparr>ps_channels = [], ps_config = config\<rparr>"

definition presence_channel_key :: "string \<Rightarrow> string \<Rightarrow> string" where
  "presence_channel_key app_id channel = app_id @ CHR 0x00 # channel"

definition presence_default_retention :: "memory_presence_config \<Rightarrow> presence_retention_policy" where
  "presence_default_retention config =
     \<lparr>prp_retention_window_seconds = pcfg_retention_window config,
      prp_max_events_per_channel = pcfg_max_events_per_channel config,
      prp_max_bytes_per_channel = pcfg_max_bytes_per_channel config\<rparr>"

definition presence_build_payload ::
    "('v presence_payload \<Rightarrow> string + bytes) \<Rightarrow> string \<Rightarrow> u64 \<Rightarrow> 'v presence_transition_record \<Rightarrow> bytes result" where
  "presence_build_payload to_vec stream_id serial r =
     (let payload = \<lparr>ppl_stream_id = stream_id, ppl_serial = serial,
            ppl_published_at_ms = ptr_published_at_ms r, ppl_event = ptr_event_kind r,
            ppl_cause = ptr_cause r, ppl_user_id = ptr_user_id r,
            ppl_connection_id = ptr_connection_id r, ppl_user_info = ptr_user_info r,
            ppl_dead_node_id = ptr_dead_node_id r\<rparr>
      in case to_vec payload of
           Inl e \<Rightarrow> Inl (Serialization (''Failed to encode presence history payload: '' @ e))
         | Inr bs \<Rightarrow> Inr bs)"

definition presence_rebuild_latest :: "presence_append_record list \<Rightarrow> (string, presence_event_kind) btree" where
  "presence_rebuild_latest rs = fold (\<lambda>r m. bt_insert (par_user_id r) (par_event r) m) rs []"

text \<open>
  What the eviction loops keep: the byte counter, the dedupe keys, and the numbers of evicted
  events and bytes.
\<close>

record presence_account =
  pa_retained_bytes :: u64
  pa_dedupe_keys :: "string set"
  pa_evicted_events :: u64
  pa_evicted_bytes :: u64

definition presence_account_pop :: "presence_append_record \<Rightarrow> presence_account \<Rightarrow> presence_account" where
  "presence_account_pop r a =
     \<lparr>pa_retained_bytes = account_pop par_payload_bytes r (pa_retained_bytes a),
      pa_dedupe_keys = pa_dedupe_keys a - {par_dedupe_key r},
      pa_evicted_events = sat_add (pa_evicted_events a) 1,
      pa_evicted_bytes = sat_add (pa_evicted_bytes a) (len64 (par_payload_bytes r))\<rparr>"

definition presence_cutoff_ms :: "i64 \<Rightarrow> presence_retention_policy \<Rightarrow> i64" where
  "presence_cutoff_ms now retention =
     i64_sat_sub now (sint (prp_retention_window_seconds retention * 1000))"

definition presence_evict_channel ::
    "i64 \<Rightarrow> presence_retention_policy \<Rightarrow> memory_presence_channel \<Rightarrow> memory_presence_channel \<times> u64 \<times> u64" where
  "presence_evict_channel now retention ch =
     (let (a, records) =
            retention_loops par_published_at_ms pa_retained_bytes presence_account_pop
              (presence_cutoff_ms now retention)
              (prp_max_events_per_channel retention) (prp_max_bytes_per_channel retention)
              \<lparr>pa_retained_bytes = pch_retained_bytes ch, pa_dedupe_keys = pch_dedupe_keys ch,
               pa_evicted_events = 0, pa_evicted_bytes = 0\<rparr> (pch_records ch);
          ch1 = ch\<lparr>pch_retained_bytes := pa_retained_bytes a, pch_dedupe_keys := pa_dedupe_keys a,
                   pch_records := records\<rparr>;
          ch2 = (if pa_evicted_events a > 0
                 then ch1\<lparr>pch_latest_event_by_user := presence_rebuild_latest (pch_records ch1)\<rparr>
                 else ch1)
      in (ch2, pa_evicted_events a, pa_evicted_bytes a))"

text \<open>Eviction with the channel's own policy, or the configured one.\<close>

definition presence_policy :: "memory_presence_config \<Rightarrow> memory_presence_channel \<Rightarrow> presence_retention_policy" where
  "presence_policy config ch =
     (case pch_retention ch of None \<Rightarrow> presence_default_retention config | Some r \<Rightarrow> r)"

definition presence_evict :: "i64 \<Rightarrow> memory_presence_config \<Rightarrow> memory_presence_channel \<Rightarrow> memory_presence_channel" where
  "presence_evict now config ch = fst (presence_evict_channel now (presence_policy config ch) ch)"

definition presence_retained_from_channel :: "memory_presence_channel \<Rightarrow> presence_retention_stats" where
  "presence_retained_from_channel ch =
     \<lparr>pst_stream_id = Some (pch_stream_id ch),
      pst_retained_events = len64 (pch_records ch),
      pst_retained_bytes = pch_retained_bytes ch,
      pst_oldest_serial = map_option par_serial (front_of (pch_records ch)),
      pst_newest_serial = map_option par_serial (back_of (pch_records ch)),
      pst_oldest_published_at_ms = map_option par_published_at_ms (front_of (pch_records ch)),
      pst_newest_published_at_ms = map_option par_published_at_ms (back_of (pch_records ch))\<rparr>"

definition presence_stats_default :: presence_retention_stats where
  "presence_stats_default =
     \<lparr>pst_stream_id = None, pst_retained_events = 0, pst_retained_bytes = 0,
      pst_oldest_serial = None, pst_newest_serial = None,
      pst_oldest_published_at_ms = None, pst_newest_published_at_ms = None\<rparr>"

definition presence_entry :: "string \<Rightarrow> string \<Rightarrow> memory_presence_store \<Rightarrow> memory_presence_channel" where
  "presence_entry fresh key s =
     (case bt_get (ps_channels s) key of None \<Rightarrow> presence_channel_default fresh | Some ch \<Rightarrow> ch)"

definition presence_put :: "string \<Rightarrow> memory_presence_channel \<Rightarrow> memory_presence_store \<Rightarrow> memory_presence_store" where
  "presence_put key ch s = s\<lparr>ps_channels := bt_insert key ch (ps_channels s)\<rparr>"

definition presence_record_channel ::
    "i64 \<Rightarrow> ('v presence_payload \<Rightarrow> string + bytes) \<Rightarrow> memory_presence_config \<Rightarrow> 'v presence_transition_record \<Rightarrow>
     memory_presence_channel \<Rightarrow> memory_presence_channel \<times> unit result" where
  "presence_record_channel now to_vec config r ch0 =
     (let ch = presence_evict now config ch0 in
      if ptr_dedupe_key r \<in> pch_dedupe_keys ch then (ch, Inr ())
      else if bt_get (pch_latest_event_by_user ch) (ptr_user_id r) = Some (ptr_event_kind r) then (ch, Inr ())
      else
        (let serial = pch_next_serial ch;
             ch1 = ch\<lparr>pch_next_serial := sat_add (pch_next_serial ch) 1\<rparr>;
             stream_id = pch_stream_id ch1
         in case presence_build_payload to_vec stream_id serial r of
              Inl e \<Rightarrow> (ch1, Inl e)
            | Inr payload_bytes \<Rightarrow>
                (let ch2 = ch1\<lparr>pch_retention := Some (ptr_retention r),
                       pch_retained_bytes := sat_add (pch_retained_bytes ch1) (len64 payload_bytes),
                       pch_dedupe_keys := insert (ptr_dedupe_key r) (pch_dedupe_keys ch1),
                       pch_latest_event_by_user :=
                         bt_insert (ptr_user_id r) (ptr_event_kind r) (pch_latest_event_by_user ch1),
                       pch_records := pch_records ch1 @
                         [\<lparr>par_stream_id = stream_id, par_serial = serial,
                           par_published_at_ms = ptr_published_at_ms r, par_event = ptr_event_kind r,
                           par_cause = ptr_cause r, par_user_id = ptr_user_id r,
                           par_connection_id = ptr_connection_id r, par_dead_node_id = ptr_dead_node_id r,
                           par_payload_bytes = payload_bytes, par_dedupe_key = ptr_dedupe_key r\<rparr>]\<rparr>
                 in (presence_evict now config ch2, Inr ()))))"

definition presence_record_transition ::
    "i64 \<Rightarrow> string \<Rightarrow> ('v presence_payload \<Rightarrow> string + bytes) \<Rightarrow> 'v presence_transition_record \<Rightarrow>
     memory_presence_store \<Rightarrow> memory_presence_store \<times> unit result" where
  "presence_record_transition now fresh to_vec r s =
     (let key = presence_channel_key (ptr_app_id r) (ptr_channel r);
          (ch, res) = presence_record_channel now to_vec (ps_config s) r (presence_entry fresh key s)
      in (presence_put key ch s, res))"

definition presence_is_truncated_by_retention :: "presence_query_bounds \<Rightarrow> presence_retention_stats \<Rightarrow> bool" where
  "presence_is_truncated_by_retention bounds retained \<longleftrightarrow>
     opt_gt (pst_oldest_serial retained) (pb_start_serial bounds) \<or>
     opt_gt (pst_oldest_published_at_ms retained) (pb_start_time_ms bounds) \<or>
     pb_start_serial bounds = None \<and> pb_start_time_ms bounds = None \<and>
       (case pst_oldest_serial retained of None \<Rightarrow> False | Some oldest \<Rightarrow> oldest > 1)"

definition presence_in_bounds :: "presence_query_bounds \<Rightarrow> u64 \<Rightarrow> i64 \<Rightarrow> bool" where
  "presence_in_bounds b serial time \<longleftrightarrow>
     (case pb_start_serial b of None \<Rightarrow> True | Some start \<Rightarrow> serial \<ge> start) \<and>
     (case pb_end_serial b of None \<Rightarrow> True | Some e \<Rightarrow> serial \<le> e) \<and>
     (case pb_start_time_ms b of None \<Rightarrow> True | Some start \<Rightarrow> time \<ge> start) \<and>
     (case pb_end_time_ms b of None \<Rightarrow> True | Some e \<Rightarrow> time \<le> e)"

definition presence_matcher :: "presence_read_request \<Rightarrow> presence_append_record \<Rightarrow> bool" where
  "presence_matcher q r \<longleftrightarrow>
     presence_in_bounds (prr_bounds q) (par_serial r) (par_published_at_ms r) \<and>
     (case prr_cursor q of
        None \<Rightarrow> True
      | Some c \<Rightarrow>
          (case prr_direction q of
             PNewestFirst \<Rightarrow> par_stream_id r = pcur_stream_id c \<and> par_serial r < pcur_serial c
           | POldestFirst \<Rightarrow> par_stream_id r = pcur_stream_id c \<and> par_serial r > pcur_serial c))"

definition presence_item_of :: "presence_append_record \<Rightarrow> presence_item" where
  "presence_item_of r =
     \<lparr>pit_stream_id = par_stream_id r, pit_serial = par_serial r,
      pit_published_at_ms = par_published_at_ms r, pit_event = par_event r, pit_cause = par_cause r,
      pit_user_id = par_user_id r, pit_connection_id = par_connection_id r,
      pit_dead_node_id = par_dead_node_id r,
      pit_payload_size_bytes = length (par_payload_bytes r), pit_payload_bytes = par_payload_bytes r\<rparr>"

definition presence_page_of :: "presence_read_request \<Rightarrow> memory_presence_channel \<Rightarrow> presence_page" where
  "presence_page_of q ch =
     (let retained = presence_retained_from_channel ch;
          ordered = (case prr_direction q of
                       PNewestFirst \<Rightarrow> rev (pch_records ch) | POldestFirst \<Rightarrow> pch_records ch);
          collected = take (unat (sat_add (prr_limit q) 1)) (filter (presence_matcher q) ordered);
          has_more = length collected > unat (prr_limit q);
          items = map presence_item_of (take (unat (prr_limit q)) collected);
          next_cursor =
            (if has_more then
               map_option (\<lambda>i. \<lparr>pcur_version = 1, pcur_app_id = prr_app_id q, pcur_channel = prr_channel q,
                  pcur_stream_id = pit_stream_id i, pcur_serial = pit_serial i,
                  pcur_direction = prr_direction q, pcur_bounds = prr_bounds q\<rparr>) (back_of items)
             else None);
          truncated = presence_is_truncated_by_retention (prr_bounds q) retained
      in \<lparr>pp_items = items, pp_next_cursor = next_cursor, pp_retained = retained,
          pp_has_more = has_more, pp_complete = (\<not> has_more \<and> \<not> truncated),
          pp_truncated_by_retention = truncated, pp_degraded = False\<rparr>)"

definition presence_cursor_check :: "presence_read_request \<Rightarrow> memory_presence_channel \<Rightarrow> unit result" where
  "presence_cursor_check q ch =
     (case prr_cursor q of
        None \<Rightarrow> Inr ()
      | Some c \<Rightarrow>
          if pcur_stream_id c \<noteq> pch_stream_id ch
          then Inl (InvalidMessageFormat ''Expired presence history cursor: channel stream changed'')
          else if opt_gt (pst_oldest_serial (presence_retained_from_channel ch)) (Some (pcur_serial c))
          then Inl (InvalidMessageFormat ''Expired presence history cursor: cursor points before retained history'')
          else Inr ())"

definition presence_read_page ::
    "i64 \<Rightarrow> presence_read_request \<Rightarrow> memory_presence_store \<Rightarrow> memory_presence_store \<times> presence_page result" where
  "presence_read_page now q s =
     (case presence_read_validate q of
        Inl e \<Rightarrow> (s, Inl e)
      | Inr _ \<Rightarrow>
          (let key = presence_channel_key (prr_app_id q) (prr_channel q) in
           case bt_get (ps_channels s) key of
             None \<Rightarrow> (s, Inr \<lparr>pp_items = [], pp_next_cursor = None, pp_retained = presence_stats_default,
                             pp_has_more = False, pp_complete = True, pp_truncated_by_retention = False,
                             pp_degraded = False\<rparr>)
           | Some ch0 \<Rightarrow>
               (let ch = presence_evict now (ps_config s) ch0; s' = presence_put key ch s in
                case presence_cursor_check q ch of
                  Inl e \<Rightarrow> (s', Inl e)
                | Inr _ \<Rightarrow> (s', Inr (presence_page_of q ch)))))"

definition presence_inspection_of :: "string \<Rightarrow> string \<Rightarrow> memory_presence_channel \<Rightarrow> presence_stream_inspection" where
  "presence_inspection_of app_id channel ch =
     \<lparr>psi_app_id = app_id, psi_channel = channel, psi_stream_id = Some (pch_stream_id ch),
      psi_next_serial = Some (pch_next_serial ch), psi_retained = presence_retained_from_channel ch,
      psi_state = presence_healthy app_id channel (Some (pch_stream_id ch)) ''in_memory''\<rparr>"

definition presence_stream_runtime_state_op ::
    "i64 \<Rightarrow> string \<Rightarrow> string \<Rightarrow> string \<Rightarrow> memory_presence_store \<Rightarrow>
     memory_presence_store \<times> presence_stream_runtime_state result" where
  "presence_stream_runtime_state_op now fresh app_id channel s =
     (let key = presence_channel_key app_id channel;
          ch = presence_evict now (ps_config s) (presence_entry fresh key s)
      in (presence_put key ch s,
          Inr (presence_healthy app_id channel (Some (pch_stream_id ch)) ''in_memory'')))"

definition presence_stream_inspection_op ::
    "i64 \<Rightarrow> string \<Rightarrow> string \<Rightarrow> string \<Rightarrow> memory_presence_store \<Rightarrow>
     memory_presence_store \<times> presence_stream_inspection result" where
  "presence_stream_inspection_op now fresh app_id channel s =
     (let key = presence_channel_key app_id channel;
          ch = presence_evict now (ps_config s) (presence_entry fresh key s)
      in (presence_put key ch s, Inr (presence_inspection_of app_id channel ch)))"

definition presence_reset_stream ::
    "string \<Rightarrow> string \<Rightarrow> string \<Rightarrow> string \<Rightarrow> memory_presence_store \<Rightarrow>
     memory_presence_store \<times> presence_reset_result result" where
  "presence_reset_stream fresh fresh' app_id channel s =
     (let key = presence_channel_key app_id channel;
          ch = presence_entry fresh key s;
          ch' = ch\<lparr>pch_records := [], pch_dedupe_keys := {}, pch_latest_event_by_user := [],
                   pch_retained_bytes := 0, pch_next_serial := 1, pch_stream_id := fresh'\<rparr>;
          inspection = presence_inspection_of app_id channel ch'
      in (presence_put key ch' s,
          Inr \<lparr>prt_app_id = app_id, prt_channel = channel,
               prt_previous_stream_id = Some (pch_stream_id ch),
               prt_new_stream_id = (case psi_stream_id inspection of None \<Rightarrow> [] | Some i \<Rightarrow> i),
               prt_purged_events = len64 (pch_records ch), prt_purged_bytes = pch_retained_bytes ch,
               prt_inspection = inspection\<rparr>))"

section \<open>Snapshots\<close>

record snapshot_state =
  ss_members :: "(string, presence_snapshot_member) btree"
  ss_events_replayed :: u64
  ss_snapshot_serial :: "u64 option"
  ss_snapshot_time_ms :: "i64 option"
  ss_stream_id :: "string option"
  ss_first_serial :: "u64 option"
  ss_previous_serial :: "u64 option"
  ss_transition_anomaly :: "string option"

definition snapshot_state_init :: snapshot_state where
  "snapshot_state_init =
     \<lparr>ss_members = [], ss_events_replayed = 0, ss_snapshot_serial = None, ss_snapshot_time_ms = None,
      ss_stream_id = None, ss_first_serial = None, ss_previous_serial = None, ss_transition_anomaly = None\<rparr>"

text \<open>\<^verbatim>\<open>Option::get_or_insert\<close>.\<close>

definition get_or_insert :: "'a \<Rightarrow> 'a option \<Rightarrow> 'a option" where
  "get_or_insert x o' = (case o' of None \<Rightarrow> Some x | Some y \<Rightarrow> Some y)"

definition snapshot_member_of :: "presence_item \<Rightarrow> presence_snapshot_member" where
  "snapshot_member_of i =
     \<lparr>psm_user_id = pit_user_id i, psm_last_event = pit_event i,
      psm_last_event_serial = pit_serial i, psm_last_event_at_ms = pit_published_at_ms i\<rparr>"

definition snapshot_apply :: "presence_item \<Rightarrow> snapshot_state \<Rightarrow> snapshot_state" where
  "snapshot_apply i st =
     (case pit_event i of
        MemberAdded \<Rightarrow>
          st\<lparr>ss_transition_anomaly :=
               (if bt_contains (ss_members st) (pit_user_id i)
                then get_or_insert ''duplicate_member_added'' (ss_transition_anomaly st)
                else ss_transition_anomaly st),
             ss_members := bt_insert (pit_user_id i) (snapshot_member_of i) (ss_members st)\<rparr>
      | MemberUpdated \<Rightarrow>
          (case bt_get (ss_members st) (pit_user_id i) of
             Some m \<Rightarrow>
               st\<lparr>ss_members := bt_insert (pit_user_id i)
                    (m\<lparr>psm_last_event := pit_event i, psm_last_event_serial := pit_serial i,
                       psm_last_event_at_ms := pit_published_at_ms i\<rparr>) (ss_members st)\<rparr>
           | None \<Rightarrow>
               st\<lparr>ss_transition_anomaly :=
                    get_or_insert ''member_updated_without_join'' (ss_transition_anomaly st)\<rparr>)
      | MemberRemoved \<Rightarrow>
          st\<lparr>ss_transition_anomaly :=
               (if bt_contains (ss_members st) (pit_user_id i) then ss_transition_anomaly st
                else get_or_insert ''member_removed_without_join'' (ss_transition_anomaly st)),
             ss_members := bt_remove (pit_user_id i) (ss_members st)\<rparr>)"

definition snapshot_item :: "bool \<Rightarrow> presence_item \<Rightarrow> snapshot_state \<Rightarrow> snapshot_state result" where
  "snapshot_item require_serial_adjacency i st =
     (if (case ss_stream_id st of None \<Rightarrow> False | Some expected \<Rightarrow> expected \<noteq> pit_stream_id i)
      then Inl (InvalidMessageFormat ''presence history stream changed while reconstructing snapshot'')
      else
        (let st1 = st\<lparr>ss_stream_id := get_or_insert (pit_stream_id i) (ss_stream_id st),
                      ss_first_serial := get_or_insert (pit_serial i) (ss_first_serial st)\<rparr> in
         if (case ss_previous_serial st1 of None \<Rightarrow> False
             | Some previous \<Rightarrow> pit_serial i \<le> previous \<or>
                 (require_serial_adjacency \<and> sat_add previous 1 \<noteq> pit_serial i))
         then Inl (InvalidMessageFormat ''presence history serial continuity check failed'')
         else Inr (snapshot_apply i
                (st1\<lparr>ss_previous_serial := Some (pit_serial i),
                     ss_events_replayed := sat_add (ss_events_replayed st1) 1,
                     ss_snapshot_serial := Some (pit_serial i),
                     ss_snapshot_time_ms := Some (pit_published_at_ms i)\<rparr>))))"

fun snapshot_items :: "bool \<Rightarrow> presence_item list \<Rightarrow> snapshot_state \<Rightarrow> snapshot_state result" where
  "snapshot_items adj [] st = Inr st"
| "snapshot_items adj (i # is) st =
     (case snapshot_item adj i st of Inl e \<Rightarrow> Inl e | Inr st' \<Rightarrow> snapshot_items adj is st')"

definition snapshot_bounds :: "presence_snapshot_request \<Rightarrow> presence_query_bounds" where
  "snapshot_bounds r =
     \<lparr>pb_start_serial = None, pb_end_serial = psr_at_serial r, pb_start_time_ms = None,
      pb_end_time_ms = psr_at_time_ms r\<rparr>"

definition snapshot_page_request :: "presence_snapshot_request \<Rightarrow> presence_cursor option \<Rightarrow> presence_read_request" where
  "snapshot_page_request r cursor =
     \<lparr>prr_app_id = psr_app_id r, prr_channel = psr_channel r, prr_direction = POldestFirst,
      prr_limit = 1000, prr_cursor = cursor, prr_bounds = snapshot_bounds r\<rparr>"

definition snapshot_cursor_advanced ::
    "presence_snapshot_request \<Rightarrow> presence_page \<Rightarrow> snapshot_state \<Rightarrow> presence_cursor \<Rightarrow> bool" where
  "snapshot_cursor_advanced r page st c \<longleftrightarrow>
     \<not> (pp_items page = [] \<or> pcur_version c \<noteq> 1 \<or> pcur_app_id c \<noteq> psr_app_id r \<or>
        pcur_channel c \<noteq> psr_channel r \<or> Some (pcur_serial c) \<noteq> ss_previous_serial st \<or>
        pcur_direction c \<noteq> POldestFirst \<or> pcur_bounds c \<noteq> snapshot_bounds r \<or>
        ss_stream_id st \<noteq> Some (pcur_stream_id c))"

text \<open>
  The page loop, over any page reader; the fuel bounds the number of pages and \<^term>\<open>None\<close> is
  running out of it.
\<close>

fun snapshot_loop ::
    "nat \<Rightarrow> ('s \<Rightarrow> presence_read_request \<Rightarrow> 's \<times> presence_page result) \<Rightarrow> presence_snapshot_request \<Rightarrow>
     presence_cursor option \<Rightarrow> snapshot_state \<Rightarrow> 's \<Rightarrow> ('s \<times> (snapshot_state \<times> presence_page) result) option" where
  "snapshot_loop 0 rd r cursor st s = None"
| "snapshot_loop (Suc n) rd r cursor st s =
     (case rd s (snapshot_page_request r cursor) of
        (s', Inl e) \<Rightarrow> Some (s', Inl e)
      | (s', Inr page) \<Rightarrow>
          (case snapshot_items (psr_at_time_ms r = None) (pp_items page) st of
             Inl e \<Rightarrow> Some (s', Inl e)
           | Inr st' \<Rightarrow>
               if \<not> pp_has_more page then Some (s', Inr (st', page))
               else case pp_next_cursor page of
                 None \<Rightarrow> Some (s', Inl (InvalidMessageFormat ''presence history page has_more without a cursor''))
               | Some c \<Rightarrow>
                   if snapshot_cursor_advanced r page st' c
                   then snapshot_loop n rd r (Some c) st' s'
                   else Some (s', Inl (InvalidMessageFormat ''presence history cursor did not advance''))))"

definition snapshot_finish ::
    "presence_snapshot_request \<Rightarrow> snapshot_state \<Rightarrow> presence_page \<Rightarrow> presence_snapshot result" where
  "snapshot_finish r st page =
     (if pp_complete page \<and> \<not> pp_truncated_by_retention page \<and> psr_at_time_ms r = None \<and>
         (case ss_first_serial st of None \<Rightarrow> False | Some serial \<Rightarrow> serial \<noteq> 1)
      then Inl (InvalidMessageFormat ''presence history complete snapshot is missing its serial prefix'')
      else if pp_complete page \<and> \<not> pp_truncated_by_retention page \<and> psr_at_time_ms r = None \<and>
         ss_transition_anomaly st \<noteq> None
      then Inl (InvalidMessageFormat
             (''presence history transition anomaly: '' @ the (ss_transition_anomaly st)))
      else Inr \<lparr>psn_channel = psr_channel r, psn_members = bt_values (ss_members st),
                psn_events_replayed = ss_events_replayed st, psn_snapshot_serial = ss_snapshot_serial st,
                psn_snapshot_time_ms = ss_snapshot_time_ms st, psn_retained = pp_retained page,
                psn_complete = pp_complete page, psn_truncated_by_retention = pp_truncated_by_retention page\<rparr>)"

definition presence_snapshot_at ::
    "nat \<Rightarrow> ('s \<Rightarrow> presence_read_request \<Rightarrow> 's \<times> presence_page result) \<Rightarrow> presence_snapshot_request \<Rightarrow>
     's \<Rightarrow> ('s \<times> presence_snapshot result) option" where
  "presence_snapshot_at n rd r s =
     (case snapshot_loop n rd r None snapshot_state_init s of
        None \<Rightarrow> None
      | Some (s', Inl e) \<Rightarrow> Some (s', Inl e)
      | Some (s', Inr (st, page)) \<Rightarrow> Some (s', snapshot_finish r st page))"

section \<open>Invariant of a channel\<close>

text \<open>The latest retained event of a user, and that consecutive events of a user differ.\<close>

fun presence_latest :: "presence_append_record list \<Rightarrow> string \<Rightarrow> presence_event_kind option" where
  "presence_latest [] u = None"
| "presence_latest (r # rs) u =
     (case presence_latest rs u of Some e \<Rightarrow> Some e
      | None \<Rightarrow> if par_user_id r = u then Some (par_event r) else None)"

fun presence_edges :: "presence_append_record list \<Rightarrow> bool" where
  "presence_edges [] \<longleftrightarrow> True"
| "presence_edges (r # rs) \<longleftrightarrow>
     (case find (\<lambda>r'. par_user_id r' = par_user_id r) rs of None \<Rightarrow> True
      | Some r' \<Rightarrow> par_event r' \<noteq> par_event r) \<and> presence_edges rs"

definition presence_accounted :: "memory_presence_channel \<Rightarrow> bool" where
  "presence_accounted ch \<longleftrightarrow> unat (pch_retained_bytes ch) = total_len par_payload_bytes (pch_records ch)"

definition presence_times_sorted :: "memory_presence_channel \<Rightarrow> bool" where
  "presence_times_sorted ch \<longleftrightarrow> sorted (map par_published_at_ms (pch_records ch))"

definition presence_ordered :: "memory_presence_channel \<Rightarrow> bool" where
  "presence_ordered ch \<longleftrightarrow>
     sorted_wrt (<) (map par_serial (pch_records ch)) \<and>
     (\<forall>r \<in> set (pch_records ch). par_serial r < pch_next_serial ch \<and> par_stream_id r = pch_stream_id ch)"

definition presence_indexed :: "memory_presence_channel \<Rightarrow> bool" where
  "presence_indexed ch \<longleftrightarrow>
     distinct (map par_dedupe_key (pch_records ch)) \<and>
     pch_dedupe_keys ch = par_dedupe_key ` set (pch_records ch) \<and>
     (\<forall>u. bt_get (pch_latest_event_by_user ch) u = presence_latest (pch_records ch) u) \<and>
     presence_edges (pch_records ch)"

definition presence_channel_ok :: "memory_presence_channel \<Rightarrow> bool" where
  "presence_channel_ok ch \<longleftrightarrow> presence_accounted ch \<and> presence_ordered ch \<and> presence_indexed ch"

lemmas presence_ok_defs =
  presence_channel_ok_def presence_accounted_def presence_ordered_def presence_indexed_def

lemma presence_latest_append:
  "presence_latest (rs @ [r]) u = (if par_user_id r = u then Some (par_event r) else presence_latest rs u)"
  by (induction rs) (auto split: option.splits)

lemma presence_latest_None: "presence_latest rs u = None \<longleftrightarrow> (\<forall>r \<in> set rs. par_user_id r \<noteq> u)"
  by (induction rs) (auto split: option.splits)

lemma find_append:
  "find P (xs @ ys) = (case find P xs of None \<Rightarrow> find P ys | Some x \<Rightarrow> Some x)"
  by (induction xs) auto

lemma presence_find_None: "find (\<lambda>r. par_user_id r = u) rs = None \<longleftrightarrow> presence_latest rs u = None"
  by (auto simp: presence_latest_None find_None_iff)

lemma presence_edges_append:
  "presence_edges (rs @ [r]) \<longleftrightarrow> presence_edges rs \<and> presence_latest rs (par_user_id r) \<noteq> Some (par_event r)"
proof (induction rs)
  case (Cons x rs)
  show ?case
  proof (cases "presence_latest rs (par_user_id x)")
    case None
    then have "find (\<lambda>r'. par_user_id r' = par_user_id x) rs = None" by (simp add: presence_find_None)
    with None Cons show ?thesis
      by (cases "par_user_id r = par_user_id x") (auto simp: find_append split: option.splits)
  next
    case (Some e)
    then obtain r' where "find (\<lambda>r'. par_user_id r' = par_user_id x) rs = Some r'"
      by (metis not_None_eq presence_find_None)
    with Some Cons show ?thesis
      by (cases "par_user_id r = par_user_id x") (auto simp: find_append split: option.splits)
  qed
qed simp

lemma presence_edges_drop: "presence_edges rs \<Longrightarrow> presence_edges (drop n rs)"
  by (induction rs arbitrary: n) (auto simp: drop_Cons')

lemma presence_rebuild_latest_get: "bt_get (presence_rebuild_latest rs) u = presence_latest rs u"
proof -
  have "bt_get (fold (\<lambda>r m. bt_insert (par_user_id r) (par_event r) m) rs m) u =
      (case presence_latest rs u of Some e \<Rightarrow> Some e | None \<Rightarrow> bt_get m u)" for m
    by (induction rs arbitrary: m) (auto simp: bt.get_put split: option.splits)
  then show ?thesis by (simp add: presence_rebuild_latest_def split: option.splits)
qed

section \<open>Eviction\<close>

interpretation pq: retained_queue par_published_at_ms par_payload_bytes pa_retained_bytes presence_account_pop
  by unfold_locales (simp add: presence_account_pop_def)

abbreviation presence_within :: "i64 \<Rightarrow> presence_retention_policy \<Rightarrow> presence_append_record list \<Rightarrow> bool" where
  "presence_within now retention \<equiv>
     within_retention par_published_at_ms par_payload_bytes (presence_cutoff_ms now retention)
       (prp_max_events_per_channel retention) (prp_max_bytes_per_channel retention)"

lemma presence_fold_dedupe:
  "pa_dedupe_keys (fold presence_account_pop rs a) = pa_dedupe_keys a - par_dedupe_key ` set rs"
  by (induction rs arbitrary: a) (auto simp: presence_account_pop_def)

lemma presence_fold_events:
  "0 < pa_evicted_events (fold presence_account_pop rs a) \<longleftrightarrow> 0 < pa_evicted_events a \<or> rs \<noteq> []"
proof (induction rs arbitrary: a)
  case (Cons r rs)
  have "0 < sat_add x 1" for x :: u64 by (simp add: u64_unat)
  with Cons show ?case by (simp add: presence_account_pop_def)
qed simp

lemma presence_evict_channel_suffix:
  assumes "presence_accounted ch"
  obtains n ch' where "n \<le> length (pch_records ch)"
    and "fst (presence_evict_channel now retention ch) = ch'"
    and "pch_records ch' = drop n (pch_records ch)" and "presence_accounted ch'"
    and "pch_dedupe_keys ch' = pch_dedupe_keys ch - par_dedupe_key ` set (take n (pch_records ch))"
    and "pch_latest_event_by_user ch' = (if n = 0 then pch_latest_event_by_user ch
           else presence_rebuild_latest (drop n (pch_records ch)))"
    and "pch_stream_id ch' = pch_stream_id ch" and "pch_next_serial ch' = pch_next_serial ch"
    and "pch_retention ch' = pch_retention ch"
    and "\<And>k. k < n \<Longrightarrow> \<not> presence_within now retention (drop k (pch_records ch))"
    and "presence_times_sorted ch \<Longrightarrow> presence_within now retention (drop n (pch_records ch))"
proof -
  let ?a = "\<lparr>pa_retained_bytes = pch_retained_bytes ch, pa_dedupe_keys = pch_dedupe_keys ch,
               pa_evicted_events = 0, pa_evicted_bytes = 0\<rparr>"
  from assms have acc: "unat (pa_retained_bytes ?a) = total_len par_payload_bytes (pch_records ch)"
    by (simp add: presence_accounted_def)
  obtain n where n: "n \<le> length (pch_records ch)"
    "retention_loops par_published_at_ms pa_retained_bytes presence_account_pop
       (presence_cutoff_ms now retention) (prp_max_events_per_channel retention)
       (prp_max_bytes_per_channel retention) ?a (pch_records ch) =
     (fold presence_account_pop (take n (pch_records ch)) ?a, drop n (pch_records ch))"
    "\<And>k. k < n \<Longrightarrow> \<not> presence_within now retention (drop k (pch_records ch))"
    "sorted (map par_published_at_ms (pch_records ch)) \<Longrightarrow> presence_within now retention (drop n (pch_records ch))"
    using pq.loops_suffix [OF acc] by metis
  have ev: "0 < pa_evicted_events (fold presence_account_pop (take n (pch_records ch)) ?a) \<longleftrightarrow> n \<noteq> 0"
    using n(1) by (auto simp: presence_fold_events)
  show thesis
    by (rule that [OF n(1) refl _ _ _ _ _ _ _ n(3)])
      (simp_all add: presence_evict_channel_def n(2) n(4) Let_def presence_times_sorted_def ev
        presence_fold_dedupe presence_accounted_def pq.bytes_after [OF acc] assms [unfolded presence_accounted_def])
qed

lemma presence_evict_ok:
  assumes "presence_channel_ok ch"
  shows "presence_channel_ok (presence_evict now config ch)"
proof -
  let ?rs = "pch_records ch"
  from assms have acc: "presence_accounted ch" and ord: "presence_ordered ch" and ind: "presence_indexed ch"
    by (simp_all add: presence_channel_ok_def)
  from presence_evict_channel_suffix [OF acc, of now "presence_policy config ch"] obtain n ch' where
    n: "n \<le> length ?rs" and ch': "presence_evict now config ch = ch'"
    and rs: "pch_records ch' = drop n ?rs" and acc': "presence_accounted ch'"
    and keys: "pch_dedupe_keys ch' = pch_dedupe_keys ch - par_dedupe_key ` set (take n ?rs)"
    and latest: "pch_latest_event_by_user ch' = (if n = 0 then pch_latest_event_by_user ch
           else presence_rebuild_latest (drop n ?rs))"
    and same: "pch_stream_id ch' = pch_stream_id ch" "pch_next_serial ch' = pch_next_serial ch"
    unfolding presence_evict_def by metis
  have "presence_ordered ch'"
    using ord by (auto simp: presence_ordered_def rs same sorted_wrt_drop simp flip: drop_map dest: in_set_dropD)
  moreover have "presence_indexed ch'"
  proof -
    have dist: "distinct (map par_dedupe_key (take n ?rs @ drop n ?rs))"
      and all: "pch_dedupe_keys ch = par_dedupe_key ` set (take n ?rs @ drop n ?rs)"
      using ind unfolding append_take_drop_id by (simp_all add: presence_indexed_def)
    have "pch_dedupe_keys ch' = par_dedupe_key ` set (drop n ?rs)"
      using dist unfolding keys all map_append distinct_append set_append image_Un set_map by blast
    moreover have "distinct (map par_dedupe_key (drop n ?rs))"
      using dist unfolding map_append distinct_append by blast
    ultimately show ?thesis
      using ind by (auto simp: presence_indexed_def rs latest presence_rebuild_latest_get presence_edges_drop)
  qed
  ultimately show ?thesis using acc' ch' by (simp add: presence_channel_ok_def)
qed


lemma presence_evict_facts:
  assumes "presence_accounted ch"
  shows "pch_stream_id (presence_evict now config ch) = pch_stream_id ch"
    and "pch_next_serial (presence_evict now config ch) = pch_next_serial ch"
    and "pch_retention (presence_evict now config ch) = pch_retention ch"
    and "\<exists>n. pch_records (presence_evict now config ch) = drop n (pch_records ch)"
    and "presence_accounted (presence_evict now config ch)"
proof -
  obtain n ch' where "presence_evict now config ch = ch'" "pch_records ch' = drop n (pch_records ch)"
    "presence_accounted ch'" "pch_stream_id ch' = pch_stream_id ch" "pch_next_serial ch' = pch_next_serial ch"
    "pch_retention ch' = pch_retention ch"
    using presence_evict_channel_suffix [OF assms, of now "presence_policy config ch"]
    unfolding presence_evict_def by metis
  then show "pch_stream_id (presence_evict now config ch) = pch_stream_id ch"
    and "pch_next_serial (presence_evict now config ch) = pch_next_serial ch"
    and "pch_retention (presence_evict now config ch) = pch_retention ch"
    and "\<exists>n. pch_records (presence_evict now config ch) = drop n (pch_records ch)"
    and "presence_accounted (presence_evict now config ch)"
    by auto
qed

lemma presence_evict_times_sorted:
  assumes "presence_accounted ch" and "presence_times_sorted ch"
  shows "presence_times_sorted (presence_evict now config ch)"
proof -
  obtain n where "pch_records (presence_evict now config ch) = drop n (pch_records ch)"
    using presence_evict_facts(4) [OF assms(1)] by blast
  with assms(2) show ?thesis
    by (simp add: presence_times_sorted_def sorted_wrt_drop flip: drop_map)
qed

lemma presence_evict_channel_fix:
  assumes "presence_accounted ch" and "presence_within now retention (pch_records ch)"
  shows "fst (presence_evict_channel now retention ch) = ch"
proof -
  let ?a = "\<lparr>pa_retained_bytes = pch_retained_bytes ch, pa_dedupe_keys = pch_dedupe_keys ch,
               pa_evicted_events = 0, pa_evicted_bytes = 0\<rparr>"
  have "unat (pa_retained_bytes ?a) = total_len par_payload_bytes (pch_records ch)"
    using assms(1) by (simp add: presence_accounted_def)
  from pq.loops_within_fix [OF this assms(2)] show ?thesis
    by (simp add: presence_evict_channel_def Let_def)
qed

lemma presence_evict_idem:
  assumes "presence_accounted ch" and "presence_times_sorted ch"
  shows "presence_evict now config (presence_evict now config ch) = presence_evict now config ch"
proof -
  let ?ch = "presence_evict now config ch"
  have pol: "presence_policy config ?ch = presence_policy config ch"
    by (simp add: presence_policy_def presence_evict_facts(3) [OF assms(1)])
  have "presence_within now (presence_policy config ch) (pch_records ?ch)"
    using presence_evict_channel_suffix [OF assms(1), of now "presence_policy config ch"] assms(2)
    unfolding presence_evict_def by metis
  then have "fst (presence_evict_channel now (presence_policy config ?ch) ?ch) = ?ch"
    using presence_evict_facts(5) [OF assms(1)] by (intro presence_evict_channel_fix) (simp_all add: pol)
  then show ?thesis by (simp add: presence_evict_def [of now config ?ch])
qed

section \<open>Recording a transition\<close>

definition presence_store_ok :: "memory_presence_store \<Rightarrow> bool" where
  "presence_store_ok s \<longleftrightarrow>
     bt_wf (ps_channels s) \<and> (\<forall>k ch. bt_get (ps_channels s) k = Some ch \<longrightarrow> presence_channel_ok ch)"

lemma presence_channel_default_ok [simp]: "presence_channel_ok (presence_channel_default fresh)"
  by (simp add: presence_ok_defs presence_channel_default_def)

lemma presence_entry_ok [intro]: "presence_store_ok s \<Longrightarrow> presence_channel_ok (presence_entry fresh key s)"
  by (simp add: presence_entry_def presence_store_ok_def split: option.splits)

lemma presence_put_ok [intro]:
  "presence_store_ok s \<Longrightarrow> presence_channel_ok ch \<Longrightarrow> presence_store_ok (presence_put key ch s)"
  by (auto simp: presence_store_ok_def presence_put_def bt.get_put split: if_splits)

lemma presence_put_get [simp]:
  "bt_get (ps_channels (presence_put key ch s)) key' = (if key' = key then Some ch else bt_get (ps_channels s) key')"
  by (simp add: presence_put_def bt.get_put)

lemma presence_put_config [simp]: "ps_config (presence_put key ch s) = ps_config s"
  by (simp add: presence_put_def)

lemma presence_advance_ok:
  "presence_channel_ok ch \<Longrightarrow> presence_channel_ok (ch\<lparr>pch_next_serial := sat_add (pch_next_serial ch) 1\<rparr>)"
  by (auto simp: presence_ok_defs intro: less_le_trans [OF _ sat_add_ge])

lemma presence_record_channel_ok:
  assumes ok: "presence_channel_ok ch" and serial: "pch_next_serial ch \<noteq> - 1"
    and len: "\<And>p bs. to_vec p = Inr bs \<Longrightarrow> total_len par_payload_bytes (pch_records ch) + length bs < 2 ^ 64"
  shows "presence_channel_ok (fst (presence_record_channel now to_vec config r ch))"
proof -
  let ?ch = "presence_evict now config ch"
  have acc: "presence_accounted ch" using ok by (simp add: presence_channel_ok_def)
  have ok': "presence_channel_ok ?ch" using ok by (rule presence_evict_ok)
  obtain n where n: "pch_records ?ch = drop n (pch_records ch)"
    using presence_evict_facts(4) [OF acc] by blast
  have serial': "pch_next_serial ?ch \<noteq> - 1" using serial presence_evict_facts(2) [OF acc] by simp
  let ?ch1 = "?ch\<lparr>pch_next_serial := sat_add (pch_next_serial ?ch) 1\<rparr>"
  show ?thesis
  proof (cases "ptr_dedupe_key r \<in> pch_dedupe_keys ?ch \<or>
      bt_get (pch_latest_event_by_user ?ch) (ptr_user_id r) = Some (ptr_event_kind r)")
    case True
    with ok' show ?thesis by (auto simp: presence_record_channel_def Let_def)
  next
    case False
    show ?thesis
    proof (cases "presence_build_payload to_vec (pch_stream_id ?ch1) (pch_next_serial ?ch) r")
      case (Inl e)
      with False presence_advance_ok [OF ok'] show ?thesis
        by (simp add: presence_record_channel_def Let_def)
    next
      case (Inr bs)
      then obtain p where "to_vec p = Inr bs"
        by (auto simp: presence_build_payload_def Let_def split: sum.splits)
      with len have "total_len par_payload_bytes (pch_records ch) + length bs < 2 ^ 64" by blast
      then have small: "total_len par_payload_bytes (pch_records ?ch) + length bs < 2 ^ 64"
        using total_len_drop_le [of par_payload_bytes n "pch_records ch"] n by simp
      then have bytes: "unat (sat_add (pch_retained_bytes ?ch) (len64 bs)) =
          total_len par_payload_bytes (pch_records ?ch) + length bs"
        using ok' by (simp add: presence_ok_defs unat_sat_add unat_len64)
      have "presence_channel_ok (?ch1\<lparr>pch_retention := Some (ptr_retention r),
            pch_retained_bytes := sat_add (pch_retained_bytes ?ch1) (len64 bs),
            pch_dedupe_keys := insert (ptr_dedupe_key r) (pch_dedupe_keys ?ch1),
            pch_latest_event_by_user :=
              bt_insert (ptr_user_id r) (ptr_event_kind r) (pch_latest_event_by_user ?ch1),
            pch_records := pch_records ?ch1 @
              [\<lparr>par_stream_id = pch_stream_id ?ch1, par_serial = pch_next_serial ?ch,
                par_published_at_ms = ptr_published_at_ms r, par_event = ptr_event_kind r,
                par_cause = ptr_cause r, par_user_id = ptr_user_id r,
                par_connection_id = ptr_connection_id r, par_dead_node_id = ptr_dead_node_id r,
                par_payload_bytes = bs, par_dedupe_key = ptr_dedupe_key r\<rparr>]\<rparr>)"
        using ok' False bytes less_sat_add_1 [OF serial']
        by (auto simp: presence_ok_defs sorted_wrt_append bt.get_put presence_latest_append
            presence_edges_append intro: less_trans)
      from presence_evict_ok [OF this] False Inr show ?thesis
        by (simp add: presence_record_channel_def Let_def)
    qed
  qed
qed

section \<open>Following the cursors\<close>

text \<open>
  The store as a \<open>cursor_reader\<close>: a query is a clock reading and a request whose cursor field is
  replaced by the cursor at hand.
\<close>

definition presence_read_cursor ::
    "i64 \<times> presence_read_request \<Rightarrow> memory_presence_store \<Rightarrow> presence_cursor option \<Rightarrow>
     memory_presence_store \<times> (error + presence_item list \<times> presence_cursor option)" where
  "presence_read_cursor nq s c =
     (case presence_read_page (fst nq) ((snd nq)\<lparr>prr_cursor := c\<rparr>) s of
        (s', Inl e) \<Rightarrow> (s', Inl e)
      | (s', Inr p) \<Rightarrow> (s', Inr (pp_items p, pp_next_cursor p)))"

definition presence_request_key :: "presence_read_request \<Rightarrow> string" where
  "presence_request_key q = presence_channel_key (prr_app_id q) (prr_channel q)"

definition presence_ready :: "i64 \<times> presence_read_request \<Rightarrow> memory_presence_store \<Rightarrow> bool" where
  "presence_ready nq s \<longleftrightarrow>
     presence_read_validate ((snd nq)\<lparr>prr_cursor := None\<rparr>) = Inr () \<and> prr_limit (snd nq) \<noteq> - 1 \<and>
     (\<forall>ch. bt_get (ps_channels s) (presence_request_key (snd nq)) = Some ch \<longrightarrow>
        presence_channel_ok ch \<and> presence_times_sorted ch)"

definition presence_order :: "presence_direction \<Rightarrow> 'a list \<Rightarrow> 'a list" where
  "presence_order d rs = (case d of PNewestFirst \<Rightarrow> rev rs | POldestFirst \<Rightarrow> rs)"

definition presence_rest ::
    "i64 \<times> presence_read_request \<Rightarrow> memory_presence_store \<Rightarrow> presence_cursor option \<Rightarrow> presence_item list" where
  "presence_rest nq s c =
     (case bt_get (ps_channels s) (presence_request_key (snd nq)) of
        None \<Rightarrow> []
      | Some ch \<Rightarrow>
          map presence_item_of (filter (presence_matcher ((snd nq)\<lparr>prr_cursor := c\<rparr>))
            (presence_order (prr_direction (snd nq)) (pch_records (presence_evict (fst nq) (ps_config s) ch)))))"

definition presence_live ::
    "i64 \<times> presence_read_request \<Rightarrow> memory_presence_store \<Rightarrow> presence_cursor option \<Rightarrow> bool" where
  "presence_live nq s c \<longleftrightarrow>
     (case c of None \<Rightarrow> True
      | Some cur \<Rightarrow> presence_read_validate ((snd nq)\<lparr>prr_cursor := c\<rparr>) = Inr () \<and>
          (case bt_get (ps_channels s) (presence_request_key (snd nq)) of
             None \<Rightarrow> False
           | Some ch \<Rightarrow>
               presence_cursor_check ((snd nq)\<lparr>prr_cursor := c\<rparr>)
                 (presence_evict (fst nq) (ps_config s) ch) = Inr ()))"

definition presence_page_size :: "i64 \<times> presence_read_request \<Rightarrow> nat" where
  "presence_page_size nq = unat (prr_limit (snd nq))"

lemma unat_sat_limit_plus_1: "(l :: usize) \<noteq> - 1 \<Longrightarrow> unat (sat_add l 1) = Suc (unat l)"
  by (simp add: unat_sat_add u64_neq_max_iff)

lemma presence_read_cursor_page:
  assumes "presence_ready nq s" and "presence_live nq s c"
    and "bt_get (ps_channels s) (presence_request_key (snd nq)) = Some ch"
  shows "presence_read_cursor nq s c =
    (let ch' = presence_evict (fst nq) (ps_config s) ch; p = presence_page_of ((snd nq)\<lparr>prr_cursor := c\<rparr>) ch'
     in (presence_put (presence_request_key (snd nq)) ch' s, Inr (pp_items p, pp_next_cursor p)))"
  using assms
  by (cases c) (auto simp: presence_read_cursor_def presence_read_page_def presence_ready_def presence_live_def
      presence_request_key_def presence_cursor_check_def Let_def split: sum.splits if_splits)

lemma presence_page_items:
  assumes "prr_limit q \<noteq> - 1"
  shows "pp_items (presence_page_of q ch) =
    take (unat (prr_limit q)) (map presence_item_of (filter (presence_matcher q)
      (presence_order (prr_direction q) (pch_records ch))))"
  using unat_sat_limit_plus_1 [OF assms]
  by (simp add: presence_page_of_def Let_def presence_order_def take_map min_absorb1 cong: presence_direction.case_cong)

lemma presence_page_cursor:
  assumes "prr_limit q \<noteq> - 1" and "prr_limit q \<noteq> 0"
    and "rs = filter (presence_matcher q) (presence_order (prr_direction q) (pch_records ch))"
  shows "pp_next_cursor (presence_page_of q ch) =
    (if length rs \<le> unat (prr_limit q) then None
     else Some \<lparr>pcur_version = 1, pcur_app_id = prr_app_id q, pcur_channel = prr_channel q,
                pcur_stream_id = par_stream_id (rs ! (unat (prr_limit q) - 1)),
                pcur_serial = par_serial (rs ! (unat (prr_limit q) - 1)),
                pcur_direction = prr_direction q, pcur_bounds = prr_bounds q\<rparr>)"
proof -
  let ?n = "unat (prr_limit q)"
  have n: "0 < ?n" using assms(2) by (simp add: unat_gt_0)
  have last: "back_of (map presence_item_of (take ?n rs)) = Some (presence_item_of (rs ! (?n - 1)))"
    if "?n < length rs"
    using that n by (intro back_of_map_take) simp_all
  show ?thesis
    using unat_sat_limit_plus_1 [OF assms(1)] last
    unfolding presence_page_of_def Let_def assms(3) presence_order_def
    by (auto simp: min_def presence_item_of_def)
qed


text \<open>The order of a direction, as a relation on serials.\<close>

definition presence_lt :: "presence_direction \<Rightarrow> u64 \<Rightarrow> u64 \<Rightarrow> bool" where
  "presence_lt d a b \<longleftrightarrow> (case d of PNewestFirst \<Rightarrow> b < a | POldestFirst \<Rightarrow> a < b)"

lemma presence_lt_order [simp]: "transp (presence_lt d)" "asymp (presence_lt d)"
  by (cases d; auto simp: presence_lt_def transp_def asymp_on_def)+

lemma presence_order_sorted:
  "sorted_wrt (<) (map par_serial rs) \<Longrightarrow>
   sorted_wrt (\<lambda>x y. presence_lt d (par_serial x) (par_serial y)) (presence_order d rs)"
  by (cases d) (simp_all add: presence_lt_def presence_order_def sorted_wrt_map sorted_wrt_rev)

lemma presence_order_set [simp]: "set (presence_order d rs) = set rs"
  by (cases d) (simp_all add: presence_order_def)

lemma presence_matcher_cursor:
  "presence_matcher (q\<lparr>prr_cursor := c\<rparr>) r \<longleftrightarrow>
     presence_in_bounds (prr_bounds q) (par_serial r) (par_published_at_ms r) \<and>
     (case c of None \<Rightarrow> True
      | Some cur \<Rightarrow> par_stream_id r = pcur_stream_id cur \<and> presence_lt (prr_direction q) (pcur_serial cur) (par_serial r))"
  by (auto simp: presence_matcher_def presence_lt_def split: option.splits presence_direction.splits)

text \<open>The records beyond the last one of a full page.\<close>

lemma presence_next_rest:
  assumes ok: "presence_channel_ok ch"
    and stream: "\<And>cur. c = Some cur \<Longrightarrow> pcur_stream_id cur = pch_stream_id ch"
    and rs: "rs = filter (presence_matcher (q\<lparr>prr_cursor := c\<rparr>)) (presence_order (prr_direction q) (pch_records ch))"
    and n: "0 < n" "n < length rs"
    and c': "pcur_stream_id c' = pch_stream_id ch" "pcur_serial c' = par_serial (rs ! (n - 1))"
  shows "filter (presence_matcher (q\<lparr>prr_cursor := Some c'\<rparr>)) (presence_order (prr_direction q) (pch_records ch)) = drop n rs"
proof -
  let ?xs = "presence_order (prr_direction q) (pch_records ch)"
  let ?B = "\<lambda>r. presence_in_bounds (prr_bounds q) (par_serial r) (par_published_at_ms r)"
  let ?lt = "presence_lt (prr_direction q)"
  let ?P = "\<lambda>r. ?B r \<and> (case map_option pcur_serial c of None \<Rightarrow> True | Some k \<Rightarrow> ?lt k (par_serial r))"
  have same: "r \<in> set ?xs \<Longrightarrow> par_stream_id r = pch_stream_id ch" for r
    using ok by (simp add: presence_channel_ok_def presence_ordered_def)
  have rs': "rs = filter ?P ?xs"
    unfolding rs using same stream
    by (intro filter_cong refl) (auto simp: presence_matcher_cursor split: option.splits)
  have "filter (presence_matcher (q\<lparr>prr_cursor := Some c'\<rparr>)) ?xs =
      filter (\<lambda>r. ?B r \<and> ?lt (par_serial (filter ?P ?xs ! (n - 1))) (par_serial r)) ?xs"
    using same c' by (intro filter_cong refl) (auto simp: presence_matcher_cursor rs')
  also have "\<dots> = drop n (filter ?P ?xs)"
    using n rs' ok
    by (intro next_window [where c = "map_option pcur_serial c"])
      (auto simp: presence_order_sorted presence_channel_ok_def presence_ordered_def)
  finally show ?thesis by (simp add: rs')
qed

lemma presence_cursor_still_live:
  assumes ok: "presence_channel_ok ch"
    and v: "presence_read_validate (q\<lparr>prr_cursor := None\<rparr>) = Inr ()"
    and r: "r \<in> set (pch_records ch)"
    and c': "c' = \<lparr>pcur_version = 1, pcur_app_id = prr_app_id q, pcur_channel = prr_channel q,
                  pcur_stream_id = par_stream_id r, pcur_serial = par_serial r,
                  pcur_direction = prr_direction q, pcur_bounds = prr_bounds q\<rparr>"
  shows "presence_read_validate (q\<lparr>prr_cursor := Some c'\<rparr>) = Inr ()"
    and "presence_cursor_check (q\<lparr>prr_cursor := Some c'\<rparr>) ch = Inr ()"
proof -
  show "presence_read_validate (q\<lparr>prr_cursor := Some c'\<rparr>) = Inr ()"
    using v by (auto simp: presence_read_validate_def c' split: if_splits)
  have "\<not> par_serial r < par_serial (hd (pch_records ch))"
    using ok r by (cases "pch_records ch") (auto simp: presence_channel_ok_def presence_ordered_def)
  then show "presence_cursor_check (q\<lparr>prr_cursor := Some c'\<rparr>) ch = Inr ()"
    using ok r by (cases "pch_records ch")
      (auto simp: presence_cursor_check_def presence_channel_ok_def presence_ordered_def presence_retained_from_channel_def opt_gt_def c')
qed

lemma presence_inner_page:
  assumes rdy: "presence_ready nq s" and live: "presence_live nq s c"
    and long: "presence_page_size nq < length (presence_rest nq s c)"
  shows "\<exists>s' c'. presence_read_cursor nq s c =
      (s', Inr (take (presence_page_size nq) (presence_rest nq s c), Some c')) \<and>
    presence_ready nq s' \<and> presence_live nq s' (Some c') \<and>
    presence_rest nq s' (Some c') = drop (presence_page_size nq) (presence_rest nq s c)"
proof -
  obtain now q where nq: "nq = (now, q)" by fastforce
  let ?key = "presence_request_key q" and ?n = "unat (prr_limit q)"
  obtain ch where ch: "bt_get (ps_channels s) ?key = Some ch"
    using long nq by (auto simp: presence_rest_def split: option.splits)
  let ?ch = "presence_evict now (ps_config s) ch"
  let ?rs = "filter (presence_matcher (q\<lparr>prr_cursor := c\<rparr>)) (presence_order (prr_direction q) (pch_records ?ch))"
  have ok: "presence_channel_ok ch" "presence_times_sorted ch" "presence_accounted ch"
    and lim: "prr_limit q \<noteq> - 1" "prr_limit q \<noteq> 0"
    and v: "presence_read_validate (q\<lparr>prr_cursor := None\<rparr>) = Inr ()"
    using rdy ch nq
    by (auto simp: presence_ready_def presence_channel_ok_def presence_ordered_def presence_read_validate_def split: if_splits)
  have ok': "presence_channel_ok ?ch" "presence_times_sorted ?ch"
    using ok by (simp_all add: presence_evict_ok presence_evict_times_sorted)
  have n: "0 < ?n" "?n < length ?rs"
    using long lim nq ch by (simp_all add: unat_gt_0 presence_rest_def presence_page_size_def)
  let ?r = "?rs ! (?n - 1)"
  have r: "?r \<in> set (pch_records ?ch)"
    using nth_mem [of "?n - 1" ?rs] n by simp
  define c' where "c' = \<lparr>pcur_version = 1, pcur_app_id = prr_app_id q, pcur_channel = prr_channel q,
      pcur_stream_id = par_stream_id ?r, pcur_serial = par_serial ?r,
      pcur_direction = prr_direction q, pcur_bounds = prr_bounds q\<rparr>"
  let ?s = "presence_put ?key ?ch s"
  have idem: "presence_evict now (ps_config s) ?ch = ?ch"
    using ok by (intro presence_evict_idem)
  have rd: "presence_read_cursor nq s c = (?s, Inr (take ?n (presence_rest nq s c), Some c'))"
    using presence_read_cursor_page [OF rdy live] ch nq n lim
      presence_page_items [of "q\<lparr>prr_cursor := c\<rparr>" ?ch]
      presence_page_cursor [of "q\<lparr>prr_cursor := c\<rparr>" ?rs ?ch]
    by (simp add: presence_rest_def c'_def Let_def)
  have "pcur_stream_id cur = pch_stream_id ?ch" if "c = Some cur" for cur
    using live that nq ch by (auto simp: presence_live_def presence_cursor_check_def split: if_splits)
  with ok' n r have rest: "presence_rest nq ?s (Some c') = drop ?n (presence_rest nq s c)"
    using presence_next_rest [OF ok'(1) _ refl n, of c']
    by (simp add: nq ch presence_rest_def idem drop_map c'_def presence_channel_ok_def presence_ordered_def)
  have "presence_ready nq ?s" "presence_live nq ?s (Some c')"
    using rdy ok' nq idem presence_cursor_still_live [OF ok'(1) v r c'_def]
    by (simp_all add: presence_ready_def presence_live_def)
  with rd rest show ?thesis by (auto simp: nq presence_page_size_def)
qed

lemma presence_last_page:
  assumes rdy: "presence_ready nq s" and live: "presence_live nq s c"
    and short: "length (presence_rest nq s c) \<le> presence_page_size nq"
  shows "\<exists>s'. presence_read_cursor nq s c = (s', Inr (presence_rest nq s c, None))"
proof (cases "bt_get (ps_channels s) (presence_request_key (snd nq))")
  case None
  with rdy live show ?thesis
    by (cases c) (auto simp: presence_read_cursor_def presence_read_page_def presence_ready_def presence_rest_def
        presence_live_def presence_request_key_def Let_def)
next
  case (Some ch)
  let ?q = "(snd nq)\<lparr>prr_cursor := c\<rparr>" and ?ch = "presence_evict (fst nq) (ps_config s) ch"
  have "prr_limit ?q \<noteq> - 1" "prr_limit ?q \<noteq> 0"
    using rdy by (auto simp: presence_ready_def presence_read_validate_def split: if_splits)
  with short Some have "pp_items (presence_page_of ?q ?ch) = presence_rest nq s c"
    "pp_next_cursor (presence_page_of ?q ?ch) = None"
    by (simp_all add: presence_page_items presence_page_cursor presence_rest_def presence_page_size_def)
  then show ?thesis
    using presence_read_cursor_page [OF rdy live Some] by (simp add: Let_def)
qed

interpretation ppg: cursor_reader presence_read_cursor presence_ready presence_live presence_rest presence_page_size
proof (unfold_locales, goal_cases)
  case (1 q s)
  then show ?case
    by (auto simp: presence_ready_def presence_page_size_def presence_read_validate_def unat_gt_0 split: if_splits)
qed (use presence_last_page presence_inner_page in blast)+


section \<open>Reachable stores\<close>

text \<open>The retained serials are consecutive and end just below the next serial, which is never 0.\<close>

definition presence_gapless :: "memory_presence_channel \<Rightarrow> bool" where
  "presence_gapless ch \<longleftrightarrow>
     length (pch_records ch) < unat (pch_next_serial ch) \<and>
     map (\<lambda>r. unat (par_serial r)) (pch_records ch) =
       [unat (pch_next_serial ch) - length (pch_records ch) ..< unat (pch_next_serial ch)]"

lemma presence_evict_gapless:
  assumes "presence_accounted ch" and "presence_gapless ch"
  shows "presence_gapless (presence_evict now config ch)"
proof -
  obtain n where n: "pch_records (presence_evict now config ch) = drop n (pch_records ch)"
    using presence_evict_facts(4) [OF assms(1)] by blast
  have "map (\<lambda>r. unat (par_serial r)) (drop n (pch_records ch)) =
      drop n [unat (pch_next_serial ch) - length (pch_records ch) ..< unat (pch_next_serial ch)]"
    using assms(2) by (simp add: presence_gapless_def flip: drop_map)
  also have "\<dots> = [unat (pch_next_serial ch) - length (drop n (pch_records ch)) ..< unat (pch_next_serial ch)]"
    using assms(2) by (cases "n \<le> length (pch_records ch)") (auto simp: presence_gapless_def)
  finally show ?thesis
    using assms n presence_evict_facts(2) [OF assms(1)] by (auto simp: presence_gapless_def)
qed

lemma presence_record_channel_gapless:
  assumes ok: "presence_channel_ok ch" and gap: "presence_gapless ch"
    and serial: "pch_next_serial ch \<noteq> - 1" and total: "\<And>p. \<exists>bs. to_vec p = Inr bs"
    and len: "\<And>p bs. to_vec p = Inr bs \<Longrightarrow> total_len par_payload_bytes (pch_records ch) + length bs < 2 ^ 64"
  shows "presence_gapless (fst (presence_record_channel now to_vec config r ch))"
proof -
  let ?ch = "presence_evict now config ch"
  have acc: "presence_accounted ch" using ok by (simp add: presence_channel_ok_def)
  have gap': "presence_gapless ?ch" using acc gap by (rule presence_evict_gapless)
  have serial': "unat (sat_add (pch_next_serial ?ch) 1) = Suc (unat (pch_next_serial ?ch))"
    using serial presence_evict_facts(2) [OF acc] by (simp add: unat_sat_limit_plus_1)
  let ?ch1 = "?ch\<lparr>pch_next_serial := sat_add (pch_next_serial ?ch) 1\<rparr>"
  show ?thesis
  proof (cases "ptr_dedupe_key r \<in> pch_dedupe_keys ?ch \<or>
      bt_get (pch_latest_event_by_user ?ch) (ptr_user_id r) = Some (ptr_event_kind r)")
    case True
    with gap' show ?thesis by (auto simp: presence_record_channel_def Let_def)
  next
    case False
    obtain bs p where bs: "presence_build_payload to_vec (pch_stream_id ?ch1) (pch_next_serial ?ch) r = Inr bs"
      and "to_vec p = Inr bs"
      using total unfolding presence_build_payload_def Let_def by (metis sum.simps(6))
    let ?ch2 = "?ch1\<lparr>pch_retention := Some (ptr_retention r),
            pch_retained_bytes := sat_add (pch_retained_bytes ?ch1) (len64 bs),
            pch_dedupe_keys := insert (ptr_dedupe_key r) (pch_dedupe_keys ?ch1),
            pch_latest_event_by_user :=
              bt_insert (ptr_user_id r) (ptr_event_kind r) (pch_latest_event_by_user ?ch1),
            pch_records := pch_records ?ch1 @
              [\<lparr>par_stream_id = pch_stream_id ?ch1, par_serial = pch_next_serial ?ch,
                par_published_at_ms = ptr_published_at_ms r, par_event = ptr_event_kind r,
                par_cause = ptr_cause r, par_user_id = ptr_user_id r,
                par_connection_id = ptr_connection_id r, par_dead_node_id = ptr_dead_node_id r,
                par_payload_bytes = bs, par_dedupe_key = ptr_dedupe_key r\<rparr>]\<rparr>"
    have "total_len par_payload_bytes (pch_records ?ch) + length bs < 2 ^ 64"
      using len [OF \<open>to_vec p = Inr bs\<close>] presence_evict_facts(4) [OF acc, of now config]
        total_len_drop_le [of par_payload_bytes _ "pch_records ch"]
      by (metis add_le_mono1 le_less_trans)
    then have "presence_accounted ?ch2"
      using presence_evict_facts(5) [OF acc, of now config]
      by (simp add: presence_accounted_def unat_sat_add unat_len64)
    moreover have "presence_gapless ?ch2"
      using gap' by (auto simp: presence_gapless_def serial')
    ultimately have "presence_gapless (presence_evict now config ?ch2)"
      by (rule presence_evict_gapless)
    with False bs show ?thesis by (simp add: presence_record_channel_def Let_def)
  qed
qed

text \<open>
  Steps of the store, for a given payload encoder. The guards are physical: serials are not
  exhausted and a channel holds less than \<open>2 ^ 64\<close> bytes.
\<close>

inductive presence_step ::
    "('v presence_payload \<Rightarrow> string + bytes) \<Rightarrow> memory_presence_store \<Rightarrow> memory_presence_store \<Rightarrow> bool"
  for to_vec where
  record_transition: "ch = presence_entry fresh (presence_channel_key (ptr_app_id r) (ptr_channel r)) s \<Longrightarrow>
     pch_next_serial ch \<noteq> - 1 \<Longrightarrow>
     (\<And>p bs. to_vec p = Inr bs \<Longrightarrow> total_len par_payload_bytes (pch_records ch) + length bs < 2 ^ 64) \<Longrightarrow>
     presence_step to_vec s (fst (presence_record_transition now fresh to_vec r s))"
| read_page: "presence_step to_vec s (fst (presence_read_page now q s))"
| runtime_state: "presence_step to_vec s (fst (presence_stream_runtime_state_op now fresh app_id channel s))"
| inspection: "presence_step to_vec s (fst (presence_stream_inspection_op now fresh app_id channel s))"
| reset_stream: "presence_step to_vec s (fst (presence_reset_stream fresh fresh' app_id channel s))"

inductive presence_reachable ::
    "('v presence_payload \<Rightarrow> string + bytes) \<Rightarrow> memory_presence_config \<Rightarrow> memory_presence_store \<Rightarrow> bool"
  for to_vec config where
  initial: "presence_reachable to_vec config (presence_store_new config)"
| then_step: "presence_reachable to_vec config s \<Longrightarrow> presence_step to_vec s s' \<Longrightarrow> presence_reachable to_vec config s'"

definition presence_channel_inv :: "memory_presence_channel \<Rightarrow> bool" where
  "presence_channel_inv ch \<longleftrightarrow> presence_channel_ok ch \<and> presence_gapless ch"

definition presence_store_inv :: "memory_presence_store \<Rightarrow> bool" where
  "presence_store_inv s \<longleftrightarrow> (\<forall>k ch. bt_get (ps_channels s) k = Some ch \<longrightarrow> presence_channel_inv ch)"

lemma presence_default_inv [simp]: "presence_channel_inv (presence_channel_default fresh)"
  by (simp add: presence_channel_inv_def presence_gapless_def presence_channel_default_ok)
    (simp add: presence_channel_default_def)

lemma presence_put_inv: "presence_store_inv s \<Longrightarrow> presence_channel_inv ch \<Longrightarrow> presence_store_inv (presence_put key ch s)"
  by (simp add: presence_store_inv_def)

lemma presence_entry_inv: "presence_store_inv s \<Longrightarrow> presence_channel_inv (presence_entry fresh key s)"
  by (simp add: presence_entry_def presence_store_inv_def split: option.splits)

lemma presence_evict_inv: "presence_channel_inv ch \<Longrightarrow> presence_channel_inv (presence_evict now config ch)"
  by (simp add: presence_channel_inv_def presence_evict_ok presence_evict_gapless presence_channel_ok_def
      presence_evict_facts)
    (metis presence_channel_ok_def presence_evict_ok)

lemma presence_step_inv:
  assumes total: "\<And>p. \<exists>bs. to_vec p = Inr bs"
  shows "presence_step to_vec s s' \<Longrightarrow> presence_store_inv s \<Longrightarrow> presence_store_inv s'"
proof (induction rule: presence_step.induct)
  case (record_transition ch fresh r s now)
  then have "presence_channel_inv ch" by (simp add: presence_entry_inv)
  then have "presence_channel_inv (fst (presence_record_channel now to_vec (ps_config s) r ch))"
    using record_transition total unfolding presence_channel_inv_def
    by (intro conjI presence_record_channel_ok presence_record_channel_gapless) auto
  with record_transition show ?case
    by (auto simp: presence_record_transition_def Let_def split: prod.splits intro: presence_put_inv)
next
  case (read_page s now q)
  then show ?case
    by (auto simp: presence_read_page_def Let_def presence_store_inv_def split: sum.splits option.splits
        intro: presence_evict_inv)
next
  case (runtime_state s now fresh app_id channel)
  then show ?case
    by (simp add: presence_stream_runtime_state_op_def Let_def presence_put_inv presence_evict_inv presence_entry_inv)
next
  case (inspection s now fresh app_id channel)
  then show ?case
    by (simp add: presence_stream_inspection_op_def Let_def presence_put_inv presence_evict_inv presence_entry_inv)
next
  case (reset_stream s fresh fresh' app_id channel)
  then show ?case
    by (auto simp: presence_reset_stream_def Let_def presence_channel_inv_def presence_ok_defs presence_gapless_def
        intro!: presence_put_inv)
qed

lemma presence_reachable_inv:
  assumes "\<And>p. \<exists>bs. to_vec p = Inr bs" and "presence_reachable to_vec config s"
  shows "presence_store_inv s"
  using assms(2)
proof (induction rule: presence_reachable.induct)
  case initial
  then show ?case by (simp add: presence_store_inv_def presence_store_new_def)
next
  case (then_step s s')
  then show ?case using presence_step_inv [of to_vec s s'] assms(1) by blast
qed

section \<open>Snapshots replay the pages\<close>

lemma snapshot_items_append:
  "snapshot_items adj (xs @ ys) st =
     (case snapshot_items adj xs st of Inl e \<Rightarrow> Inl e | Inr st' \<Rightarrow> snapshot_items adj ys st')"
  by (induction xs arbitrary: st) (auto split: sum.splits)

lemma snapshot_apply_frame [simp]:
  "ss_previous_serial (snapshot_apply i st) = ss_previous_serial st"
  "ss_stream_id (snapshot_apply i st) = ss_stream_id st"
  "ss_first_serial (snapshot_apply i st) = ss_first_serial st"
  by (auto simp: snapshot_apply_def split: presence_event_kind.splits option.splits)

lemma snapshot_item_Inr:
  assumes "snapshot_item adj i st = Inr st'"
  shows "ss_previous_serial st' = Some (pit_serial i)" and "ss_stream_id st' = Some (pit_stream_id i)"
    and "ss_first_serial st' = get_or_insert (pit_serial i) (ss_first_serial st)"
  using assms by (auto simp: snapshot_item_def get_or_insert_def Let_def split: if_splits option.splits)

lemma snapshot_items_last:
  assumes "snapshot_items adj is st = Inr st'" and "is \<noteq> []"
  shows "ss_previous_serial st' = Some (pit_serial (last is))" and "ss_stream_id st' = Some (pit_stream_id (last is))"
proof -
  have split: "is = butlast is @ [last is]" using assms(2) by simp
  obtain st0 where "snapshot_item adj (last is) st0 = Inr st'"
    using assms(1) unfolding split [THEN arg_cong, of "\<lambda>is. snapshot_items adj is st"] snapshot_items_append
    by (auto split: sum.splits)
  from snapshot_item_Inr [OF this] show "ss_previous_serial st' = Some (pit_serial (last is))"
    and "ss_stream_id st' = Some (pit_stream_id (last is))" by simp_all
qed

definition snapshot_query :: "i64 \<Rightarrow> presence_snapshot_request \<Rightarrow> i64 \<times> presence_read_request" where
  "snapshot_query now r = (now, snapshot_page_request r None)"

definition presence_reader ::
    "i64 \<Rightarrow> memory_presence_store \<Rightarrow> presence_read_request \<Rightarrow> memory_presence_store \<times> presence_page result" where
  "presence_reader now s q = presence_read_page now q s"

lemma snapshot_page_request_cursor: "(snapshot_page_request r None)\<lparr>prr_cursor := c\<rparr> = snapshot_page_request r c"
  by (simp add: snapshot_page_request_def)

lemma presence_page_flags:
  assumes "prr_limit q \<noteq> - 1"
    and "rs = filter (presence_matcher q) (presence_order (prr_direction q) (pch_records ch))"
  shows "pp_has_more (presence_page_of q ch) \<longleftrightarrow> unat (prr_limit q) < length rs"
    and "pp_retained (presence_page_of q ch) = presence_retained_from_channel ch"
    and "pp_truncated_by_retention (presence_page_of q ch) =
      presence_is_truncated_by_retention (prr_bounds q) (presence_retained_from_channel ch)"
    and "pp_complete (presence_page_of q ch) \<longleftrightarrow> \<not> pp_has_more (presence_page_of q ch) \<and>
      \<not> pp_truncated_by_retention (presence_page_of q ch)"
  using unat_sat_limit_plus_1 [OF assms(1)] assms(2)
  by (auto simp: presence_page_of_def Let_def presence_order_def min_def)

lemma snapshot_query_simps [simp]:
  "fst (snapshot_query now r) = now" "snd (snapshot_query now r) = snapshot_page_request r None"
  "prr_limit (snapshot_page_request r c) = 1000" "prr_direction (snapshot_page_request r c) = POldestFirst"
  "prr_bounds (snapshot_page_request r c) = snapshot_bounds r"
  "prr_app_id (snapshot_page_request r c) = psr_app_id r" "prr_channel (snapshot_page_request r c) = psr_channel r"
  "prr_cursor (snapshot_page_request r c) = c"
  by (simp_all add: snapshot_query_def snapshot_page_request_def)

text \<open>
  What the loop reads next: the page at hand, and the store with the channel evicted.
\<close>

lemma snapshot_read:
  assumes rdy: "presence_ready (snapshot_query now r) s" and live: "presence_live (snapshot_query now r) s c"
    and ch: "bt_get (ps_channels s) (presence_channel_key (psr_app_id r) (psr_channel r)) = Some ch"
  defines "ch' \<equiv> presence_evict now (ps_config s) ch"
  shows "presence_reader now s (snapshot_page_request r c) =
    (presence_put (presence_channel_key (psr_app_id r) (psr_channel r)) ch' s, Inr (presence_page_of (snapshot_page_request r c) ch'))"
proof -
  have "presence_read_validate (snapshot_page_request r c) = Inr ()"
    using rdy live
    by (cases c) (simp_all add: presence_ready_def presence_live_def snapshot_page_request_cursor)
  moreover have "presence_cursor_check (snapshot_page_request r c) ch' = Inr ()"
    using live ch unfolding ch'_def
    by (cases c) (simp_all add: presence_live_def presence_cursor_check_def [of "snapshot_page_request r None"]
        snapshot_page_request_cursor presence_request_key_def)
  ultimately show ?thesis
    using ch by (simp add: presence_reader_def presence_read_page_def Let_def ch'_def)
qed

lemma snapshot_full_page:
  assumes rdy: "presence_ready (snapshot_query now r) s" and live: "presence_live (snapshot_query now r) s c"
    and ch: "bt_get (ps_channels s) (presence_channel_key (psr_app_id r) (psr_channel r)) = Some ch"
    and long: "1000 < length (presence_rest (snapshot_query now r) s c)"
  defines "ch' \<equiv> presence_evict now (ps_config s) ch"
  defines "s' \<equiv> presence_put (presence_channel_key (psr_app_id r) (psr_channel r)) ch' s"
  defines "page \<equiv> presence_page_of (snapshot_page_request r c) ch'"
  obtains c' where "pp_has_more page" and "pp_next_cursor page = Some c'"
    and "pp_items page = take 1000 (presence_rest (snapshot_query now r) s c)"
    and "presence_ready (snapshot_query now r) s'" and "presence_live (snapshot_query now r) s' (Some c')"
    and "presence_rest (snapshot_query now r) s' (Some c') = drop 1000 (presence_rest (snapshot_query now r) s c)"
    and "\<And>st st'. snapshot_items adj (pp_items page) st = Inr st' \<Longrightarrow> snapshot_cursor_advanced r page st' c'"
proof -
  let ?nq = "snapshot_query now r"
  have size: "presence_page_size ?nq = 1000" by (simp add: presence_page_size_def)
  from presence_inner_page [OF rdy live] long size obtain s1 c' where
    rd: "presence_read_cursor ?nq s c = (s1, Inr (take 1000 (presence_rest ?nq s c), Some c'))"
    and next': "presence_ready ?nq s1" "presence_live ?nq s1 (Some c')"
      "presence_rest ?nq s1 (Some c') = drop 1000 (presence_rest ?nq s c)" by auto
  have key: "bt_get (ps_channels s) (presence_request_key (snd ?nq)) = Some ch"
    using ch by (simp add: presence_request_key_def)
  from presence_read_cursor_page [OF rdy live key] rd have
    s1: "s1 = s'" and items: "pp_items page = take 1000 (presence_rest ?nq s c)"
    and cur: "pp_next_cursor page = Some c'"
    by (simp_all add: Let_def s'_def page_def ch'_def presence_request_key_def snapshot_page_request_cursor)
  let ?rs = "filter (presence_matcher (snapshot_page_request r c)) (presence_order POldestFirst (pch_records ch'))"
  have rest: "presence_rest ?nq s c = map presence_item_of ?rs"
    using key by (simp add: presence_rest_def snapshot_page_request_cursor ch'_def)
  have more: "pp_has_more page"
    using presence_page_flags(1) [of "snapshot_page_request r c" _ ch'] long by (simp add: page_def rest)
  have c': "c' = \<lparr>pcur_version = 1, pcur_app_id = psr_app_id r, pcur_channel = psr_channel r,
      pcur_stream_id = par_stream_id (?rs ! 999), pcur_serial = par_serial (?rs ! 999),
      pcur_direction = POldestFirst, pcur_bounds = snapshot_bounds r\<rparr>"
    using cur presence_page_cursor [of "snapshot_page_request r c" ?rs ch'] long
    by (simp add: page_def rest)
  have last: "last (take 1000 (presence_rest ?nq s c)) = presence_item_of (?rs ! 999)"
    using long last_take_nth [of 1000 "presence_rest ?nq s c"] by (simp add: rest)
  have "snapshot_cursor_advanced r page st' c'" if "snapshot_items adj (pp_items page) st = Inr st'" for st st'
  proof -
    have "pp_items page \<noteq> []" using long items by auto
    from snapshot_items_last [OF that this] this show ?thesis
      by (simp add: snapshot_cursor_advanced_def items last c' presence_item_of_def)
  qed
  with more cur items next' s1 that show thesis by blast
qed

lemma snapshot_loop_replays:
  assumes "presence_ready (snapshot_query now r) s" and "presence_live (snapshot_query now r) s c"
    and "bt_get (ps_channels s) (presence_channel_key (psr_app_id r) (psr_channel r)) = Some ch"
    and "length (presence_rest (snapshot_query now r) s c) < n"
  shows "\<exists>s' page. snapshot_loop n (presence_reader now) r c st s =
      Some (s', case snapshot_items (psr_at_time_ms r = None) (presence_rest (snapshot_query now r) s c) st of
                  Inl e \<Rightarrow> Inl e | Inr st' \<Rightarrow> Inr (st', page)) \<and>
    pp_retained page = presence_retained_from_channel (presence_evict now (ps_config s) ch) \<and>
    pp_truncated_by_retention page = presence_is_truncated_by_retention (snapshot_bounds r) (pp_retained page) \<and>
    pp_complete page = (\<not> pp_truncated_by_retention page)"
  using assms
proof (induction n arbitrary: s c st ch)
  case (Suc n)
  let ?nq = "snapshot_query now r" and ?ch = "presence_evict now (ps_config s) ch"
  let ?s = "presence_put (presence_channel_key (psr_app_id r) (psr_channel r)) ?ch s"
  let ?page = "presence_page_of (snapshot_page_request r c) ?ch"
  let ?adj = "psr_at_time_ms r = None"
  note read = snapshot_read [OF Suc.prems(1-3)]
  have rest: "presence_rest ?nq s c =
      map presence_item_of (filter (presence_matcher (snapshot_page_request r c)) (presence_order POldestFirst (pch_records ?ch)))"
    using Suc.prems(3) by (simp add: presence_rest_def presence_request_key_def snapshot_page_request_cursor)
  note flags = presence_page_flags [of "snapshot_page_request r c" _ ?ch, OF _ refl, simplified]
  show ?case
  proof (cases "1000 < length (presence_rest ?nq s c)")
    case False
    then have "\<not> pp_has_more ?page" "pp_items ?page = presence_rest ?nq s c"
      using flags(1) presence_page_items [of "snapshot_page_request r c" ?ch] by (simp_all add: rest)
    with read flags(2-4) show ?thesis
      by (intro exI [of _ ?s] exI [of _ ?page]) (simp split: sum.splits)
  next
    case True
    from snapshot_full_page [OF Suc.prems(1-3) True] obtain c' where
      page: "pp_has_more ?page" "pp_next_cursor ?page = Some c'"
        "pp_items ?page = take 1000 (presence_rest ?nq s c)"
      and next': "presence_ready ?nq ?s" "presence_live ?nq ?s (Some c')"
        "presence_rest ?nq ?s (Some c') = drop 1000 (presence_rest ?nq s c)"
      and adv: "\<And>st st'. snapshot_items ?adj (pp_items ?page) st = Inr st' \<Longrightarrow> snapshot_cursor_advanced r ?page st' c'"
      by blast
    have ok: "presence_accounted ch" "presence_times_sorted ch"
      using Suc.prems(1,3) by (simp_all add: presence_ready_def presence_request_key_def presence_channel_ok_def)
    have get: "bt_get (ps_channels ?s) (presence_channel_key (psr_app_id r) (psr_channel r)) = Some ?ch" by simp
    have "length (presence_rest ?nq ?s (Some c')) < n" using next'(3) Suc.prems(4) True by simp
    note IH = Suc.IH [OF next'(1,2) get this, unfolded presence_put_config presence_evict_idem [OF ok]]
    have split: "presence_rest ?nq s c = pp_items ?page @ presence_rest ?nq ?s (Some c')"
      using page(3) next'(3) by simp
    show ?thesis
    proof (cases "snapshot_items ?adj (pp_items ?page) st")
      case (Inl e)
      obtain page :: presence_page where
        "pp_retained page = presence_retained_from_channel ?ch"
        "pp_truncated_by_retention page = presence_is_truncated_by_retention (snapshot_bounds r) (pp_retained page)"
        "pp_complete page = (\<not> pp_truncated_by_retention page)"
        using IH [of st] by blast
      with Inl read show ?thesis
        by (intro exI [of _ ?s] exI [of _ page]) (simp add: split snapshot_items_append)
    next
      case (Inr st')
      with IH [of st'] read page(1,2) adv [OF Inr] show ?thesis
        by (simp add: split snapshot_items_append)
    qed
  qed
qed simp


section \<open>Who is a member\<close>

text \<open>A user is a member after some events iff the last join or leave among them is a join.\<close>

definition snapshot_present :: "presence_item list \<Rightarrow> string \<Rightarrow> bool" where
  "snapshot_present is u \<longleftrightarrow>
     (case find (\<lambda>i. pit_user_id i = u \<and> pit_event i \<noteq> MemberUpdated) (rev is) of
        None \<Rightarrow> False | Some i \<Rightarrow> pit_event i = MemberAdded)"

lemma snapshot_present_simps:
  "\<not> snapshot_present [] u"
  "snapshot_present (is @ [i]) u \<longleftrightarrow>
     (if pit_user_id i = u \<and> pit_event i \<noteq> MemberUpdated then pit_event i = MemberAdded else snapshot_present is u)"
  by (auto simp: snapshot_present_def)

lemma snapshot_item_members:
  assumes "snapshot_item adj i st = Inr st'"
  shows "ss_members st' = ss_members (snapshot_apply i st)"
  using assms
  by (auto simp: snapshot_item_def snapshot_apply_def Let_def
      split: if_splits option.splits presence_event_kind.splits)

lemma snapshot_apply_members:
  "(\<exists>m. bt_get (ss_members (snapshot_apply i st)) u = Some m) \<longleftrightarrow>
     (if pit_user_id i = u \<and> pit_event i \<noteq> MemberUpdated then pit_event i = MemberAdded
      else \<exists>m. bt_get (ss_members st) u = Some m)"
  by (cases "pit_event i") (auto simp: snapshot_apply_def bt.get_put bt.get_del split: option.splits)

lemma bt_get_member_id:
  "\<forall>p \<in> set m. psm_user_id (snd p) = fst p \<Longrightarrow> bt_get m u = Some x \<Longrightarrow> psm_user_id x = u"
  by (drule bt_get_SomeD) auto

lemma snapshot_apply_wf:
  assumes "bt_wf (ss_members st)" and "\<forall>p \<in> set (ss_members st). psm_user_id (snd p) = fst p"
  shows "bt_wf (ss_members (snapshot_apply i st))"
    and "\<forall>p \<in> set (ss_members (snapshot_apply i st)). psm_user_id (snd p) = fst p"
  using assms
  by (auto simp: snapshot_apply_def bt_set_insert bt_set_remove snapshot_member_of_def
      split: presence_event_kind.splits option.splits dest: bt_get_member_id)

lemma snapshot_items_members:
  assumes "snapshot_items adj is snapshot_state_init = Inr st"
  shows "(\<forall>u. (\<exists>m. bt_get (ss_members st) u = Some m) = snapshot_present is u) \<and> bt_wf (ss_members st) \<and>
    (\<forall>p \<in> set (ss_members st). psm_user_id (snd p) = fst p)"
  using assms
proof (induction "is" arbitrary: st rule: rev_induct)
  case Nil
  then show ?case by (auto simp: snapshot_state_init_def snapshot_present_simps)
next
  case (snoc i "is")
  then obtain st0 where st0: "snapshot_items adj is snapshot_state_init = Inr st0" "snapshot_item adj i st0 = Inr st"
    by (auto simp: snapshot_items_append split: sum.splits)
  from snoc.IH [OF st0(1)] snapshot_item_members [OF st0(2)] snapshot_apply_wf [of st0 i] show ?case
    by (auto simp: snapshot_apply_members snapshot_present_simps)
qed

lemma bt_values_members:
  assumes "bt_wf m" and "\<forall>p \<in> set m. psm_user_id (snd p) = fst p"
  shows "psm_user_id ` set (bt_values m) = {u. \<exists>x. bt_get m u = Some x}"
  using assms by (force simp: bt_values_def bt_get_iff)

text \<open>Over consecutive serials of one stream the replay does not fail.\<close>

fun adjacent_items :: "presence_item list \<Rightarrow> bool" where
  "adjacent_items (i # j # is) \<longleftrightarrow>
     unat (pit_serial j) = Suc (unat (pit_serial i)) \<and> pit_stream_id i = pit_stream_id j \<and> adjacent_items (j # is)"
| "adjacent_items _ \<longleftrightarrow> True"

lemma snapshot_items_adjacent:
  assumes "adjacent_items is"
    and "is \<noteq> [] \<Longrightarrow> ss_stream_id st \<in> {None, Some (pit_stream_id (hd is))} \<and>
      (case ss_previous_serial st of None \<Rightarrow> True | Some p \<Rightarrow> unat (pit_serial (hd is)) = Suc (unat p))"
  shows "\<exists>st'. snapshot_items adj is st = Inr st' \<and>
    ss_first_serial st' = (if is = [] then ss_first_serial st else get_or_insert (pit_serial (hd is)) (ss_first_serial st))"
  using assms
proof (induction "is" arbitrary: st)
  case (Cons i "is")
  have succ: "unat b = Suc (unat a) \<Longrightarrow> \<not> b \<le> a \<and> sat_add a 1 = b" for a b :: u64
    using unat_u64_less [of b] by (simp add: u64_le_iff u64_eq_iff unat_sat_add)
  obtain st1 where st1: "snapshot_item adj i st = Inr st1"
    using Cons.prems(2) by (auto simp: snapshot_item_def Let_def dest: succ split: option.splits)
  have "adjacent_items is" using Cons.prems(1) by (cases "is") simp_all
  moreover have "is \<noteq> [] \<Longrightarrow> ss_stream_id st1 \<in> {None, Some (pit_stream_id (hd is))} \<and>
      (case ss_previous_serial st1 of None \<Rightarrow> True | Some p \<Rightarrow> unat (pit_serial (hd is)) = Suc (unat p))"
    using Cons.prems(1) snapshot_item_Inr [OF st1] by (cases "is") simp_all
  ultimately show ?case
    using Cons.IH [of st1] st1 snapshot_item_Inr(3) [OF st1]
    by (auto simp: get_or_insert_def split: option.splits)
qed simp


lemma adjacent_items_upt:
  assumes "map (\<lambda>i. unat (pit_serial i)) is = [a..<b]" and "\<forall>i \<in> set is. pit_stream_id i = sid"
  shows "adjacent_items is"
  using assms
proof (induction "is" arbitrary: a rule: adjacent_items.induct)
  case (1 i j "is")
  have "a < b" using "1.prems"(1) by (cases "a < b") simp_all
  with "1.prems"(1) have a: "unat (pit_serial i) = a" "map (\<lambda>i. unat (pit_serial i)) (j # is) = [Suc a..<b]"
    by (simp_all add: upt_conv_Cons [of a])
  have "Suc a < b" using a(2) by (cases "Suc a < b") simp_all
  with a(2) have "unat (pit_serial j) = Suc a" by (simp add: upt_conv_Cons [of "Suc a"])
  moreover have "adjacent_items (j # is)"
    by (rule "1.IH" [OF a(2)]) (use "1.prems"(2) in simp)
  ultimately show ?case using a(1) "1.prems"(2) by simp
qed simp_all

lemma filter_le_upt: "filter (\<lambda>x. x \<le> e) [a..<b] = [a..<min b (Suc e)]"
proof (induction b)
  case (Suc b)
  then show ?case by (cases "b \<le> e"; cases "b = Suc e") (simp_all add: min_def not_le)
qed simp

lemma presence_bounded_serials:
  assumes "presence_gapless ch" and "psr_at_time_ms r = None"
  defines "rs \<equiv> filter (\<lambda>r'. presence_in_bounds (snapshot_bounds r) (par_serial r') (par_published_at_ms r')) (pch_records ch)"
  shows "\<exists>b. map (\<lambda>r. unat (par_serial r)) rs = [unat (pch_next_serial ch) - length (pch_records ch)..<b]"
proof (cases "psr_at_serial r")
  case None
  then have "rs = pch_records ch"
    using assms(2) by (simp add: rs_def snapshot_bounds_def presence_in_bounds_def)
  with assms(1) show ?thesis by (auto simp: presence_gapless_def)
next
  case (Some e)
  have "rs = filter (\<lambda>r'. unat (par_serial r') \<le> unat e) (pch_records ch)"
    unfolding rs_def using Some assms(2)
    by (intro filter_cong) (simp_all add: snapshot_bounds_def presence_in_bounds_def u64_le_iff)
  then have "map (\<lambda>r. unat (par_serial r)) rs = filter (\<lambda>x. x \<le> unat e) (map (\<lambda>r. unat (par_serial r)) (pch_records ch))"
    by (simp add: filter_map comp_def)
  with assms(1) show ?thesis by (auto simp: presence_gapless_def filter_le_upt)
qed

lemma presence_untruncated_first:
  assumes "presence_gapless ch"
    and "map (\<lambda>r. unat (par_serial r)) (x # xs) = [unat (pch_next_serial ch) - length (pch_records ch)..<b]"
    and "set (x # xs) \<subseteq> set (pch_records ch)"
    and "\<not> presence_is_truncated_by_retention (snapshot_bounds r) (presence_retained_from_channel ch)"
  shows "par_serial x = 1"
proof -
  let ?a = "unat (pch_next_serial ch) - length (pch_records ch)"
  have "unat (par_serial x) = ?a"
    using assms(2) by (cases "?a < b") (auto simp: upt_conv_Cons)
  moreover obtain y ys where y: "pch_records ch = y # ys" using assms(3) by (cases "pch_records ch") auto
  moreover have "unat (par_serial y) = ?a" "0 < ?a"
    using assms(1) y by (auto simp: presence_gapless_def upt_conv_Cons)
  moreover have "\<not> 1 < par_serial y"
    using assms(4) y
    by (simp add: presence_is_truncated_by_retention_def presence_retained_from_channel_def snapshot_bounds_def opt_gt_def)
  ultimately show ?thesis by (simp add: u64_less_iff u64_eq_iff)
qed

text \<open>Replaying the retained events within the bounds meets no gap, and starts at the first event of the stream
  unless the retention has cut it off.\<close>

lemma presence_snapshot_replay:
  assumes inv: "presence_channel_inv ch" and now': "psr_at_time_ms r = None"
  defines "rs \<equiv> filter (\<lambda>r'. presence_in_bounds (snapshot_bounds r) (par_serial r') (par_published_at_ms r')) (pch_records ch)"
  shows "\<exists>st. snapshot_items True (map presence_item_of rs) snapshot_state_init = Inr st \<and>
    (\<not> presence_is_truncated_by_retention (snapshot_bounds r) (presence_retained_from_channel ch) \<longrightarrow>
      ss_first_serial st \<in> {None, Some 1})"
proof -
  obtain b where b: "map (\<lambda>r. unat (par_serial r)) rs = [unat (pch_next_serial ch) - length (pch_records ch)..<b]"
    using presence_bounded_serials [OF _ now'] inv unfolding presence_channel_inv_def rs_def by blast
  have sub: "set rs \<subseteq> set (pch_records ch)" by (auto simp: rs_def)
  have "adjacent_items (map presence_item_of rs)"
    using b inv sub by (intro adjacent_items_upt [where sid = "pch_stream_id ch"])
      (auto simp: presence_item_of_def comp_def presence_channel_inv_def presence_ok_defs)
  from snapshot_items_adjacent [OF this, of snapshot_state_init True] obtain st where
    st: "snapshot_items True (map presence_item_of rs) snapshot_state_init = Inr st"
      "ss_first_serial st = (if rs = [] then None else Some (par_serial (hd rs)))"
    by (auto simp: snapshot_state_init_def get_or_insert_def hd_map presence_item_of_def)
  have "ss_first_serial st \<in> {None, Some 1}"
    if "\<not> presence_is_truncated_by_retention (snapshot_bounds r) (presence_retained_from_channel ch)"
  proof (cases rs)
    case (Cons x xs)
    with presence_untruncated_first [of ch x xs b r] b that inv sub st(2) show ?thesis
      by (simp add: presence_channel_inv_def)
  qed (use st(2) in simp)
  with st(1) show ?thesis by blast
qed

section \<open>Properties\<close>



definition presence_demo_policy :: presence_retention_policy where
  "presence_demo_policy =
     \<lparr>prp_retention_window_seconds = 60, prp_max_events_per_channel = Some 2, prp_max_bytes_per_channel = None\<rparr>"

definition presence_demo_transition :: "presence_event_kind \<Rightarrow> string \<Rightarrow> string \<Rightarrow> nat presence_transition_record" where
  "presence_demo_transition kind user key =
     \<lparr>ptr_app_id = ''app'', ptr_channel = ''room'', ptr_event_kind = kind, ptr_cause = Join,
      ptr_user_id = user, ptr_connection_id = None, ptr_user_info = None, ptr_dead_node_id = None,
      ptr_dedupe_key = key, ptr_published_at_ms = 1000, ptr_retention = presence_demo_policy\<rparr>"

definition presence_demo_config :: memory_presence_config where
  "presence_demo_config =
     \<lparr>pcfg_retention_window = 60, pcfg_max_events_per_channel = None, pcfg_max_bytes_per_channel = None\<rparr>"

definition presence_demo_encoder :: "nat presence_payload \<Rightarrow> string + bytes" where
  "presence_demo_encoder p = Inr [1, 2, 3]"

definition presence_demo_store :: memory_presence_store where
  "presence_demo_store =
     fst (presence_record_transition 1000 ''s'' presence_demo_encoder (presence_demo_transition MemberAdded ''ann'' ''k1'')
       (presence_store_new presence_demo_config))"

lemma presence_demo_reachable: "presence_reachable presence_demo_encoder presence_demo_config presence_demo_store"
proof (rule presence_reachable.then_step [OF presence_reachable.initial])
  show "presence_step presence_demo_encoder (presence_store_new presence_demo_config) presence_demo_store"
    unfolding presence_demo_store_def
  proof (rule presence_step.record_transition [OF refl])
    show "total_len par_payload_bytes (pch_records (presence_entry ''s''
        (presence_channel_key (ptr_app_id (presence_demo_transition MemberAdded ''ann'' ''k1''))
          (ptr_channel (presence_demo_transition MemberAdded ''ann'' ''k1''))) (presence_store_new presence_demo_config))) +
        length bs < 2 ^ 64" if "presence_demo_encoder p = Inr bs" for p bs
      using that by (auto simp: presence_entry_def presence_store_new_def presence_channel_default_def presence_demo_encoder_def)
  qed (simp add: presence_entry_def presence_store_new_def presence_channel_default_def)
qed

lemma presence_demo_channel:
  obtains ch where "bt_get (ps_channels presence_demo_store) (presence_channel_key ''app'' ''room'') = Some ch"
    and "presence_channel_inv ch" and "presence_times_sorted ch" and "length (pch_records ch) = 1"
proof -
  obtain ch where ch: "bt_get (ps_channels presence_demo_store) (presence_channel_key ''app'' ''room'') = Some ch"
    by (cases "presence_record_channel 1000 presence_demo_encoder presence_demo_config
          (presence_demo_transition MemberAdded ''ann'' ''k1'') (presence_channel_default ''s'')")
      (auto simp: presence_demo_store_def presence_record_transition_def Let_def presence_demo_transition_def
        presence_store_new_def presence_entry_def)
  have "presence_channel_inv ch"
    using presence_reachable_inv [OF _ presence_demo_reachable] ch
    by (simp add: presence_store_inv_def presence_demo_encoder_def)
  moreover have "length (pch_records (the (bt_get (ps_channels presence_demo_store) (presence_channel_key ''app'' ''room'')))) = 1"
    by code_simp
  then have "length (pch_records ch) = 1" using ch by simp
  moreover from this have "presence_times_sorted ch"
    by (auto simp: presence_times_sorted_def length_Suc_conv)
  ultimately show thesis using that ch by blast
qed


text \<open>C15: In every reachable store, with an encoder that encodes every payload, each presence channel
  has consecutive serials that end below the next one, distinct dedupe keys of which the key set
  is exactly the retained ones, a latest-event index that agrees with the retained records, no
  two consecutive events of a user of the same kind, and a byte counter equal to the retained
  bytes.\<close>

theorem presence_reachable_channel:
  assumes "\<And>p. \<exists>bs. to_vec p = Inr bs" and "presence_reachable to_vec config s"
    and "bt_get (ps_channels s) k = Some ch"
  shows "map (\<lambda>r. unat (par_serial r)) (pch_records ch) =
      [unat (pch_next_serial ch) - length (pch_records ch) ..< unat (pch_next_serial ch)] \<and>
    distinct (map par_dedupe_key (pch_records ch)) \<and>
    pch_dedupe_keys ch = par_dedupe_key ` set (pch_records ch) \<and>
    (\<forall>u. bt_get (pch_latest_event_by_user ch) u = presence_latest (pch_records ch) u) \<and>
    presence_edges (pch_records ch) \<and>
    unat (pch_retained_bytes ch) = total_len par_payload_bytes (pch_records ch)"
  using presence_reachable_inv [of to_vec config s] assms
  by (auto simp: presence_store_inv_def presence_channel_inv_def presence_ok_defs presence_gapless_def)

theorem presence_reachable_channel_witness:
  "\<exists>ch. bt_get (ps_channels presence_demo_store) (presence_channel_key ''app'' ''room'') = Some ch \<and>
     presence_edges (pch_records ch) \<and> pch_dedupe_keys ch = par_dedupe_key ` set (pch_records ch)"
proof -
  obtain ch where ch: "bt_get (ps_channels presence_demo_store) (presence_channel_key ''app'' ''room'') = Some ch"
    by (rule presence_demo_channel)
  from presence_reachable_channel [OF _ presence_demo_reachable ch] ch show ?thesis
    by (simp add: presence_demo_encoder_def)
qed

text \<open>A member update is not recorded when the latest retained event of the user is already an
  update, whatever the new data and whatever the dedupe key: the store only evicts and reports
  success, so of consecutive updates of a member the history keeps the first.\<close>

theorem presence_repeated_update_dropped:
  assumes "presence_channel_ok ch" and "ptr_event_kind r = MemberUpdated"
    and "presence_latest (pch_records (presence_evict now config ch)) (ptr_user_id r) = Some MemberUpdated"
  shows "presence_record_channel now to_vec config r ch = (presence_evict now config ch, Inr ())"
  using presence_evict_ok [OF assms(1), of now config] assms(2,3)
  by (simp add: presence_record_channel_def Let_def presence_ok_defs)

theorem presence_repeated_update_dropped_witness:
  "\<exists>ch. presence_record_channel 1000 presence_demo_encoder presence_demo_config
      (presence_demo_transition MemberUpdated ''ann'' ''k9'') ch =
    (presence_evict 1000 presence_demo_config ch, Inr ()) \<and> pch_records ch \<noteq> []"
proof -
  let ?rec = "\<lambda>k key ch. fst (presence_record_channel 1000 presence_demo_encoder presence_demo_config
      (presence_demo_transition k ''ann'' key) ch)"
  let ?ch = "?rec MemberUpdated ''k2'' (presence_channel_default ''s'')"
  have "presence_channel_ok ?ch"
    by (rule presence_record_channel_ok)
      (auto simp: presence_channel_default_def presence_demo_encoder_def intro: presence_channel_default_ok [unfolded presence_channel_default_def])
  moreover have "presence_latest (pch_records (presence_evict 1000 presence_demo_config ?ch)) ''ann'' = Some MemberUpdated"
    and "pch_records ?ch \<noteq> []"
    by code_simp+
  ultimately show ?thesis
    using presence_repeated_update_dropped [of ?ch "presence_demo_transition MemberUpdated ''ann'' ''k9''" 1000 presence_demo_config presence_demo_encoder]
    by (auto simp: presence_demo_transition_def)
qed

end
