(* ===== verification/Presence_Filter.thy ===== *)
theory Presence_Filter
  imports Presence_History
begin

text \<open>
  Filtered reads of the presence history (\<^verbatim>\<open>sockudo-core/src/presence_history\<close>, \<^verbatim>\<open>types.rs\<close> and
  \<^verbatim>\<open>store.rs\<close>): a page of the events of one user or connection, found by scanning unfiltered pages within a
  budget. The scan is defined over any page reader, as the default method of the store trait is.
\<close>

section \<open>The scan\<close>

record presence_filter =
  pf_user_id :: "string option"
  pf_connection_id :: "string option"

definition presence_filter_matches :: "presence_filter \<Rightarrow> presence_item \<Rightarrow> bool" where
  "presence_filter_matches f i \<longleftrightarrow>
     (case pf_user_id f of None \<Rightarrow> True | Some user_id \<Rightarrow> pit_user_id i = user_id) \<and>
     (case pf_connection_id f of None \<Rightarrow> True | Some connection_id \<Rightarrow> pit_connection_id i = Some connection_id)"

definition presence_filter_is_empty :: "presence_filter \<Rightarrow> bool" where
  "presence_filter_is_empty f \<longleftrightarrow> pf_user_id f = None \<and> pf_connection_id f = None"

definition scan_budget :: "usize \<Rightarrow> nat" where
  "scan_budget limit = min (max (unat (sat_mul limit 32)) 256) 4096"

text \<open>The variables of the scan.\<close>

record presence_scan =
  psc_cursor :: "presence_cursor option"
  psc_scanned :: nat
  psc_items :: "presence_item list"
  psc_retained :: "presence_retention_stats option"
  psc_complete :: bool
  psc_truncated :: bool
  psc_degraded :: bool

definition scan_start :: "presence_read_request \<Rightarrow> presence_scan" where
  "scan_start q =
     \<lparr>psc_cursor = prr_cursor q, psc_scanned = 0, psc_items = [], psc_retained = None, psc_complete = True,
      psc_truncated = False, psc_degraded = False\<rparr>"

definition scan_cursor :: "presence_read_request \<Rightarrow> presence_item \<Rightarrow> presence_cursor" where
  "scan_cursor q i =
     \<lparr>pcur_version = 1, pcur_app_id = prr_app_id q, pcur_channel = prr_channel q, pcur_stream_id = pit_stream_id i,
      pcur_serial = pit_serial i, pcur_direction = prr_direction q, pcur_bounds = prr_bounds q\<rparr>"

text \<open>
  The loop over the items of one page: the items found, the number scanned, and, when the page asked for is
  full, its last item and whether the scanned page has items beyond it.
\<close>

fun scan_items ::
    "(presence_item \<Rightarrow> bool) \<Rightarrow> nat \<Rightarrow> presence_item list \<Rightarrow> presence_item list \<Rightarrow> nat \<Rightarrow>
     presence_item list \<times> nat \<times> (presence_item \<times> bool) option" where
  "scan_items m limit [] found scanned = (found, scanned, None)"
| "scan_items m limit (i # items) found scanned =
     (if \<not> m i then scan_items m limit items found (Suc scanned)
      else if Suc (length found) = limit then (found @ [i], Suc scanned, Some (i, items \<noteq> []))
      else scan_items m limit items (found @ [i]) (Suc scanned))"

definition scan_request :: "presence_read_request \<Rightarrow> presence_scan \<Rightarrow> presence_read_request" where
  "scan_request q st =
     q\<lparr>prr_limit := of_nat (min (max (scan_budget (prr_limit q) - psc_scanned st) 1) 256), prr_cursor := psc_cursor st\<rparr>"

definition scan_page :: "presence_scan \<Rightarrow> presence_item list \<Rightarrow> presence_cursor option \<Rightarrow> bool \<Rightarrow> presence_page" where
  "scan_page st items next_cursor has_more =
     \<lparr>pp_items = items, pp_next_cursor = next_cursor,
      pp_retained = (case psc_retained st of Some r \<Rightarrow> r | None \<Rightarrow> presence_stats_default), pp_has_more = has_more,
      pp_complete = psc_complete st, pp_truncated_by_retention = psc_truncated st, pp_degraded = psc_degraded st\<rparr>"

text \<open>What a page changes before its items are looked at.\<close>

definition scan_merge :: "presence_page \<Rightarrow> presence_scan \<Rightarrow> presence_scan" where
  "scan_merge page st =
     st\<lparr>psc_retained := (case psc_retained st of None \<Rightarrow> Some (pp_retained page) | Some r \<Rightarrow> Some r),
        psc_complete := (psc_complete st \<and> pp_complete page),
        psc_truncated := (psc_truncated st \<or> pp_truncated_by_retention page),
        psc_degraded := (psc_degraded st \<or> pp_degraded page)\<rparr>"

text \<open>One page of the scan: the answer, or the state for the next page.\<close>

definition scan_step ::
    "(presence_item \<Rightarrow> bool) \<Rightarrow> presence_read_request \<Rightarrow> presence_page \<Rightarrow> presence_scan \<Rightarrow>
     (presence_page result, presence_scan) sum" where
  "scan_step m q page st0 =
     (let st = scan_merge page st0 in
      if pp_items page = [] \<and> pp_has_more page
      then Inl (Inl (Internal ''Presence history page reported more items without advancing''))
      else
        (case scan_items m (unat (prr_limit q)) (pp_items page) (psc_items st) (psc_scanned st) of
           (found, scanned, Some (i, beyond)) \<Rightarrow>
             (let has_more = (beyond \<or> pp_has_more page) in
              Inl (Inr (scan_page st found (if has_more then Some (scan_cursor q i) else None) has_more)))
         | (found, scanned, None) \<Rightarrow>
             if \<not> pp_has_more page then Inl (Inr (scan_page st found None False))
             else
               (case pp_next_cursor page of
                  None \<Rightarrow> Inl (Inl (Internal ''Presence history page reported more items without a cursor''))
                | Some next_cursor \<Rightarrow>
                    if scanned \<ge> scan_budget (prr_limit q)
                    then Inl (Inr (scan_page st found (Some next_cursor) True))
                    else Inr (st\<lparr>psc_cursor := Some next_cursor, psc_scanned := scanned, psc_items := found\<rparr>))))"

fun filtered_scan ::
    "nat \<Rightarrow> ('s \<Rightarrow> presence_read_request \<Rightarrow> 's \<times> presence_page result) \<Rightarrow> (presence_item \<Rightarrow> bool) \<Rightarrow> presence_read_request \<Rightarrow>
     presence_scan \<Rightarrow> 's \<Rightarrow> ('s \<times> presence_page result) option" where
  "filtered_scan 0 rd m q st s = None"
| "filtered_scan (Suc n) rd m q st s =
     (case rd s (scan_request q st) of
        (s', Inl e) \<Rightarrow> Some (s', Inl e)
      | (s', Inr page) \<Rightarrow>
          (case scan_step m q page st of
             Inl answer \<Rightarrow> Some (s', answer)
           | Inr st' \<Rightarrow> filtered_scan n rd m q st' s'))"

definition read_filtered_page ::
    "nat \<Rightarrow> ('s \<Rightarrow> presence_read_request \<Rightarrow> 's \<times> presence_page result) \<Rightarrow> presence_read_request \<Rightarrow> presence_filter \<Rightarrow> 's \<Rightarrow>
     ('s \<times> presence_page result) option" where
  "read_filtered_page n rd q f s =
     (if presence_filter_is_empty f then Some (rd s q)
      else
        (case presence_read_validate q of
           Inl e \<Rightarrow> Some (s, Inl e)
         | Inr _ \<Rightarrow> filtered_scan n rd (presence_filter_matches f) q (scan_start q) s))"

section \<open>The scan ends\<close>

lemma scan_items_scanned:
  "scan_items m limit items found scanned = (found', scanned', r) \<Longrightarrow>
     scanned \<le> scanned' \<and> (items \<noteq> [] \<longrightarrow> scanned < scanned') \<and> scanned' \<le> scanned + length items \<and>
     (r = None \<longrightarrow> scanned' = scanned + length items)"
proof (induction m limit items found scanned rule: scan_items.induct)
  case (2 m limit i items found scanned)
  then show ?case by (fastforce split: if_splits)
qed simp

lemma scan_merge_simps [simp]:
  "psc_scanned (scan_merge page st) = psc_scanned st" "psc_items (scan_merge page st) = psc_items st"
  "psc_cursor (scan_merge page st) = psc_cursor st"
  by (simp_all add: scan_merge_def)

lemma scan_step_progress:
  assumes "scan_step m q page st = Inr st'"
  shows "psc_scanned st < psc_scanned st'" "psc_scanned st' < scan_budget (prr_limit q)"
proof -
  obtain found scanned r where items:
    "scan_items m (unat (prr_limit q)) (pp_items page) (psc_items st) (psc_scanned st) = (found, scanned, r)"
    using prod_cases3 by blast
  have "r = None" "pp_items page \<noteq> []" "psc_scanned st' = scanned" "scanned < scan_budget (prr_limit q)"
    using assms items by (auto simp: scan_step_def Let_def split: if_splits option.splits prod.splits)
  then show "psc_scanned st < psc_scanned st'" "psc_scanned st' < scan_budget (prr_limit q)"
    using scan_items_scanned [OF items] by auto
qed

lemma filtered_scan_ends:
  "scan_budget (prr_limit q) - psc_scanned st < n \<Longrightarrow> filtered_scan n rd m q st s \<noteq> None"
proof (induction n arbitrary: st s)
  case (Suc n)
  obtain s' r where rd: "rd s (scan_request q st) = (s', r)" by fastforce
  show ?case
  proof (cases r)
    case (Inr page)
    have "filtered_scan n rd m q st' s' \<noteq> None" if "scan_step m q page st = Inr st'" for st'
      using scan_step_progress [OF that] Suc.prems by (intro Suc.IH) linarith
    then show ?thesis using rd Inr by (auto split: sum.split)
  qed (simp add: rd)
qed simp

section \<open>The scan of the in-memory store\<close>

lemma scan_request_simps [simp]:
  "prr_app_id (scan_request q st) = prr_app_id q" "prr_channel (scan_request q st) = prr_channel q"
  "prr_direction (scan_request q st) = prr_direction q" "prr_bounds (scan_request q st) = prr_bounds q"
  "prr_cursor (scan_request q st) = psc_cursor st"
  by (simp_all add: scan_request_def)

lemma unat_chunk: "unat (prr_limit (scan_request q st)) = min (max (scan_budget (prr_limit q) - psc_scanned st) 1) 256"
proof -
  have "min (max (scan_budget (prr_limit q) - psc_scanned st) 1) 256 < 2 ^ 64" by simp
  then show ?thesis by (simp add: scan_request_def unat_of_nat)
qed

lemma chunk_pos: "prr_limit (scan_request q st) \<noteq> 0" "prr_limit (scan_request q st) \<noteq> - 1"
proof -
  have "0 < unat (prr_limit (scan_request q st))" "unat (prr_limit (scan_request q st)) < 2 ^ 64 - 1"
    unfolding unat_chunk by simp_all
  then show "prr_limit (scan_request q st) \<noteq> 0" "prr_limit (scan_request q st) \<noteq> - 1"
    by (auto simp: u64_neq_max_iff unat_gt_0)
qed

text \<open>Only the size of the pages depends on the limit.\<close>

lemma presence_validate_limit:
  "prr_limit q \<noteq> 0 \<Longrightarrow> l \<noteq> 0 \<Longrightarrow> presence_read_validate (q\<lparr>prr_limit := l\<rparr>) = presence_read_validate q"
  by (simp add: presence_read_validate_def cong: option.case_cong if_cong)

lemma presence_rest_limit: "presence_rest (now, q\<lparr>prr_limit := l\<rparr>) s c = presence_rest (now, q) s c"
  by (simp add: presence_rest_def presence_request_key_def presence_matcher_def [abs_def] cong: option.case_cong)

lemma presence_ready_limit:
  "presence_ready (now, q) s \<Longrightarrow> l \<noteq> 0 \<Longrightarrow> l \<noteq> - 1 \<Longrightarrow> presence_ready (now, q\<lparr>prr_limit := l\<rparr>) s"
  by (auto simp: presence_ready_def presence_request_key_def presence_read_validate_def split: if_splits)

lemma presence_live_limit:
  "prr_limit q \<noteq> 0 \<Longrightarrow> l \<noteq> 0 \<Longrightarrow> presence_live (now, q\<lparr>prr_limit := l\<rparr>) s c \<longleftrightarrow> presence_live (now, q) s c"
  by (simp add: presence_live_def presence_request_key_def presence_read_validate_def presence_cursor_check_def
      cong: option.case_cong if_cong)

definition evicted_store :: "i64 \<Rightarrow> presence_read_request \<Rightarrow> memory_presence_store \<Rightarrow> memory_presence_store" where
  "evicted_store now q s =
     (case bt_get (ps_channels s) (presence_request_key q) of
        None \<Rightarrow> s | Some ch \<Rightarrow> presence_put (presence_request_key q) (presence_evict now (ps_config s) ch) s)"

lemma presence_scan_read:
  assumes rdy: "presence_ready (now, q) s" and live: "presence_live (now, q) s (psc_cursor st)"
  defines "rest \<equiv> presence_rest (now, q) s (psc_cursor st)"
    and "n \<equiv> min (max (scan_budget (prr_limit q) - psc_scanned st) 1) 256"
  obtains page where "presence_reader now s (scan_request q st) = (evicted_store now q s, Inr page)"
    and "pp_items page = take n rest" and "pp_has_more page \<longleftrightarrow> n < length rest"
    and "pp_next_cursor page = (if n < length rest then Some (scan_cursor q (rest ! (n - 1))) else None)"
proof -
  let ?q = "scan_request q st" and ?key = "presence_request_key q"
  have q0: "prr_limit q \<noteq> 0" using rdy by (auto simp: presence_ready_def presence_read_validate_def split: if_splits)
  have v: "presence_read_validate ?q = Inr ()"
  proof (cases "psc_cursor st")
    case None
    then show ?thesis using rdy chunk_pos(1) [of q st]
      by (auto simp: presence_ready_def presence_read_validate_def split: if_splits)
  next
    case (Some c)
    then show ?thesis using live chunk_pos(1) [of q st] q0
      by (auto simp: presence_live_def presence_read_validate_def split: if_splits)
  qed
  have n: "unat (prr_limit ?q) = n" "0 < n" by (simp_all add: unat_chunk n_def)
  have key: "presence_request_key ?q = ?key" by (simp add: presence_request_key_def)
  show thesis
  proof (cases "bt_get (ps_channels s) ?key")
    case None
    then have "rest = []" by (simp add: rest_def presence_rest_def)
    with None v show thesis
      by (intro that [of "\<lparr>pp_items = [], pp_next_cursor = None, pp_retained = presence_stats_default, pp_has_more = False,
           pp_complete = True, pp_truncated_by_retention = False, pp_degraded = False\<rparr>"])
        (simp_all add: presence_reader_def presence_read_page_def evicted_store_def presence_request_key_def Let_def)
  next
    case (Some ch)
    define ch' where "ch' = presence_evict now (ps_config s) ch"
    let ?rs = "filter (presence_matcher ?q) (presence_order (prr_direction ?q) (pch_records ch'))"
    have rest: "rest = map presence_item_of ?rs"
      using Some by (simp add: rest_def presence_rest_def ch'_def presence_matcher_def [abs_def] cong: option.case_cong)
    have "presence_cursor_check ?q ch' = Inr ()"
      using live Some by (cases "psc_cursor st") (auto simp: presence_live_def presence_cursor_check_def ch'_def)
    then have rd: "presence_reader now s ?q = (evicted_store now q s, Inr (presence_page_of ?q ch'))"
      using v Some by (simp add: presence_reader_def presence_read_page_def evicted_store_def Let_def ch'_def presence_request_key_def)
    have items: "pp_items (presence_page_of ?q ch') = take n rest"
      using presence_page_items [OF chunk_pos(2)] by (simp add: n(1) rest)
    have more: "pp_has_more (presence_page_of ?q ch') \<longleftrightarrow> n < length rest"
      using presence_page_flags(1) [OF chunk_pos(2) refl] by (simp add: n(1) rest)
    have cursor: "pp_next_cursor (presence_page_of ?q ch') = (if n < length rest then Some (scan_cursor q (rest ! (n - 1))) else None)"
      using presence_page_cursor [OF chunk_pos(2,1) refl, of q st ch'] n
      by (auto simp: rest scan_cursor_def presence_item_of_def)
    show thesis by (rule that [OF rd items more cursor])
  qed
qed

text \<open>Going on from any item of what is left.\<close>

lemma presence_resume:
  assumes rdy: "presence_ready (now, q) s" and live: "presence_live (now, q) s c"
    and k: "0 < k" "k < length (presence_rest (now, q) s c)" "k < 2 ^ 64 - 1"
  defines "s' \<equiv> evicted_store now q s" and "c' \<equiv> scan_cursor q (presence_rest (now, q) s c ! (k - 1))"
  shows "presence_ready (now, q) s'" "presence_live (now, q) s' (Some c')"
    and "presence_rest (now, q) s' (Some c') = drop k (presence_rest (now, q) s c)"
proof -
  let ?l = "of_nat k :: usize" and ?rest = "presence_rest (now, q) s c"
  let ?nq = "(now, q\<lparr>prr_limit := ?l\<rparr>)"
  have q0: "prr_limit q \<noteq> 0" "prr_limit q \<noteq> - 1"
    using rdy by (auto simp: presence_ready_def presence_read_validate_def split: if_splits)
  have lk: "unat ?l = k" using k(3) by (simp add: unat_of_nat)
  then have l: "?l \<noteq> 0" "?l \<noteq> - 1" using k by (auto simp: u64_neq_max_iff)
  have rdy': "presence_ready ?nq s" and live': "presence_live ?nq s c"
    using presence_ready_limit [OF rdy l] presence_live_limit [OF q0(1) l(1)] live by simp_all
  from presence_inner_page [OF rdy' live'] k(2) lk obtain s1 c1 where
    rd: "presence_read_cursor ?nq s c = (s1, Inr (take k ?rest, Some c1))"
    and next': "presence_ready ?nq s1" "presence_live ?nq s1 (Some c1)" "presence_rest ?nq s1 (Some c1) = drop k ?rest"
    by (auto simp: presence_page_size_def presence_rest_limit)
  obtain ch where ch: "bt_get (ps_channels s) (presence_request_key q) = Some ch"
    using k(2) by (auto simp: presence_rest_def split: option.splits)
  let ?ch = "presence_evict now (ps_config s) ch" and ?q = "q\<lparr>prr_limit := ?l, prr_cursor := c\<rparr>"
  let ?rs = "filter (presence_matcher ?q) (presence_order (prr_direction ?q) (pch_records ?ch))"
  have rest: "?rest = map presence_item_of ?rs" using ch by (simp add: presence_rest_def presence_matcher_def [abs_def] cong: option.case_cong)
  have "s1 = s'" "pp_next_cursor (presence_page_of ?q ?ch) = Some c1"
    using presence_read_cursor_page [OF rdy' live'] rd ch
    by (simp_all add: Let_def s'_def evicted_store_def presence_request_key_def)
  moreover have "pp_next_cursor (presence_page_of ?q ?ch) = Some c'"
    using presence_page_cursor [of ?q ?rs ?ch] l k rest by (simp add: lk c'_def scan_cursor_def presence_item_of_def)
  ultimately have eq: "s1 = s'" "c1 = c'" by simp_all
  show "presence_ready (now, q) s'" using presence_ready_limit [OF next'(1) q0] eq by simp
  show "presence_live (now, q) s' (Some c')" using next'(2) presence_live_limit [OF q0(1) l(1)] eq by simp
  show "presence_rest (now, q) s' (Some c') = drop k ?rest" using next'(3) eq by (simp add: presence_rest_limit)
qed

lemma scan_items_None:
  "scan_items m limit items found scanned = (found', scanned', None) \<Longrightarrow> length found < limit \<Longrightarrow>
     found' = found @ filter m items \<and> length found' < limit"
proof (induction m limit items found scanned rule: scan_items.induct)
  case (2 m limit i items found scanned)
  then show ?case by (auto split: if_splits)
qed simp

lemma scan_items_Some:
  "scan_items m limit items found scanned = (found', scanned', Some (i, beyond)) \<Longrightarrow>
     \<exists>k. 0 < k \<and> k \<le> length items \<and> found' = found @ filter m (take k items) \<and> i = items ! (k - 1) \<and>
       (beyond \<longleftrightarrow> k < length items)"
proof (induction m limit items found scanned rule: scan_items.induct)
  case (2 m limit j items found scanned)
  show ?case
  proof (cases "m j \<and> Suc (length found) = limit")
    case True
    with 2(3) show ?thesis by (intro exI [of _ 1]) auto
  next
    case False
    then obtain k where "0 < k" "k \<le> length items" "found' = found @ filter m [j] @ filter m (take k items)"
      "i = items ! (k - 1)" "beyond \<longleftrightarrow> k < length items"
      using 2 by (cases "m j") auto
    then show ?thesis by (intro exI [of _ "Suc k"]) (auto simp: nth_Cons')
  qed
qed simp

text \<open>What a scan returns: the matches of a part of what is left, and where to go on.\<close>

definition scan_result ::
    "i64 \<Rightarrow> presence_read_request \<Rightarrow> (presence_item \<Rightarrow> bool) \<Rightarrow> presence_item list \<Rightarrow> presence_item list \<Rightarrow>
     memory_presence_store \<Rightarrow> presence_page \<Rightarrow> bool" where
  "scan_result now q m found rest s page \<longleftrightarrow>
     (\<exists>k \<le> length rest. pp_items page = found @ filter m (take k rest) \<and>
        (case pp_next_cursor page of
           None \<Rightarrow> k = length rest
         | Some c \<Rightarrow> 0 < k \<and> k < length rest \<and> presence_ready (now, q) s \<and> presence_live (now, q) s (Some c) \<and>
             presence_rest (now, q) s (Some c) = drop k rest))"

lemma scan_page_simps [simp]:
  "pp_items (scan_page st items c b) = items" "pp_next_cursor (scan_page st items c b) = c"
  by (simp_all add: scan_page_def)

lemma scan_result_more:
  assumes "scan_result now q m (found @ filter m (take n rest)) (drop n rest) s page" "0 < n" "n < length rest"
  shows "scan_result now q m found rest s page"
proof -
  obtain k where "k \<le> length rest - n" "pp_items page = (found @ filter m (take n rest)) @ filter m (take k (drop n rest))"
    and c: "case pp_next_cursor page of None \<Rightarrow> k = length (drop n rest)
       | Some c \<Rightarrow> 0 < k \<and> k < length (drop n rest) \<and> presence_ready (now, q) s \<and> presence_live (now, q) s (Some c) \<and>
           presence_rest (now, q) s (Some c) = drop k (drop n rest)"
    using assms(1) unfolding scan_result_def length_drop by blast
  then have "n + k \<le> length rest" "pp_items page = found @ filter m (take (n + k) rest)"
    using assms(2,3) by (simp_all add: take_add)
  with c assms(2,3) show ?thesis
    unfolding scan_result_def by (intro exI [of _ "n + k"]) (auto simp: add.commute split: option.splits)
qed

lemma scan_step_result:
  assumes rdy: "presence_ready (now, q) s" and live: "presence_live (now, q) s (psc_cursor st)"
    and room: "length (psc_items st) < unat (prr_limit q)" and k0: "0 < k0" "k0 < 2 ^ 64 - 1"
    and rest: "rest = presence_rest (now, q) s (psc_cursor st)"
    and page: "pp_items page = take k0 rest" "pp_has_more page \<longleftrightarrow> k0 < length rest"
      "pp_next_cursor page = (if k0 < length rest then Some (scan_cursor q (rest ! (k0 - 1))) else None)"
  shows "(\<exists>p. scan_step m q page st = Inl (Inr p) \<and> scan_result now q m (psc_items st) rest (evicted_store now q s) p) \<or>
     (\<exists>st'. scan_step m q page st = Inr st' \<and> k0 < length rest \<and> presence_ready (now, q) (evicted_store now q s) \<and>
        presence_live (now, q) (evicted_store now q s) (psc_cursor st') \<and>
        presence_rest (now, q) (evicted_store now q s) (psc_cursor st') = drop k0 rest \<and>
        psc_items st' = psc_items st @ filter m (take k0 rest) \<and> length (psc_items st') < unat (prr_limit q))"
proof -
  let ?s = "evicted_store now q s"
  have resume: "presence_ready (now, q) ?s \<and> presence_live (now, q) ?s (Some (scan_cursor q (rest ! (k - 1)))) \<and>
      presence_rest (now, q) ?s (Some (scan_cursor q (rest ! (k - 1)))) = drop k rest"
    if "0 < k" "k < length rest" "k \<le> k0" for k
    using presence_resume [OF rdy live that(1)] that(2,3) k0(2) unfolding rest by (simp only: le_less_trans simp_thms)
  obtain found scanned r where items:
    "scan_items m (unat (prr_limit q)) (take k0 rest) (psc_items st) (psc_scanned st) = (found, scanned, r)"
    using prod_cases3 by blast
  show ?thesis
  proof (cases r)
    case None
    have found: "found = psc_items st @ filter m (take k0 rest)" "length found < unat (prr_limit q)"
      using scan_items_None [OF items [unfolded None] room] by auto
    show ?thesis
    proof (cases "k0 < length rest")
      case True
      have "scan_result now q m (psc_items st) rest ?s (scan_page (scan_merge page st) found (Some (scan_cursor q (rest ! (k0 - 1)))) True)"
        unfolding scan_result_def using True resume [OF k0(1) True] k0(1) found by (intro exI [of _ k0]) auto
      with True page items None k0(1) found resume [OF k0(1) True] show ?thesis by (auto simp: scan_step_def Let_def)
    next
      case False
      then have "scan_result now q m (psc_items st) rest ?s (scan_page (scan_merge page st) found None False)"
        unfolding scan_result_def using found by (intro exI [of _ "length rest"]) auto
      with False page items None show ?thesis by (auto simp: scan_step_def Let_def)
    qed
  next
    case (Some ib)
    obtain i beyond where ib: "ib = (i, beyond)" by fastforce
    obtain k where k: "0 < k" "k \<le> length (take k0 rest)" "found = psc_items st @ filter m (take k (take k0 rest))"
      "i = take k0 rest ! (k - 1)" "beyond \<longleftrightarrow> k < length (take k0 rest)"
      using scan_items_Some [OF items [unfolded Some ib]] by blast
    then have kk: "k \<le> k0" "k \<le> length rest" "found = psc_items st @ filter m (take k rest)" "i = rest ! (k - 1)"
      by (auto simp: min_absorb1 intro!: nth_take)
    let ?more = "beyond \<or> pp_has_more page"
    let ?page = "scan_page (scan_merge page st) found (if ?more then Some (scan_cursor q i) else None) ?more"
    have more: "?more \<longleftrightarrow> k < length rest" using k(2,5) page(2) by (auto simp: min_def split: if_splits)
    have "scan_result now q m (psc_items st) rest ?s ?page"
      unfolding scan_result_def using k(1) kk resume [OF k(1) _ kk(1)] more by (intro exI [of _ k]) auto
    moreover have "pp_items page \<noteq> []" using k(1,2) page(1) by auto
    ultimately show ?thesis using page(1) items Some ib by (auto simp: scan_step_def Let_def)
  qed
qed

lemma filtered_scan_result:
  assumes "presence_ready (now, q) s" "presence_live (now, q) s (psc_cursor st)"
    and "length (presence_rest (now, q) s (psc_cursor st)) < n" "length (psc_items st) < unat (prr_limit q)"
  shows "\<exists>s' page. filtered_scan n (presence_reader now) m q st s = Some (s', Inr page) \<and>
     scan_result now q m (psc_items st) (presence_rest (now, q) s (psc_cursor st)) s' page"
  using assms
proof (induction n arbitrary: st s)
  case (Suc n)
  define rest where "rest = presence_rest (now, q) s (psc_cursor st)"
  define k0 where "k0 = min (max (scan_budget (prr_limit q) - psc_scanned st) 1) 256"
  have k0: "0 < k0" "k0 < 2 ^ 64 - 1" by (simp_all add: k0_def)
  obtain page where rd: "presence_reader now s (scan_request q st) = (evicted_store now q s, Inr page)"
    and page: "pp_items page = take k0 rest" "pp_has_more page \<longleftrightarrow> k0 < length rest"
      "pp_next_cursor page = (if k0 < length rest then Some (scan_cursor q (rest ! (k0 - 1))) else None)"
    unfolding k0_def rest_def by (rule presence_scan_read [OF Suc.prems(1,2)])
  from scan_step_result [OF Suc.prems(1,2,4) k0 rest_def page, of m] show ?case
  proof (elim disjE exE conjE)
    fix p assume "scan_step m q page st = Inl (Inr p)" "scan_result now q m (psc_items st) rest (evicted_store now q s) p"
    then show ?thesis using rd by (simp add: rest_def)
  next
    fix st' assume step: "scan_step m q page st = Inr st'" and more: "k0 < length rest"
      and next': "presence_ready (now, q) (evicted_store now q s)" "presence_live (now, q) (evicted_store now q s) (psc_cursor st')"
        "presence_rest (now, q) (evicted_store now q s) (psc_cursor st') = drop k0 rest"
        "psc_items st' = psc_items st @ filter m (take k0 rest)" "length (psc_items st') < unat (prr_limit q)"
    have "length (presence_rest (now, q) (evicted_store now q s) (psc_cursor st')) < n"
      using next'(3) Suc.prems(3) more k0(1) by (simp add: rest_def)
    from Suc.IH [OF next'(1,2) this next'(5)] obtain s' p where
      *: "filtered_scan n (presence_reader now) m q st' (evicted_store now q s) = Some (s', Inr p)"
        "scan_result now q m (psc_items st') (drop k0 rest) s' p" unfolding next'(3) by blast
    have "scan_result now q m (psc_items st) rest s' p" by (rule scan_result_more [OF *(2) [unfolded next'(4)] k0(1) more])
    then show ?thesis using rd step *(1) by (simp add: rest_def)
  qed
qed simp

section \<open>Following the cursors\<close>

text \<open>
  The filtered reader gives a page and a cursor as the unfiltered one does, but its pages may be short: it
  meets the weaker contract of a reader that makes progress.
\<close>

definition filtered_read_cursor ::
    "(i64 \<times> presence_read_request) \<times> presence_filter \<Rightarrow> memory_presence_store \<Rightarrow> presence_cursor option \<Rightarrow>
     memory_presence_store \<times> (error + presence_item list \<times> presence_cursor option)" where
  "filtered_read_cursor qf s c =
     (case qf of ((now, q), f) \<Rightarrow>
        (case read_filtered_page 4097 (presence_reader now) (q\<lparr>prr_cursor := c\<rparr>) f s of
           None \<Rightarrow> (s, Inl (Internal ''out of fuel''))
         | Some (s', Inl e) \<Rightarrow> (s', Inl e)
         | Some (s', Inr p) \<Rightarrow> (s', Inr (pp_items p, pp_next_cursor p))))"

lemma filtered_scan_fuel:
  "filtered_scan n rd m q st s = Some r \<Longrightarrow> filtered_scan n' rd m q st s = Some r' \<Longrightarrow> r' = r"
proof (induction n arbitrary: n' st s)
  case (Suc n)
  then obtain n1 where "n' = Suc n1" by (cases n') simp_all
  with Suc show ?case by (auto split: prod.splits sum.splits)
qed simp

lemma scan_budget_le: "scan_budget limit \<le> 4096"
  by (simp add: scan_budget_def)

lemma presence_query_cursor [simp]:
  "presence_ready (now, q\<lparr>prr_cursor := c\<rparr>) s = presence_ready (now, q) s"
  "presence_live (now, q\<lparr>prr_cursor := c\<rparr>) s c' = presence_live (now, q) s c'"
  "presence_rest (now, q\<lparr>prr_cursor := c\<rparr>) s c' = presence_rest (now, q) s c'"
  by (simp_all add: presence_ready_def presence_live_def presence_rest_def presence_request_key_def cong: option.case_cong)

lemma scan_result_cursor: "scan_result now (q\<lparr>prr_cursor := c\<rparr>) m found rest s page = scan_result now q m found rest s page"
  by (simp add: scan_result_def cong: option.case_cong)

lemma filtered_page_result:
  assumes rdy: "presence_ready (now, q) s" and live: "presence_live (now, q) s c" and f: "\<not> presence_filter_is_empty f"
  shows "\<exists>s' page. read_filtered_page 4097 (presence_reader now) (q\<lparr>prr_cursor := c\<rparr>) f s = Some (s', Inr page) \<and>
     scan_result now q (presence_filter_matches f) [] (presence_rest (now, q) s c) s' page"
proof -
  let ?q = "q\<lparr>prr_cursor := c\<rparr>" and ?m = "presence_filter_matches f"
  let ?n = "Suc (length (presence_rest (now, q) s c))"
  have lim: "0 < unat (prr_limit q)"
    using rdy by (auto simp: presence_ready_def presence_read_validate_def unat_gt_0 split: if_splits)
  have valid: "presence_read_validate ?q = Inr ()"
    using rdy live by (cases c) (auto simp: presence_ready_def presence_live_def)
  obtain s' page where scan: "filtered_scan ?n (presence_reader now) ?m ?q (scan_start ?q) s = Some (s', Inr page)"
    "scan_result now q ?m [] (presence_rest (now, q) s c) s' page"
    using filtered_scan_result [of now ?q s "scan_start ?q" ?n ?m] rdy live lim
    by (auto simp: scan_start_def scan_result_cursor)
  have "filtered_scan 4097 (presence_reader now) ?m ?q (scan_start ?q) s \<noteq> None"
    by (rule filtered_scan_ends) (use scan_budget_le [of "prr_limit q"] in \<open>simp add: scan_start_def\<close>)
  then have "filtered_scan 4097 (presence_reader now) ?m ?q (scan_start ?q) s = Some (s', Inr page)"
    using filtered_scan_fuel [OF scan(1)] by fastforce
  with scan(2) f valid show ?thesis by (simp add: read_filtered_page_def)
qed

definition filtered_ready :: "(i64 \<times> presence_read_request) \<times> presence_filter \<Rightarrow> memory_presence_store \<Rightarrow> bool" where
  "filtered_ready qf s \<longleftrightarrow> presence_ready (fst qf) s \<and> \<not> presence_filter_is_empty (snd qf)"

definition filtered_live ::
    "(i64 \<times> presence_read_request) \<times> presence_filter \<Rightarrow> memory_presence_store \<Rightarrow> presence_cursor option \<Rightarrow> bool" where
  "filtered_live qf = presence_live (fst qf)"

definition filtered_rest ::
    "(i64 \<times> presence_read_request) \<times> presence_filter \<Rightarrow> memory_presence_store \<Rightarrow> presence_cursor option \<Rightarrow> presence_item list" where
  "filtered_rest qf s c = filter (presence_filter_matches (snd qf)) (presence_rest (fst qf) s c)"

definition filtered_todo ::
    "(i64 \<times> presence_read_request) \<times> presence_filter \<Rightarrow> memory_presence_store \<Rightarrow> presence_cursor option \<Rightarrow> nat" where
  "filtered_todo qf s c = length (presence_rest (fst qf) s c)"

interpretation fpg: progress_reader filtered_read_cursor filtered_ready filtered_live filtered_rest filtered_todo
proof
  fix qf s c assume rdy: "filtered_ready qf s" "filtered_live qf s c"
  obtain now q f where qf: "qf = ((now, q), f)" by (metis surj_pair)
  let ?rest = "presence_rest (now, q) s c" and ?m = "presence_filter_matches f"
  obtain s' page k where rd: "read_filtered_page 4097 (presence_reader now) (q\<lparr>prr_cursor := c\<rparr>) f s = Some (s', Inr page)"
    and k: "k \<le> length ?rest" "pp_items page = filter ?m (take k ?rest)"
    and c: "case pp_next_cursor page of None \<Rightarrow> k = length ?rest
       | Some c \<Rightarrow> 0 < k \<and> k < length ?rest \<and> presence_ready (now, q) s' \<and> presence_live (now, q) s' (Some c) \<and>
           presence_rest (now, q) s' (Some c) = drop k ?rest"
    using filtered_page_result [of now q s c f] rdy unfolding qf scan_result_def
    by (auto simp: filtered_ready_def filtered_live_def)
  have read: "filtered_read_cursor qf s c = (s', Inr (pp_items page, pp_next_cursor page))"
    using rd by (simp add: filtered_read_cursor_def qf)
  show "(\<exists>s'. filtered_read_cursor qf s c = (s', Inr (filtered_rest qf s c, None))) \<or>
     (\<exists>s' items c'. filtered_read_cursor qf s c = (s', Inr (items, Some c')) \<and> filtered_ready qf s' \<and>
        filtered_live qf s' (Some c') \<and> filtered_rest qf s c = items @ filtered_rest qf s' (Some c') \<and>
        filtered_todo qf s' (Some c') < filtered_todo qf s c)"
  proof (cases "pp_next_cursor page")
    case None
    with c k read show ?thesis by (simp add: filtered_rest_def qf)
  next
    case (Some c')
    have "filter ?m ?rest = filter ?m (take k ?rest) @ filter ?m (drop k ?rest)"
      by (metis append_take_drop_id filter_append)
    with Some c k read rdy show ?thesis
      by (auto simp: filtered_rest_def filtered_todo_def filtered_ready_def filtered_live_def qf)
  qed
qed

text \<open>C23: Following the cursors of filtered reads ends and returns exactly the retained events within the bounds that the
filter selects, each once and in the requested order, although each page scans a bounded number of events and may be
short or empty.\<close>

theorem presence_filtered_complete:
  assumes "\<And>p. \<exists>bs. to_vec p = Inr bs" and "presence_reachable to_vec config s"
    and "bt_get (ps_channels s) (presence_channel_key (prr_app_id q) (prr_channel q)) = Some ch" and "presence_times_sorted ch"
    and "presence_read_validate q = Inr ()" and "prr_cursor q = None" and "prr_limit q \<noteq> - 1" and "\<not> presence_filter_is_empty f"
  shows "\<exists>s'. drain (Suc (length (pch_records ch))) (filtered_read_cursor ((now, q), f)) s None =
     Some (s', Inr (filter (presence_filter_matches f) (map presence_item_of
       (filter (\<lambda>r. presence_in_bounds (prr_bounds q) (par_serial r) (par_published_at_ms r))
         (presence_order (prr_direction q) (pch_records (presence_evict now (ps_config s) ch)))))))"
proof -
  let ?qf = "((now, q), f)"
  have key: "bt_get (ps_channels s) (presence_request_key q) = Some ch" using assms(3) by (simp add: presence_request_key_def)
  have ok: "presence_channel_ok ch"
    using presence_reachable_inv [OF assms(1,2)] assms(3) by (auto simp: presence_store_inv_def presence_channel_inv_def)
  have q: "q\<lparr>prr_cursor := None\<rparr> = q" using assms(6) by (cases q) simp
  have rdy: "filtered_ready ?qf s" "filtered_live ?qf s None"
    using assms(4,5,7,8) ok key q by (simp_all add: filtered_ready_def filtered_live_def presence_ready_def presence_live_def)
  have rest: "presence_rest (now, q) s None = map presence_item_of
      (filter (\<lambda>r. presence_in_bounds (prr_bounds q) (par_serial r) (par_published_at_ms r))
        (presence_order (prr_direction q) (pch_records (presence_evict now (ps_config s) ch))))"
    using key by (simp add: presence_rest_def presence_matcher_def [abs_def])
  have "length (pch_records (presence_evict now (ps_config s) ch)) \<le> length (pch_records ch)"
  proof -
    have "presence_accounted ch" using ok by (simp add: presence_channel_ok_def)
    then obtain n where "pch_records (fst (presence_evict_channel now (presence_policy (ps_config s) ch) ch)) = drop n (pch_records ch)"
      by (rule presence_evict_channel_suffix) blast
    then show ?thesis by (simp add: presence_evict_def)
  qed
  then have "filtered_todo ?qf s None < Suc (length (pch_records ch))"
    unfolding filtered_todo_def fst_conv rest
    by (intro le_imp_less_Suc) (auto simp: presence_order_def intro: order_trans [OF length_filter_le] split: presence_direction.split)
  from fpg.drain_all [OF rdy this] show ?thesis by (simp add: filtered_rest_def rest)
qed

section \<open>A concrete read\<close>

definition filtered_demo_request :: presence_read_request where
  "filtered_demo_request =
     \<lparr>prr_app_id = ''app'', prr_channel = ''room'', prr_direction = POldestFirst, prr_limit = 1, prr_cursor = None,
      prr_bounds = \<lparr>pb_start_serial = None, pb_end_serial = None, pb_start_time_ms = None, pb_end_time_ms = None\<rparr>\<rparr>"

definition filtered_demo_filter :: presence_filter where
  "filtered_demo_filter = \<lparr>pf_user_id = Some ''ann'', pf_connection_id = None\<rparr>"

lemma presence_filtered_complete_witness:
  "\<exists>ch s'. bt_get (ps_channels presence_demo_store) (presence_channel_key ''app'' ''room'') = Some ch \<and>
     drain 2 (filtered_read_cursor ((1000, filtered_demo_request), filtered_demo_filter)) presence_demo_store None =
     Some (s', Inr (filter (presence_filter_matches filtered_demo_filter) (map presence_item_of
       (filter (\<lambda>r. presence_in_bounds (prr_bounds filtered_demo_request) (par_serial r) (par_published_at_ms r))
         (pch_records (presence_evict 1000 (ps_config presence_demo_store) ch))))))"
proof -
  obtain ch where ch: "bt_get (ps_channels presence_demo_store) (presence_channel_key ''app'' ''room'') = Some ch"
    "presence_times_sorted ch" "length (pch_records ch) = 1"
    using presence_demo_channel by metis
  have "\<And>p. \<exists>bs. presence_demo_encoder p = Inr bs" by (simp add: presence_demo_encoder_def)
  from presence_filtered_complete [OF this presence_demo_reachable, of filtered_demo_request ch filtered_demo_filter 1000] ch
  show ?thesis
    by (simp add: filtered_demo_request_def filtered_demo_filter_def presence_read_validate_def opt_gt_def
        presence_filter_is_empty_def presence_order_def numeral_2_eq_2)
qed

text \<open>
  The flag \<open>complete\<close> of a filtered page is that of the scanned pages. Here the user has two events, a page of
  one is asked for, and the page says both that it is complete and that there is more.
\<close>

definition filtered_demo_store :: memory_presence_store where
  "filtered_demo_store =
     fst (presence_record_transition 1000 ''s'' presence_demo_encoder (presence_demo_transition MemberRemoved ''ann'' ''k2'')
       presence_demo_store)"

lemma filtered_page_complete_with_more:
  "case read_filtered_page (Suc 0) (presence_reader 1000) filtered_demo_request filtered_demo_filter filtered_demo_store of
     Some (_, Inr p) \<Rightarrow> pp_complete p \<and> pp_has_more p \<and> length (pp_items p) = 1 | _ \<Rightarrow> False"
  by code_simp

end
