(* ===== verification/Presence_Tracking.thy ===== *)
theory Presence_Tracking
  imports Presence_Filter
begin

text \<open>
  The presence history as the server uses it: the wrapper that remembers which streams have lost a write
  (\<^verbatim>\<open>sockudo-core/src/presence_history/tracking.rs\<close>) over any inner store, the store that records nothing
  (\<^verbatim>\<open>store.rs\<close>), and the remaining types with the cursor codec (\<^verbatim>\<open>types.rs\<close>). The operations of the inner store
  are arguments; metrics are left out.
\<close>

section \<open>Names and the cursor codec\<close>

definition presence_direction_as_str :: "presence_direction \<Rightarrow> string" where
  "presence_direction_as_str d = (case d of PNewestFirst \<Rightarrow> ''newest_first'' | POldestFirst \<Rightarrow> ''oldest_first'')"

definition presence_event_kind_as_str :: "presence_event_kind \<Rightarrow> string" where
  "presence_event_kind_as_str k =
     (case k of MemberAdded \<Rightarrow> ''member_added'' | MemberUpdated \<Rightarrow> ''member_updated'' | MemberRemoved \<Rightarrow> ''member_removed'')"

definition presence_event_cause_as_str :: "presence_event_cause \<Rightarrow> string" where
  "presence_event_cause_as_str c =
     (case c of Join \<Rightarrow> ''join'' | Disconnect \<Rightarrow> ''disconnect'' | OrphanCleanup \<Rightarrow> ''orphan_cleanup''
      | CauseTimeout \<Rightarrow> ''timeout'' | ForcedDisconnect \<Rightarrow> ''forced_disconnect'')"

definition presence_durable_state_as_str :: "presence_durable_state \<Rightarrow> string" where
  "presence_durable_state_as_str s =
     (case s of PHealthy \<Rightarrow> ''healthy'' | PDegraded \<Rightarrow> ''degraded'' | PResetRequired \<Rightarrow> ''reset_required'')"

definition presence_continuity_proven :: "presence_durable_state \<Rightarrow> bool" where
  "presence_continuity_proven s \<longleftrightarrow> s = PHealthy"

definition presence_reset_required :: "presence_durable_state \<Rightarrow> bool" where
  "presence_reset_required s \<longleftrightarrow> s = PResetRequired"

text \<open>The JSON and base64 libraries are parameters, as for the message history.\<close>

definition presence_cursor_encode ::
    "(presence_cursor \<Rightarrow> string + bytes) \<Rightarrow> (bytes \<Rightarrow> string) \<Rightarrow> presence_cursor \<Rightarrow> string result" where
  "presence_cursor_encode to_vec b64_encode c =
     (case to_vec c of
        Inl e \<Rightarrow> Inl (Serialization (''Failed to encode presence history cursor: '' @ e))
      | Inr bs \<Rightarrow> Inr (b64_encode bs))"

definition presence_cursor_decode ::
    "(string \<Rightarrow> string + bytes) \<Rightarrow> (bytes \<Rightarrow> string + presence_cursor) \<Rightarrow> string \<Rightarrow> presence_cursor result" where
  "presence_cursor_decode b64_decode from_slice encoded =
     (if length encoded > 16 * 1024 then Inl (InvalidMessageFormat ''Presence history cursor exceeds 16 KiB'')
      else case b64_decode encoded of
        Inl e \<Rightarrow> Inl (InvalidMessageFormat (''Invalid presence history cursor: '' @ e))
      | Inr bs \<Rightarrow>
          (case from_slice bs of
             Inl e \<Rightarrow> Inl (InvalidMessageFormat (''Invalid presence history cursor: '' @ e))
           | Inr c \<Rightarrow>
               if pcur_version c \<noteq> 1
               then Inl (InvalidMessageFormat
                      (''Unsupported presence history cursor version: '' @ show_nat (unat (pcur_version c))))
               else Inr c))"

lemma presence_cursor_roundtrip:
  assumes "to_vec c = Inr bs" "b64_decode (b64_encode bs) = Inr bs" "from_slice bs = Inr c"
    and "length (b64_encode bs) \<le> 16 * 1024" "pcur_version c = 1"
  shows "Inr c = (case presence_cursor_encode to_vec b64_encode c of
     Inl e \<Rightarrow> Inl e | Inr encoded \<Rightarrow> presence_cursor_decode b64_decode from_slice encoded)"
  using assms by (simp add: presence_cursor_encode_def presence_cursor_decode_def)

record presence_runtime_status =
  prst_enabled :: bool
  prst_backend :: string
  prst_state_authority :: string
  prst_degraded_channels :: usize
  prst_reset_required_channels :: usize
  prst_queue_depth :: usize

definition presence_runtime_status_default :: presence_runtime_status where
  "presence_runtime_status_default =
     \<lparr>prst_enabled = False, prst_backend = ''disabled'', prst_state_authority = ''disabled'',
      prst_degraded_channels = 0, prst_reset_required_channels = 0, prst_queue_depth = 0\<rparr>"

section \<open>The store that records nothing\<close>

definition noop_read_page :: "presence_read_request \<Rightarrow> presence_page result" where
  "noop_read_page q =
     (case presence_read_validate q of
        Inl e \<Rightarrow> Inl e
      | Inr _ \<Rightarrow>
          Inr \<lparr>pp_items = [], pp_next_cursor = None, pp_retained = presence_stats_default, pp_has_more = False,
               pp_complete = True, pp_truncated_by_retention = False, pp_degraded = False\<rparr>)"

definition noop_stream_runtime_state :: "string \<Rightarrow> string \<Rightarrow> presence_stream_runtime_state" where
  "noop_stream_runtime_state app_id channel =
     \<lparr>prs_app_id = app_id, prs_channel = channel, prs_stream_id = None, prs_durable_state = PResetRequired,
      prs_continuity_proven = False, prs_reset_required = True, prs_reason = Some ''presence_history_disabled'',
      prs_node_id = None, prs_last_transition_at_ms = None, prs_authoritative_source = ''disabled'',
      prs_observed_source = ''disabled''\<rparr>"

text \<open>What the store trait answers by default, without a stream behind it.\<close>

definition default_stream_runtime_state :: "string \<Rightarrow> string \<Rightarrow> presence_stream_runtime_state" where
  "default_stream_runtime_state app_id channel = presence_healthy app_id channel None ''disabled''"

definition default_stream_inspection ::
    "(string \<Rightarrow> string \<Rightarrow> presence_stream_runtime_state) \<Rightarrow> string \<Rightarrow> string \<Rightarrow> presence_stream_inspection" where
  "default_stream_inspection runtime_state app_id channel =
     \<lparr>psi_app_id = app_id, psi_channel = channel, psi_stream_id = None, psi_next_serial = None,
      psi_retained = presence_stats_default, psi_state = runtime_state app_id channel\<rparr>"

definition default_reset_stream :: "string \<Rightarrow> string \<Rightarrow> presence_reset_result result" where
  "default_reset_stream app_id channel = Inl (Configuration ''Presence history reset is not supported by this store'')"

section \<open>The tracking store\<close>

record 's tracking_presence_store =
  tps_inner :: 's
  tps_state_authority :: string
  tps_runtime_states :: "(string, presence_stream_runtime_state) btree"

definition tracking_new :: "'s \<Rightarrow> string \<Rightarrow> 's tracking_presence_store" where
  "tracking_new inner state_authority =
     \<lparr>tps_inner = inner, tps_state_authority = state_authority, tps_runtime_states = []\<rparr>"

definition tracking_channel_key :: "string \<Rightarrow> string \<Rightarrow> string" where
  "tracking_channel_key app_id channel = app_id @ CHR 0x00 # channel"

definition current_state :: "string \<Rightarrow> string \<Rightarrow> 's tracking_presence_store \<Rightarrow> presence_stream_runtime_state option" where
  "current_state app_id channel t = bt_get (tps_runtime_states t) (tracking_channel_key app_id channel)"

text \<open>The state noted for a stream whose write failed.\<close>

definition failed_write_state ::
    "i64 \<Rightarrow> string \<Rightarrow> presence_stream_inspection \<Rightarrow> presence_stream_runtime_state" where
  "failed_write_state now state_authority before =
     (let durable_state = (if pst_retained_events (psi_retained before) > 0 then PResetRequired else PDegraded) in
      \<lparr>prs_app_id = psi_app_id before, prs_channel = psi_channel before, prs_stream_id = psi_stream_id before,
       prs_durable_state = durable_state, prs_continuity_proven = presence_continuity_proven durable_state,
       prs_reset_required = presence_reset_required durable_state,
       prs_reason = Some (case durable_state of
            PHealthy \<Rightarrow> ''presence_history_healthy''
          | PDegraded \<Rightarrow> ''presence_history_write_failed''
          | PResetRequired \<Rightarrow> ''presence_history_reset_required_after_write_failure''),
       prs_node_id = None, prs_last_transition_at_ms = Some now, prs_authoritative_source = state_authority,
       prs_observed_source = state_authority\<rparr>)"

definition tracking_record_transition ::
    "i64 \<Rightarrow> (string \<Rightarrow> string \<Rightarrow> 's \<Rightarrow> 's \<times> presence_stream_inspection result) \<Rightarrow>
     ('v presence_transition_record \<Rightarrow> 's \<Rightarrow> 's \<times> unit result) \<Rightarrow> 'v presence_transition_record \<Rightarrow>
     's tracking_presence_store \<Rightarrow> 's tracking_presence_store \<times> unit result" where
  "tracking_record_transition now inspection record_op r t =
     (let key = tracking_channel_key (ptr_app_id r) (ptr_channel r) in
      case inspection (ptr_app_id r) (ptr_channel r) (tps_inner t) of
        (s, Inl e) \<Rightarrow> (t\<lparr>tps_inner := s\<rparr>, Inl e)
      | (s, Inr before) \<Rightarrow>
          (case record_op r s of
             (s', Inr _) \<Rightarrow> (t\<lparr>tps_inner := s'\<rparr>, Inr ())
           | (s', Inl e) \<Rightarrow>
               (t\<lparr>tps_inner := s',
                  tps_runtime_states :=
                    bt_insert key (failed_write_state now (tps_state_authority t) before) (tps_runtime_states t)\<rparr>, Inl e)))"

definition tracking_read_page ::
    "(presence_read_request \<Rightarrow> 's \<Rightarrow> 's \<times> presence_page result) \<Rightarrow> presence_read_request \<Rightarrow> 's tracking_presence_store \<Rightarrow>
     's tracking_presence_store \<times> presence_page result" where
  "tracking_read_page read_op q t =
     (case read_op q (tps_inner t) of
        (s, Inl e) \<Rightarrow> (t\<lparr>tps_inner := s\<rparr>, Inl e)
      | (s, Inr page) \<Rightarrow>
          (t\<lparr>tps_inner := s\<rparr>,
           Inr (case current_state (prr_app_id q) (prr_channel q) t of
                  Some state \<Rightarrow>
                    if prs_durable_state state \<noteq> PHealthy then page\<lparr>pp_complete := False, pp_degraded := True\<rparr> else page
                | None \<Rightarrow> page)))"

definition tracking_stream_runtime_state ::
    "(string \<Rightarrow> string \<Rightarrow> 's \<Rightarrow> 's \<times> presence_stream_runtime_state result) \<Rightarrow> string \<Rightarrow> string \<Rightarrow> 's tracking_presence_store \<Rightarrow>
     's tracking_presence_store \<times> presence_stream_runtime_state result" where
  "tracking_stream_runtime_state state_op app_id channel t =
     (case state_op app_id channel (tps_inner t) of
        (s, Inl e) \<Rightarrow> (t\<lparr>tps_inner := s\<rparr>, Inl e)
      | (s, Inr inner_state) \<Rightarrow>
          (t\<lparr>tps_inner := s\<rparr>,
           Inr (case current_state app_id channel t of None \<Rightarrow> inner_state | Some state \<Rightarrow> state)))"

definition tracking_stream_inspection ::
    "(string \<Rightarrow> string \<Rightarrow> 's \<Rightarrow> 's \<times> presence_stream_inspection result) \<Rightarrow> string \<Rightarrow> string \<Rightarrow> 's tracking_presence_store \<Rightarrow>
     's tracking_presence_store \<times> presence_stream_inspection result" where
  "tracking_stream_inspection inspection app_id channel t =
     (case inspection app_id channel (tps_inner t) of
        (s, Inl e) \<Rightarrow> (t\<lparr>tps_inner := s\<rparr>, Inl e)
      | (s, Inr i) \<Rightarrow>
          (t\<lparr>tps_inner := s\<rparr>,
           Inr (case current_state app_id channel t of None \<Rightarrow> i | Some state \<Rightarrow> i\<lparr>psi_state := state\<rparr>)))"

definition tracking_reset_stream ::
    "(string \<Rightarrow> string \<Rightarrow> 's \<Rightarrow> 's \<times> presence_reset_result result) \<Rightarrow>
     (string \<Rightarrow> string \<Rightarrow> 's \<Rightarrow> 's \<times> presence_stream_runtime_state result) \<Rightarrow> string \<Rightarrow> string \<Rightarrow> 's tracking_presence_store \<Rightarrow>
     's tracking_presence_store \<times> presence_reset_result result" where
  "tracking_reset_stream reset_op state_op app_id channel t =
     (case reset_op app_id channel (tps_inner t) of
        (s, Inl e) \<Rightarrow> (t\<lparr>tps_inner := s\<rparr>, Inl e)
      | (s, Inr res) \<Rightarrow>
          (let states = bt_remove (tracking_channel_key app_id channel) (tps_runtime_states t) in
           case state_op app_id channel s of
             (s', Inl e) \<Rightarrow> (t\<lparr>tps_inner := s', tps_runtime_states := states\<rparr>, Inl e)
           | (s', Inr state) \<Rightarrow>
               (t\<lparr>tps_inner := s', tps_runtime_states := states\<rparr>,
                Inr (res\<lparr>prt_inspection := (prt_inspection res)\<lparr>psi_state := state\<rparr>\<rparr>))))"

text \<open>How many noted streams are degraded, and how many of them need a reset.\<close>

definition count_degraded :: "presence_stream_runtime_state list \<Rightarrow> usize \<times> usize" where
  "count_degraded states =
     fold (\<lambda>state (degr, resets).
        case prs_durable_state state of
          PHealthy \<Rightarrow> (degr, resets)
        | PDegraded \<Rightarrow> (degr + 1, resets)
        | PResetRequired \<Rightarrow> (degr + 1, resets + 1)) states (0, 0)"

definition tracking_runtime_status ::
    "('s \<Rightarrow> 's \<times> presence_runtime_status result) \<Rightarrow> 's tracking_presence_store \<Rightarrow>
     's tracking_presence_store \<times> presence_runtime_status result" where
  "tracking_runtime_status status_op t =
     (case status_op (tps_inner t) of
        (s, Inl e) \<Rightarrow> (t\<lparr>tps_inner := s\<rparr>, Inl e)
      | (s, Inr status) \<Rightarrow>
          (case count_degraded (bt_values (tps_runtime_states t)) of
             (degr, resets) \<Rightarrow>
               (t\<lparr>tps_inner := s\<rparr>,
                Inr (status\<lparr>prst_state_authority := tps_state_authority t, prst_degraded_channels := degr,
                            prst_reset_required_channels := resets\<rparr>))))"

section \<open>What the tracking store promises\<close>

definition lost_key :: "'v presence_transition_record \<Rightarrow> string" where
  "lost_key r = tracking_channel_key (ptr_app_id r) (ptr_channel r)"

text \<open>The calls that may follow on a tracking store, other than a reset of the stream of the given transition.\<close>

inductive tracking_step :: "'v presence_transition_record \<Rightarrow> 's tracking_presence_store \<Rightarrow> 's tracking_presence_store \<Rightarrow> bool"
  for lost :: "'v presence_transition_record" where
  step_record: "tracking_step lost t (fst (tracking_record_transition now inspection record_op (r :: 'v presence_transition_record) t))"
| step_read: "tracking_step lost t (fst (tracking_read_page read_op q t))"
| step_runtime_state: "tracking_step lost t (fst (tracking_stream_runtime_state state_op app_id channel t))"
| step_inspection: "tracking_step lost t (fst (tracking_stream_inspection inspection app_id channel t))"
| step_status: "tracking_step lost t (fst (tracking_runtime_status status_op t))"
| step_reset: "tracking_channel_key app_id channel \<noteq> lost_key lost \<Longrightarrow>
    tracking_step lost t (fst (tracking_reset_stream reset_op state_op app_id channel t))"

definition stream_marked :: "string \<Rightarrow> 's tracking_presence_store \<Rightarrow> bool" where
  "stream_marked key t \<longleftrightarrow>
     (case bt_get (tps_runtime_states t) key of None \<Rightarrow> False | Some state \<Rightarrow> prs_durable_state state \<noteq> PHealthy)"

lemma stream_marked_inner [simp]: "stream_marked key (t\<lparr>tps_inner := s\<rparr>) = stream_marked key t"
  by (simp add: stream_marked_def)

lemma failed_write_state_marks [simp]: "prs_durable_state (failed_write_state now authority before) \<noteq> PHealthy"
  by (simp add: failed_write_state_def Let_def)

lemma failed_write_state_consistent:
  "prs_continuity_proven (failed_write_state now authority before) = presence_continuity_proven (prs_durable_state (failed_write_state now authority before))"
  "prs_reset_required (failed_write_state now authority before) \<longleftrightarrow> 0 < pst_retained_events (psi_retained before)"
  by (simp_all add: failed_write_state_def Let_def presence_reset_required_def)

lemma record_marks:
  assumes "tracking_record_transition now inspection record_op r t = (t', Inl e)"
    and "inspection (ptr_app_id r) (ptr_channel r) (tps_inner t) = (s, Inr before)"
  shows "stream_marked (lost_key r) t'"
  using assms
  by (auto simp: tracking_record_transition_def Let_def stream_marked_def lost_key_def bt_get_insert split: prod.splits sum.splits)

lemma tracking_step_keeps_mark:
  assumes "tracking_step lost t t'" "stream_marked (lost_key lost) t"
  shows "stream_marked (lost_key lost) t'"
  using assms
proof cases
  case (step_record now inspection record_op r)
  then show ?thesis
    using assms(2)
    by (auto simp: tracking_record_transition_def Let_def stream_marked_def lost_key_def bt_get_insert split: prod.splits sum.splits)
next
  case (step_reset app_id channel reset_op state_op)
  then show ?thesis
    using assms(2)
    by (auto simp: tracking_reset_stream_def Let_def stream_marked_def bt_get_remove split: prod.splits sum.splits)
qed (use assms(2) in \<open>auto simp: tracking_read_page_def tracking_stream_runtime_state_def tracking_stream_inspection_def
       tracking_runtime_status_def split: prod.splits sum.splits\<close>)

lemma tracking_steps_keep_mark: "(tracking_step lost)\<^sup>*\<^sup>* t t' \<Longrightarrow> stream_marked (lost_key lost) t \<Longrightarrow> stream_marked (lost_key lost) t'"
  by (induction rule: rtranclp_induct) (auto dest: tracking_step_keeps_mark)

lemma marked_read_incomplete:
  assumes "stream_marked (tracking_channel_key (prr_app_id q) (prr_channel q)) t"
    and "tracking_read_page read_op q t = (t', Inr page)"
  shows "\<not> pp_complete page \<and> pp_degraded page"
  using assms by (auto simp: tracking_read_page_def stream_marked_def current_state_def split: prod.splits sum.splits option.splits)

text \<open>A successful reset forgets the mark, and the streams of other keys keep theirs.\<close>

lemma reset_clears_mark:
  assumes "reset_op app_id channel (tps_inner t) = (s, Inr res)"
  shows "\<not> stream_marked (tracking_channel_key app_id channel) (fst (tracking_reset_stream reset_op state_op app_id channel t))"
  using assms by (auto simp: tracking_reset_stream_def Let_def stream_marked_def bt_get_remove split: prod.splits sum.splits)

text \<open>A failed inspection drops the transition and leaves no mark.\<close>

lemma failed_inspection_unmarked:
  assumes "inspection (ptr_app_id r) (ptr_channel r) (tps_inner t) = (s, Inl e)"
  shows "tracking_record_transition now inspection record_op r t = (t\<lparr>tps_inner := s\<rparr>, Inl e)"
  using assms by (simp add: tracking_record_transition_def Let_def)

section \<open>Filtered reads through the tracking store\<close>

text \<open>The scan of a filtered read goes through the same page reader, so its page is flagged as well.\<close>

definition tracking_reader ::
    "(presence_read_request \<Rightarrow> 's \<Rightarrow> 's \<times> presence_page result) \<Rightarrow> 's tracking_presence_store \<Rightarrow> presence_read_request \<Rightarrow>
     's tracking_presence_store \<times> presence_page result" where
  "tracking_reader read_op t q = tracking_read_page read_op q t"

lemma tracking_reader_keeps_mark: "tracking_reader read_op t q = (t', r) \<Longrightarrow> stream_marked key t' = stream_marked key t"
  by (auto simp: tracking_reader_def tracking_read_page_def split: prod.splits sum.splits)

lemma scan_step_flags:
  assumes "\<not> pp_complete page" "pp_degraded page"
  shows "scan_step m q page st = Inl (Inr out) \<Longrightarrow> \<not> pp_complete out \<and> pp_degraded out"
  using assms by (auto simp: scan_step_def scan_merge_def scan_page_def Let_def split: if_splits prod.splits option.splits)

lemma marked_scan_incomplete:
  assumes "stream_marked (tracking_channel_key (prr_app_id q) (prr_channel q)) t"
    and "filtered_scan n (tracking_reader read_op) m q st t = Some (t', Inr page)"
  shows "\<not> pp_complete page \<and> pp_degraded page"
  using assms
proof (induction n arbitrary: st t)
  case (Suc n)
  obtain t1 r where rd: "tracking_reader read_op t (scan_request q st) = (t1, r)" by fastforce
  then obtain p where p: "r = Inr p" using Suc.prems(2) by (cases r) simp_all
  have flags: "\<not> pp_complete p \<and> pp_degraded p"
    using marked_read_incomplete [of "scan_request q st" t read_op t1 p] Suc.prems(1) rd p
    by (simp add: tracking_reader_def scan_request_def)
  show ?case
  proof (cases "scan_step m q p st")
    case (Inl answer)
    then show ?thesis using Suc.prems(2) rd p flags scan_step_flags [of p m q st page] by simp
  next
    case (Inr st')
    then show ?thesis
      using Suc.IH [of t1 st'] Suc.prems rd p by (simp add: tracking_reader_keeps_mark [OF rd])
  qed
qed simp

lemma marked_filtered_incomplete:
  assumes "stream_marked (tracking_channel_key (prr_app_id q) (prr_channel q)) t"
    and "read_filtered_page n (tracking_reader read_op) q f t = Some (t', Inr page)"
  shows "\<not> pp_complete page \<and> pp_degraded page"
  using assms marked_read_incomplete [of q t read_op t' page] marked_scan_incomplete [of q t n read_op]
  by (auto simp: read_filtered_page_def tracking_reader_def [symmetric] split: if_splits sum.splits)

section \<open>The promise\<close>

text \<open>C24: Once a write to a presence stream has failed behind a readable inspection, every page of that stream, filtered or not, is
  reported as incomplete and degraded, whatever calls follow and whatever the inner store answers, until the stream itself is
  reset. Reads through the tracking store never claim continuity across a lost transition.
\<close>

theorem presence_tracking_incomplete_until_reset:
  assumes "tracking_record_transition now inspection record_op r t = (t1, Inl e)"
    and "inspection (ptr_app_id r) (ptr_channel r) (tps_inner t) = (s, Inr before)"
    and "(tracking_step r)\<^sup>*\<^sup>* t1 t2"
    and "prr_app_id q = ptr_app_id r" "prr_channel q = ptr_channel r"
    and "tracking_read_page read_op q t2 = (t3, Inr page) \<or>
         (\<exists>n f. read_filtered_page n (tracking_reader read_op) q f t2 = Some (t3, Inr page))"
  shows "\<not> pp_complete page \<and> pp_degraded page"
proof -
  have "stream_marked (tracking_channel_key (prr_app_id q) (prr_channel q)) t2"
    using tracking_steps_keep_mark [OF assms(3) record_marks [OF assms(1,2)]] assms(4,5) by (simp add: lost_key_def)
  then show ?thesis using assms(6) marked_read_incomplete marked_filtered_incomplete by blast
qed

text \<open>An inner store that inspects and reads but refuses every write; one more read comes in between.\<close>

definition tracking_demo_record :: "unit presence_transition_record" where
  "tracking_demo_record =
     \<lparr>ptr_app_id = ''app'', ptr_channel = ''room'', ptr_event_kind = MemberAdded, ptr_cause = Join, ptr_user_id = ''ann'',
      ptr_connection_id = None, ptr_user_info = None, ptr_dead_node_id = None, ptr_dedupe_key = ''k'',
      ptr_published_at_ms = 5,
      ptr_retention = \<lparr>prp_retention_window_seconds = 60, prp_max_events_per_channel = None, prp_max_bytes_per_channel = None\<rparr>\<rparr>"

definition tracking_demo_inspection :: "string \<Rightarrow> string \<Rightarrow> unit \<Rightarrow> unit \<times> presence_stream_inspection result" where
  "tracking_demo_inspection app_id channel s =
     (s, Inr (default_stream_inspection noop_stream_runtime_state app_id channel))"

definition tracking_demo_failure :: "unit presence_transition_record \<Rightarrow> unit \<Rightarrow> unit \<times> unit result" where
  "tracking_demo_failure r s = (s, Inl (Internal ''forced presence history failure''))"

definition tracking_demo_read :: "presence_read_request \<Rightarrow> unit \<Rightarrow> unit \<times> presence_page result" where
  "tracking_demo_read q s = (s, noop_read_page q)"

lemma presence_tracking_incomplete_until_reset_witness:
  "\<exists>t1 t2 t3 page.
     tracking_record_transition 5 tracking_demo_inspection tracking_demo_failure tracking_demo_record (tracking_new () ''node'') =
       (t1, Inl (Internal ''forced presence history failure'')) \<and>
     t2 = fst (tracking_read_page tracking_demo_read filtered_demo_request t1) \<and>
     tracking_read_page tracking_demo_read filtered_demo_request t2 = (t3, Inr page) \<and>
     \<not> pp_complete page \<and> pp_degraded page"
proof -
  let ?t = "tracking_new () ''node''"
  obtain t1 where t1: "tracking_record_transition 5 tracking_demo_inspection tracking_demo_failure tracking_demo_record ?t =
      (t1, Inl (Internal ''forced presence history failure''))"
    by (simp add: tracking_record_transition_def tracking_demo_inspection_def tracking_demo_failure_def Let_def)
  define t2 where "t2 = fst (tracking_read_page tracking_demo_read filtered_demo_request t1)"
  have step: "(tracking_step tracking_demo_record)\<^sup>*\<^sup>* t1 t2"
    unfolding t2_def by (intro r_into_rtranclp step_read)
  obtain t3 page where read: "tracking_read_page tracking_demo_read filtered_demo_request t2 = (t3, Inr page)"
    by (simp add: tracking_read_page_def tracking_demo_read_def noop_read_page_def filtered_demo_request_def
        presence_read_validate_def opt_gt_def)
  have insp: "\<exists>before. tracking_demo_inspection (ptr_app_id tracking_demo_record) (ptr_channel tracking_demo_record) (tps_inner ?t) =
      ((), Inr before)"
    by (simp add: tracking_demo_inspection_def)
  then obtain before where "tracking_demo_inspection (ptr_app_id tracking_demo_record) (ptr_channel tracking_demo_record) (tps_inner ?t) =
      ((), Inr before)" ..
  from presence_tracking_incomplete_until_reset [OF t1 this step _ _ disjI1 [OF read]] t1 t2_def read
  show ?thesis by (auto simp: filtered_demo_request_def tracking_demo_record_def)
qed

end
