(* ===== verification/Replay_Buffer.thy ===== *)
theory Replay_Buffer
  imports BTree
begin

text \<open>
  The replay buffer of \<^verbatim>\<open>sockudo-adapter/src/replay_buffer.rs\<close>: per channel, the last messages
  broadcast, from which a reconnecting client recovers what it missed. Each operation holds the
  channel's map entry, so it is one atomic step; instants and durations are natural numbers of
  one unit, \<^verbatim>\<open>duration_since\<close> being truncated subtraction; a fresh stream id is an argument.
\<close>

section \<open>Types\<close>

record replay_position =
  rp_stream_id :: string
  rp_serial :: u64

record replay_position_conflict =
  rpc_requested_stream_id :: string
  rpc_requested_serial :: u64
  rpc_current_stream_id :: "string option"
  rpc_newest_serial :: "u64 option"

record buffered_message =
  bm_stream_id :: "string option"
  bm_serial :: u64
  bm_message_bytes :: bytes
  bm_timestamp :: nat

record channel_buffer =
  cb_messages :: "buffered_message list"
  cb_current_stream_id :: "string option"
  cb_last_touched :: nat
  cb_next_serial :: u64

datatype replay_lookup =
    Recovered "bytes list"
  | Expired
  | StreamReset "string option"
  | Ahead u64
  | ContinuityGap u64 u64

record replay_buffer =
  rb_buffers :: "string \<rightharpoonup> channel_buffer"
  rb_max_buffer_size :: usize
  rb_buffer_ttl :: nat

definition replay_buffer_new :: "usize \<Rightarrow> nat \<Rightarrow> replay_buffer" where
  "replay_buffer_new max_buffer_size buffer_ttl =
     \<lparr>rb_buffers = Map.empty, rb_max_buffer_size = max_buffer_size, rb_buffer_ttl = buffer_ttl\<rparr>"

definition replay_buffer_key :: "string \<Rightarrow> string \<Rightarrow> string" where
  "replay_buffer_key app_id channel = app_id @ CHR 0x00 # channel"

definition new_channel_buffer :: "string option \<Rightarrow> u64 \<Rightarrow> nat \<Rightarrow> channel_buffer" where
  "new_channel_buffer stream_id next_serial now =
     \<lparr>cb_messages = [], cb_current_stream_id = stream_id, cb_last_touched = now, cb_next_serial = next_serial\<rparr>"

text \<open>The compare-and-exchange loop raises the counter to a bound and never lowers it.\<close>

definition raise_next_serial :: "u64 \<Rightarrow> channel_buffer \<Rightarrow> channel_buffer" where
  "raise_next_serial next_serial b =
     (if cb_next_serial b < next_serial then b\<lparr>cb_next_serial := next_serial\<rparr> else b)"

definition prune_expired_locked :: "nat \<Rightarrow> nat \<Rightarrow> buffered_message list \<Rightarrow> buffered_message list" where
  "prune_expired_locked buffer_ttl now ms =
     snd (pop_front_while (\<lambda>_ ms. now - bm_timestamp (hd ms) \<ge> buffer_ttl) (\<lambda>_ u. u) () ms)"

definition replay_entry :: "channel_buffer \<Rightarrow> string \<Rightarrow> replay_buffer \<Rightarrow> channel_buffer" where
  "replay_entry b0 key s = (case rb_buffers s key of None \<Rightarrow> b0 | Some b \<Rightarrow> b)"

definition replay_put :: "string \<Rightarrow> channel_buffer \<Rightarrow> replay_buffer \<Rightarrow> replay_buffer" where
  "replay_put key b s = s\<lparr>rb_buffers := (rb_buffers s)(key \<mapsto> b)\<rparr>"

section \<open>Positions\<close>

text \<open>\<^verbatim>\<open>current_stream_id.get_or_insert_with(new_stream_id)\<close> and touching the entry.\<close>

definition replay_touch_stream :: "nat \<Rightarrow> string \<Rightarrow> channel_buffer \<Rightarrow> channel_buffer \<times> string" where
  "replay_touch_stream now fresh b =
     (let stream_id = (case cb_current_stream_id b of None \<Rightarrow> fresh | Some i \<Rightarrow> i)
      in (b\<lparr>cb_current_stream_id := Some stream_id, cb_last_touched := now\<rparr>, stream_id))"

definition current_position ::
    "nat \<Rightarrow> string \<Rightarrow> string \<Rightarrow> string \<Rightarrow> replay_buffer \<Rightarrow> replay_buffer \<times> replay_position" where
  "current_position now fresh app_id channel s =
     (let key = replay_buffer_key app_id channel;
          b = replay_entry (new_channel_buffer (Some fresh) 1 now) key s;
          (b', stream_id) = replay_touch_stream now fresh b
      in (replay_put key b' s,
          \<lparr>rp_stream_id = stream_id, rp_serial = sat_sub (cb_next_serial b') 1\<rparr>))"

fun max_by_serial :: "buffered_message list \<Rightarrow> buffered_message option" where
  "max_by_serial [] = None"
| "max_by_serial (m # ms) =
     (case max_by_serial ms of None \<Rightarrow> Some m
      | Some m' \<Rightarrow> Some (if bm_serial m' < bm_serial m then m else m'))"

definition latest_stored_position :: "string \<Rightarrow> string \<Rightarrow> replay_buffer \<Rightarrow> replay_position option" where
  "latest_stored_position app_id channel s =
     (case rb_buffers s (replay_buffer_key app_id channel) of
        None \<Rightarrow> None
      | Some b \<Rightarrow>
          (case max_by_serial (cb_messages b) of
             None \<Rightarrow> None
           | Some m \<Rightarrow>
               (case bm_stream_id m of
                  None \<Rightarrow> None
                | Some i \<Rightarrow> Some \<lparr>rp_stream_id = i, rp_serial = bm_serial m\<rparr>)))"

definition adopt_stream :: "nat \<Rightarrow> string \<Rightarrow> channel_buffer \<Rightarrow> channel_buffer" where
  "adopt_stream now stream_id b =
     (let b' = (if cb_messages b = [] \<or> cb_current_stream_id b = None
                then b\<lparr>cb_current_stream_id := Some stream_id\<rparr> else b)
      in b'\<lparr>cb_last_touched := now\<rparr>)"

definition ensure_position ::
    "nat \<Rightarrow> string \<Rightarrow> string \<Rightarrow> string \<Rightarrow> u64 \<Rightarrow> replay_buffer \<Rightarrow> replay_buffer \<times> replay_position" where
  "ensure_position now app_id channel stream_id serial s =
     (let key = replay_buffer_key app_id channel;
          next_serial = sat_add serial 1;
          b = replay_entry (new_channel_buffer (Some stream_id) next_serial now) key s
      in (replay_put key (raise_next_serial next_serial (adopt_stream now stream_id b)) s,
          \<lparr>rp_stream_id = stream_id, rp_serial = serial\<rparr>))"

definition try_ensure_position ::
    "nat \<Rightarrow> string \<Rightarrow> string \<Rightarrow> string \<Rightarrow> u64 \<Rightarrow> replay_buffer \<Rightarrow>
     replay_buffer \<times> (replay_position_conflict + replay_position)" where
  "try_ensure_position now app_id channel stream_id serial s =
     (let key = replay_buffer_key app_id channel;
          next_serial = sat_add serial 1;
          b = replay_entry (new_channel_buffer (Some stream_id) next_serial now) key s;
          newest_serial = map_option bm_serial (back_of (cb_messages b));
          populated_stream_mismatch = (cb_messages b \<noteq> [] \<and> cb_current_stream_id b \<noteq> Some stream_id);
          out_of_order = (case newest_serial of None \<Rightarrow> False | Some newest \<Rightarrow> serial \<le> newest)
      in if populated_stream_mismatch \<or> out_of_order
         then (replay_put key b s,
               Inl \<lparr>rpc_requested_stream_id = stream_id, rpc_requested_serial = serial,
                    rpc_current_stream_id = cb_current_stream_id b, rpc_newest_serial = newest_serial\<rparr>)
         else (replay_put key (raise_next_serial next_serial (adopt_stream now stream_id b)) s,
               Inr \<lparr>rp_stream_id = stream_id, rp_serial = serial\<rparr>))"

definition next_position ::
    "nat \<Rightarrow> string \<Rightarrow> string \<Rightarrow> string \<Rightarrow> replay_buffer \<Rightarrow> replay_buffer \<times> replay_position" where
  "next_position now fresh app_id channel s =
     (let key = replay_buffer_key app_id channel;
          b = replay_entry (new_channel_buffer (Some fresh) 1 now) key s;
          (b', stream_id) = replay_touch_stream now fresh b
      in (replay_put key (b'\<lparr>cb_next_serial := cb_next_serial b' + 1\<rparr>) s,
          \<lparr>rp_stream_id = stream_id, rp_serial = cb_next_serial b'\<rparr>))"

definition replay_next_serial :: "nat \<Rightarrow> string \<Rightarrow> string \<Rightarrow> string \<Rightarrow> replay_buffer \<Rightarrow> replay_buffer \<times> u64" where
  "replay_next_serial now fresh app_id channel s =
     (case next_position now fresh app_id channel s of (s', position) \<Rightarrow> (s', rp_serial position))"

section \<open>Storing and looking up\<close>

text \<open>
  The capacity loop of \<^verbatim>\<open>store\<close>: \<^verbatim>\<open>while len() >= max { pop_front() }\<close>. Popping an empty queue
  does nothing, so the loop may not end; then its value is \<^term>\<open>None\<close>.
\<close>

partial_function (option) pop_to_capacity :: "nat \<Rightarrow> 'a list \<Rightarrow> 'a list option" where
  "pop_to_capacity cap ms = (if length ms \<ge> cap then pop_to_capacity cap (tl ms) else Some ms)"

definition replay_store_channel ::
    "nat \<Rightarrow> nat \<Rightarrow> string option \<Rightarrow> u64 \<Rightarrow> bytes \<Rightarrow> channel_buffer \<Rightarrow> channel_buffer option" where
  "replay_store_channel cap now stream_id serial message_bytes b =
     (let messages = (if cb_current_stream_id b \<noteq> stream_id then [] else cb_messages b);
          b1 = raise_next_serial (sat_add serial 1)
                 (b\<lparr>cb_current_stream_id := stream_id, cb_last_touched := now\<rparr>)
      in case pop_to_capacity cap messages of
           None \<Rightarrow> None
         | Some ms \<Rightarrow>
             Some (b1\<lparr>cb_messages := ms @ [\<lparr>bm_stream_id = stream_id, bm_serial = serial,
                         bm_message_bytes = message_bytes, bm_timestamp = now\<rparr>]\<rparr>))"

definition replay_store ::
    "nat \<Rightarrow> string \<Rightarrow> string \<Rightarrow> string option \<Rightarrow> u64 \<Rightarrow> bytes \<Rightarrow> replay_buffer \<Rightarrow> replay_buffer option" where
  "replay_store now app_id channel stream_id serial message_bytes s =
     (let key = replay_buffer_key app_id channel;
          b = replay_entry (new_channel_buffer stream_id (sat_add serial 1) now) key s
      in case replay_store_channel (unat (rb_max_buffer_size s)) now stream_id serial message_bytes b of
           None \<Rightarrow> None
         | Some b' \<Rightarrow> Some (replay_put key b' s))"

text \<open>The loop over the sorted candidates: the collected bytes and the next expected serial, or a gap.\<close>

fun replay_collect :: "string option \<Rightarrow> u64 \<Rightarrow> buffered_message list \<Rightarrow> (u64 \<times> u64) + (bytes list \<times> u64)" where
  "replay_collect stream expected [] = Inr ([], expected)"
| "replay_collect stream expected (m # ms) =
     (if bm_stream_id m \<noteq> stream \<or> bm_serial m \<noteq> expected then Inl (expected, bm_serial m)
      else case replay_collect stream (sat_add expected 1) ms of
             Inl gap \<Rightarrow> Inl gap
           | Inr (result, e) \<Rightarrow> Inr (bm_message_bytes m # result, e))"

definition min_serial :: "u64 \<Rightarrow> buffered_message list \<Rightarrow> u64" where
  "min_serial d ms = (case ms of [] \<Rightarrow> d | m # ms' \<Rightarrow> fold min (map bm_serial ms') (bm_serial m))"

definition replay_lookup_channel ::
    "nat \<Rightarrow> nat \<Rightarrow> string option \<Rightarrow> u64 \<Rightarrow> channel_buffer \<Rightarrow> channel_buffer \<times> replay_lookup" where
  "replay_lookup_channel ttl now stream_id last_serial b =
     (if (case stream_id of None \<Rightarrow> False | Some expected \<Rightarrow> cb_current_stream_id b \<noteq> Some expected)
      then (b, StreamReset (cb_current_stream_id b))
      else
        (let b' = b\<lparr>cb_messages := prune_expired_locked ttl now (cb_messages b)\<rparr>;
             newest_serial = sat_sub (cb_next_serial b') 1 in
         if last_serial > newest_serial then (b', Ahead newest_serial)
         else if last_serial = newest_serial then (b', Recovered [])
         else if cb_messages b' = [] then (b', Expired)
         else if sat_add last_serial 1 < min_serial newest_serial (cb_messages b') then (b', Expired)
         else
           (let candidates = sort_key bm_serial (filter (\<lambda>m. bm_serial m > last_serial) (cb_messages b')) in
            case replay_collect (cb_current_stream_id b') (sat_add last_serial 1) candidates of
              Inl (expected, observed) \<Rightarrow> (b', ContinuityGap expected observed)
            | Inr (result, expected) \<Rightarrow>
                if expected \<le> newest_serial then (b', ContinuityGap expected newest_serial)
                else (b', Recovered result))))"

definition get_messages_after_position ::
    "nat \<Rightarrow> string \<Rightarrow> string \<Rightarrow> string option \<Rightarrow> u64 \<Rightarrow> replay_buffer \<Rightarrow> replay_buffer \<times> replay_lookup" where
  "get_messages_after_position now app_id channel stream_id last_serial s =
     (let key = replay_buffer_key app_id channel in
      case rb_buffers s key of
        None \<Rightarrow> (s, Expired)
      | Some b \<Rightarrow>
          (let (b', r) = replay_lookup_channel (rb_buffer_ttl s) now stream_id last_serial b
           in (replay_put key b' s, r)))"

definition get_messages_after ::
    "nat \<Rightarrow> string \<Rightarrow> string \<Rightarrow> u64 \<Rightarrow> replay_buffer \<Rightarrow> replay_buffer \<times> bytes list option" where
  "get_messages_after now app_id channel last_serial s =
     (case get_messages_after_position now app_id channel None last_serial s of
        (s', Recovered messages) \<Rightarrow> (s', Some messages)
      | (s', _) \<Rightarrow> (s', None))"

text \<open>
  \<^verbatim>\<open>evict_expired\<close>: one pass over the map, whose keys in iteration order are \<open>keys\<close>, that prunes every
  channel and notes the idle empty ones, then a conditional removal of each of those.
\<close>

definition replay_idle :: "nat \<Rightarrow> nat \<Rightarrow> channel_buffer \<Rightarrow> bool" where
  "replay_idle ttl now b \<longleftrightarrow> cb_messages b = [] \<and> now - cb_last_touched b \<ge> ttl"

definition replay_prune_all :: "nat \<Rightarrow> replay_buffer \<Rightarrow> replay_buffer" where
  "replay_prune_all now s =
     s\<lparr>rb_buffers := (\<lambda>k. map_option
          (\<lambda>b. b\<lparr>cb_messages := prune_expired_locked (rb_buffer_ttl s) now (cb_messages b)\<rparr>) (rb_buffers s k))\<rparr>"

definition replay_remove_if :: "nat \<Rightarrow> string \<Rightarrow> replay_buffer \<Rightarrow> replay_buffer" where
  "replay_remove_if now key s =
     (case rb_buffers s key of
        None \<Rightarrow> s
      | Some b \<Rightarrow> if replay_idle (rb_buffer_ttl s) now b then s\<lparr>rb_buffers := (rb_buffers s)(key := None)\<rparr> else s)"

definition replay_evict_expired :: "nat \<Rightarrow> string list \<Rightarrow> replay_buffer \<Rightarrow> replay_buffer" where
  "replay_evict_expired now keys s =
     (let s' = replay_prune_all now s;
          empty_keys = filter (\<lambda>key. case rb_buffers s' key of None \<Rightarrow> False | Some b \<Rightarrow> replay_idle (rb_buffer_ttl s') now b) keys
      in fold (replay_remove_if now) empty_keys s')"

section \<open>Facts\<close>

lemma pop_to_capacity_Some:
  "0 < cap \<Longrightarrow> pop_to_capacity cap ms = Some (drop (Suc (length ms) - cap) ms)"
proof (induction ms)
  case Nil
  then show ?case by (subst pop_to_capacity.simps) simp
next
  case (Cons m ms)
  then show ?case
    by (subst pop_to_capacity.simps) (auto simp: Suc_diff_le not_le less_Suc_eq_le)
qed

lemma pop_to_capacity_cap:
  assumes "pop_to_capacity cap ms = Some r"
  shows "0 < cap"
proof (rule pop_to_capacity.raw_induct [where P = "\<lambda>cap ms r. 0 < cap", OF _ assms])
  show "0 < cap" if "\<And>cap ms r. f cap ms = Some r \<Longrightarrow> 0 < cap"
    and "(if cap \<le> length ms then f cap (tl ms) else Some ms) = Some r"
    for f :: "nat \<Rightarrow> 'a list \<Rightarrow> 'a list option" and cap ms r
    using that by (auto split: if_splits)
qed

lemma prune_expired_locked_drop: "\<exists>n. prune_expired_locked ttl now ms = drop n ms"
proof -
  obtain u ms' where "pop_front_while (\<lambda>_ ms. now - bm_timestamp (hd ms) \<ge> ttl) (\<lambda>_ u. u) () ms = (u, ms')"
    by (rule prod.exhaust)
  from pop_front_while_drop [OF this] this show ?thesis
    by (auto simp: prune_expired_locked_def)
qed

lemma prune_expired_locked_sub: "m \<in> set (prune_expired_locked ttl now ms) \<Longrightarrow> m \<in> set ms"
  using prune_expired_locked_drop [of ttl now ms] by (auto dest: in_set_dropD)

definition replay_bounded :: "channel_buffer \<Rightarrow> bool" where
  "replay_bounded b \<longleftrightarrow> (\<forall>m \<in> set (cb_messages b). bm_serial m < cb_next_serial b)"

lemma min_serial_le: "m \<in> set ms \<Longrightarrow> min_serial d ms \<le> bm_serial m"
proof -
  have "fold min xs a \<le> a \<and> (\<forall>x \<in> set xs. fold min xs a \<le> x)" for xs and a :: u64
  proof (induction xs arbitrary: a)
    case (Cons x xs)
    then have "fold min xs (min x a) \<le> min x a" "\<forall>y \<in> set xs. fold min xs (min x a) \<le> y" by blast+
    then show ?case by simp
  qed simp
  then show "m \<in> set ms \<Longrightarrow> min_serial d ms \<le> bm_serial m"
    by (cases ms) (auto simp: min_serial_def)
qed

text \<open>A successful pass over the candidates has seen consecutive serials of the current stream.\<close>

lemma replay_collect_Inr:
  assumes "replay_collect stream e ms = Inr (rs, e')" and "\<forall>m \<in> set ms. bm_serial m \<noteq> - 1"
  shows "map (\<lambda>m. unat (bm_serial m)) ms = [unat e..<unat e'] \<and> unat e \<le> unat e' \<and>
    rs = map bm_message_bytes ms \<and> (\<forall>m \<in> set ms. bm_stream_id m = stream)"
  using assms
proof (induction ms arbitrary: e rs)
  case (Cons m ms)
  then obtain rs' where m: "bm_stream_id m = stream" "bm_serial m = e" "rs = bm_message_bytes m # rs'"
    and rec: "replay_collect stream (sat_add e 1) ms = Inr (rs', e')"
    by (auto split: if_splits sum.splits)
  have "unat (sat_add e 1) = Suc (unat e)"
    using Cons.prems(2) m(2) by (simp add: unat_sat_add u64_neq_max_iff)
  with Cons.IH [OF rec] Cons.prems(2) m show ?case by (simp add: upt_conv_Cons)
qed simp

lemma replay_collect_upt:
  assumes "map (\<lambda>m. unat (bm_serial m)) ms = [unat e..<n]" and "n < 2 ^ 64" and "unat e \<le> n"
    and "\<forall>m \<in> set ms. bm_stream_id m = stream"
  shows "\<exists>e'. replay_collect stream e ms = Inr (map bm_message_bytes ms, e') \<and> unat e' = n"
  using assms
proof (induction ms arbitrary: e)
  case Nil
  then show ?case using upt_eq_Nil_conv [of "unat e" n] by auto
next
  case (Cons m ms)
  then have lt: "unat e < n" by (cases "unat e < n") simp_all
  with Cons.prems(1) have "unat (bm_serial m) = unat e" and tail: "map (\<lambda>m. unat (bm_serial m)) ms = [Suc (unat e)..<n]"
    by (simp_all add: upt_conv_Cons [of "unat e"])
  then have m: "bm_serial m = e" by (simp add: u64_eq_iff)
  have suc: "unat (sat_add e 1) = Suc (unat e)"
    using lt Cons.prems(2) by (simp add: unat_sat_add)
  have "\<exists>e'. replay_collect stream (sat_add e 1) ms = Inr (map bm_message_bytes ms, e') \<and> unat e' = n"
    by (rule Cons.IH) (use tail suc lt Cons.prems in simp_all)
  with m Cons.prems(4) show ?case by auto
qed

lemma replay_lookup_recovered:
  assumes "replay_lookup_channel ttl now sid lst b = (b', Recovered rs)" and "replay_bounded b"
  shows "\<exists>ms. set ms \<subseteq> set (cb_messages b) \<and> (\<forall>m \<in> set ms. bm_stream_id m = cb_current_stream_id b) \<and>
    map (\<lambda>m. unat (bm_serial m)) ms = [Suc (unat lst)..<unat (cb_next_serial b)] \<and>
    rs = map bm_message_bytes ms \<and> (\<forall>i. sid = Some i \<longrightarrow> cb_current_stream_id b = Some i)"
proof -
  let ?pr = "prune_expired_locked ttl now (cb_messages b)" and ?next = "cb_next_serial b"
  let ?cand = "sort_key bm_serial (filter (\<lambda>m. bm_serial m > lst) ?pr)"
  have sid: "\<forall>i. sid = Some i \<longrightarrow> cb_current_stream_id b = Some i"
    using assms(1) by (auto simp: replay_lookup_channel_def split: if_splits)
  have le: "lst \<le> sat_sub ?next 1"
    using assms(1) by (auto simp: replay_lookup_channel_def Let_def split: if_splits)
  show ?thesis
  proof (cases "lst = sat_sub ?next 1")
    case True
    with assms(1) have "rs = []" by (auto simp: replay_lookup_channel_def Let_def split: if_splits)
    with True sid show ?thesis
      by (intro exI [of _ "[]"]) (simp add: unat_sat_sub)
  next
    case False
    with assms(1) le obtain e' where
      col: "replay_collect (cb_current_stream_id b) (sat_add lst 1) ?cand = Inr (rs, e')" and e': "\<not> e' \<le> sat_sub ?next 1"
      by (auto simp: replay_lookup_channel_def Let_def split: if_splits sum.splits)
    have sub: "set ?cand \<subseteq> set (cb_messages b)" by (auto dest: prune_expired_locked_sub)
    have bounded: "\<forall>m \<in> set ?cand. bm_serial m < ?next" using sub assms(2) by (auto simp: replay_bounded_def)
    have max: "x < y \<Longrightarrow> x \<noteq> - 1" for x y :: u64 by auto
    have max': "\<forall>m \<in> set ?cand. bm_serial m \<noteq> - 1" using bounded max by blast
    note col' = replay_collect_Inr [OF col max']
    have suc: "unat (sat_add lst 1) = Suc (unat lst)" and lt: "Suc (unat lst) < unat ?next"
      using le False unat_u64_less [of ?next] by (auto simp: u64_unat u64_eq_iff)
    have "unat e' = unat ?next"
    proof (rule antisym)
      show "unat ?next \<le> unat e'" using e' by (simp add: u64_unat)
      show "unat e' \<le> unat ?next"
      proof (cases "Suc (unat lst) < unat e'")
        case True
        then have "unat e' - 1 \<in> set (map (\<lambda>m. unat (bm_serial m)) ?cand)"
          using col' suc by (simp del: set_map)
        then obtain m where "m \<in> set ?cand" "unat (bm_serial m) = unat e' - 1"
          unfolding set_map by force
        with bounded True show ?thesis by (fastforce simp: u64_less_iff)
      next
        case False
        with lt show ?thesis by simp
      qed
    qed
    with col' suc sub sid show ?thesis by (intro exI [of _ ?cand]) auto
  qed
qed

lemma sorted_unat_serials: "sorted (map (\<lambda>m. unat (bm_serial m)) (sort_key bm_serial ms))"
proof -
  have "sorted_wrt (\<lambda>x y. bm_serial x \<le> bm_serial y) (sort_key bm_serial ms)"
    using sorted_sort_key [of bm_serial ms] by (simp add: sorted_wrt_map)
  then show ?thesis by (simp add: sorted_wrt_map u64_le_iff)
qed

lemma distinct_unat_serials:
  assumes "distinct (map bm_serial ms)"
  shows "distinct (map (\<lambda>m. unat (bm_serial m)) (sort_key bm_serial (filter P ms)))"
  using assms by (auto simp: distinct_map inj_on_def u64_eq_iff)

lemma replay_lookup_complete:
  assumes sid: "\<forall>i. sid = Some i \<longrightarrow> cb_current_stream_id b = Some i" and bound: "replay_bounded b"
    and lt: "unat lst < unat (cb_next_serial b)"
    and dist: "distinct (map bm_serial (prune_expired_locked ttl now (cb_messages b)))"
    and stream: "\<forall>m \<in> set (prune_expired_locked ttl now (cb_messages b)). bm_stream_id m = cb_current_stream_id b"
    and cover: "\<forall>n. unat lst < n \<longrightarrow> n < unat (cb_next_serial b) \<longrightarrow>
      (\<exists>m \<in> set (prune_expired_locked ttl now (cb_messages b)). unat (bm_serial m) = n)"
  shows "snd (replay_lookup_channel ttl now sid lst b) = Recovered (map bm_message_bytes
    (sort_key bm_serial (filter (\<lambda>m. bm_serial m > lst) (prune_expired_locked ttl now (cb_messages b)))))"
proof -
  let ?pr = "prune_expired_locked ttl now (cb_messages b)" and ?next = "cb_next_serial b"
  let ?cand = "sort_key bm_serial (filter (\<lambda>m. bm_serial m > lst) ?pr)"
  have lt_next: "m \<in> set ?pr \<Longrightarrow> unat (bm_serial m) < unat ?next" for m
    using bound prune_expired_locked_sub [of m ttl now "cb_messages b"] by (simp add: replay_bounded_def u64_less_iff)
  have "set (map (\<lambda>m. unat (bm_serial m)) ?cand) = {Suc (unat lst)..<unat ?next}"
  proof (rule set_eqI, rule iffI)
    show "n \<in> {Suc (unat lst)..<unat ?next}" if "n \<in> set (map (\<lambda>m. unat (bm_serial m)) ?cand)" for n
      using that lt_next by (auto simp: u64_less_iff)
    show "n \<in> set (map (\<lambda>m. unat (bm_serial m)) ?cand)" if n: "n \<in> {Suc (unat lst)..<unat ?next}" for n
    proof -
      from n have "unat lst < n" "n < unat ?next" by auto
      with cover obtain m where "m \<in> set ?pr" "unat (bm_serial m) = n" by blast
      with n show ?thesis by (auto simp: u64_less_iff)
    qed
  qed
  then have serials: "map (\<lambda>m. unat (bm_serial m)) ?cand = [Suc (unat lst)..<unat ?next]"
    using sorted_unat_serials distinct_unat_serials [OF dist]
    by (intro sorted_distinct_set_unique) simp_all
  have newest: "unat (sat_sub ?next 1) = unat ?next - 1" by (simp add: unat_sat_sub)
  have suc: "unat (sat_add lst 1) = Suc (unat lst)"
    using lt unat_u64_less [of ?next] by (simp add: unat_sat_add)
  obtain e' where e': "replay_collect (cb_current_stream_id b) (sat_add lst 1) ?cand = Inr (map bm_message_bytes ?cand, e')"
    "unat e' = unat ?next"
    using replay_collect_upt [of ?cand "sat_add lst 1" "unat ?next" "cb_current_stream_id b"] serials suc lt stream
      unat_u64_less [of ?next] by auto
  have gt: "\<not> lst > sat_sub ?next 1" using lt by (simp add: u64_unat)
  show ?thesis
  proof (cases "lst = sat_sub ?next 1")
    case True
    then have "length ?cand = 0"
      using serials lt newest by (metis diff_self_eq_0 length_map length_upt Suc_pred' gr_implies_not0 not_gr0)
    then have "?cand = []" by (simp only: length_0_conv)
    with True sid gt show ?thesis by (auto simp: replay_lookup_channel_def Let_def split: option.splits)
  next
    case False
    then have "Suc (unat lst) < unat ?next" using lt newest by (simp add: u64_eq_iff)
    with cover obtain m where m: "m \<in> set ?pr" "unat (bm_serial m) = Suc (unat lst)" by auto
    then have "?pr \<noteq> []" "\<not> sat_add lst 1 < min_serial (sat_sub ?next 1) ?pr"
      using min_serial_le [OF m(1), of "sat_sub ?next 1"] suc by (auto simp: u64_unat)
    moreover have "\<not> e' \<le> sat_sub ?next 1" using e'(2) lt by (simp add: u64_unat)
    ultimately show ?thesis
      using False sid gt e'(1) by (auto simp: replay_lookup_channel_def Let_def split: option.splits)
  qed
qed

section \<open>Reachable buffers\<close>

definition replay_channel_ok :: "nat \<Rightarrow> channel_buffer \<Rightarrow> bool" where
  "replay_channel_ok cap b \<longleftrightarrow> replay_bounded b \<and> length (cb_messages b) \<le> cap"

definition replay_ok :: "replay_buffer \<Rightarrow> bool" where
  "replay_ok s \<longleftrightarrow> (\<forall>k b. rb_buffers s k = Some b \<longrightarrow> replay_channel_ok (unat (rb_max_buffer_size s)) b)"

text \<open>
  The operations, as long as serial numbers are not exhausted; storing is the step of a call that
  returns.
\<close>

inductive replay_step :: "replay_buffer \<Rightarrow> replay_buffer \<Rightarrow> bool" where
  current: "replay_step s (fst (current_position now fresh app_id channel s))"
| ensure: "serial \<noteq> - 1 \<Longrightarrow> replay_step s (fst (ensure_position now app_id channel stream_id serial s))"
| try_ensure: "serial \<noteq> - 1 \<Longrightarrow> replay_step s (fst (try_ensure_position now app_id channel stream_id serial s))"
| next_pos: "(\<And>b. rb_buffers s (replay_buffer_key app_id channel) = Some b \<Longrightarrow> cb_next_serial b \<noteq> - 1) \<Longrightarrow>
     replay_step s (fst (next_position now fresh app_id channel s))"
| store: "serial \<noteq> - 1 \<Longrightarrow> replay_store now app_id channel stream_id serial bs s = Some s' \<Longrightarrow> replay_step s s'"
| lookup: "replay_step s (fst (get_messages_after_position now app_id channel stream_id lst s))"
| evict: "replay_step s (replay_evict_expired now keys s)"

inductive replay_reachable :: "usize \<Rightarrow> nat \<Rightarrow> replay_buffer \<Rightarrow> bool" for cap ttl where
  start: "replay_reachable cap ttl (replay_buffer_new cap ttl)"
| more: "replay_reachable cap ttl s \<Longrightarrow> replay_step s s' \<Longrightarrow> replay_reachable cap ttl s'"

lemma replay_put_ok:
  "replay_ok s \<Longrightarrow> replay_channel_ok (unat (rb_max_buffer_size s)) b \<Longrightarrow> replay_ok (replay_put key b s)"
  by (simp add: replay_ok_def replay_put_def)

lemma replay_entry_ok:
  "replay_ok s \<Longrightarrow> cb_messages b0 = [] \<Longrightarrow> replay_channel_ok (unat (rb_max_buffer_size s)) (replay_entry b0 key s)"
  by (auto simp: replay_entry_def replay_ok_def replay_channel_ok_def replay_bounded_def split: option.splits)

lemma new_channel_buffer_messages [simp]: "cb_messages (new_channel_buffer sid n now) = []"
  by (simp add: new_channel_buffer_def)

lemma raise_next_serial_simps [simp]:
  "cb_messages (raise_next_serial n b) = cb_messages b"
  "cb_current_stream_id (raise_next_serial n b) = cb_current_stream_id b"
  "cb_next_serial (raise_next_serial n b) = max (cb_next_serial b) n"
  by (auto simp: raise_next_serial_def max_def)

lemma adopt_stream_simps [simp]:
  "cb_messages (adopt_stream now sid b) = cb_messages b"
  "cb_next_serial (adopt_stream now sid b) = cb_next_serial b"
  by (auto simp: adopt_stream_def Let_def)

lemma replay_raise_ok:
  "replay_channel_ok cap b \<Longrightarrow> replay_channel_ok cap (raise_next_serial n (adopt_stream now sid b))"
  by (auto simp: replay_channel_ok_def replay_bounded_def less_max_iff_disj)

lemma replay_prune_ok:
  assumes "replay_channel_ok cap b"
  shows "replay_channel_ok cap (b\<lparr>cb_messages := prune_expired_locked ttl now (cb_messages b)\<rparr>)"
proof -
  obtain n where "prune_expired_locked ttl now (cb_messages b) = drop n (cb_messages b)"
    using prune_expired_locked_drop by blast
  then have "length (prune_expired_locked ttl now (cb_messages b)) \<le> length (cb_messages b)" by simp
  with assms show ?thesis
    by (auto simp: replay_channel_ok_def replay_bounded_def dest: prune_expired_locked_sub)
qed

lemma replay_store_channel_ok:
  assumes "replay_channel_ok cap b" and "serial \<noteq> - 1"
    and "replay_store_channel cap now sid serial bs b = Some b'"
  shows "replay_channel_ok cap b'"
proof -
  let ?ms = "if cb_current_stream_id b \<noteq> sid then [] else cb_messages b"
  obtain ms where ms: "pop_to_capacity cap ?ms = Some ms"
    and b': "cb_messages b' = ms @ [\<lparr>bm_stream_id = sid, bm_serial = serial, bm_message_bytes = bs, bm_timestamp = now\<rparr>]"
      "cb_next_serial b' = max (cb_next_serial b) (sat_add serial 1)"
    using assms(3) unfolding replay_store_channel_def Let_def by (auto split: option.splits)
  have cap: "0 < cap" using pop_to_capacity_cap [OF ms] .
  then have "ms = drop (Suc (length ?ms) - cap) ?ms" using ms pop_to_capacity_Some [OF cap, of ?ms] by simp
  then have "length ms < cap" and sub: "set ms \<subseteq> set (cb_messages b)"
    using cap set_drop_subset [of "Suc (length ?ms) - cap" ?ms] by (auto split: if_splits)
  moreover have "serial < max (cb_next_serial b) (sat_add serial 1)"
    using less_sat_add_1 [OF assms(2)] by (simp add: less_max_iff_disj)
  ultimately show ?thesis
    using assms(1) b' by (auto simp: replay_channel_ok_def replay_bounded_def less_max_iff_disj)
qed

lemma replay_remove_if_ok: "replay_ok s \<Longrightarrow> replay_ok (replay_remove_if now key s)"
  by (auto simp: replay_ok_def replay_remove_if_def split: option.splits)

lemma replay_evict_ok: "replay_ok s \<Longrightarrow> replay_ok (replay_evict_expired now keys s)"
proof -
  assume s: "replay_ok s"
  have "replay_ok (replay_prune_all now s)"
    using s by (auto simp: replay_ok_def replay_prune_all_def replay_prune_ok)
  then have "replay_ok (fold (replay_remove_if now) empty_keys (replay_prune_all now s))" for empty_keys
    by (induction empty_keys rule: rev_induct) (simp_all add: replay_remove_if_ok)
  then show ?thesis by (simp add: replay_evict_expired_def Let_def)
qed

lemma replay_lookup_channel_ok:
  "replay_channel_ok cap b \<Longrightarrow> replay_channel_ok cap (fst (replay_lookup_channel ttl now sid lst b))"
  using replay_prune_ok [of cap b ttl now]
  by (auto simp: replay_lookup_channel_def Let_def split: sum.splits prod.splits)


lemma replay_step_ok: "replay_step s s' \<Longrightarrow> replay_ok s \<Longrightarrow> replay_ok s'"
proof (induction rule: replay_step.induct)
  case (current s now fresh app_id channel)
  let ?b = "replay_entry (new_channel_buffer (Some fresh) 1 now) (replay_buffer_key app_id channel) s"
  have "replay_channel_ok (unat (rb_max_buffer_size s)) ?b" using current by (intro replay_entry_ok) simp_all
  then show ?case using current
    by (auto simp: current_position_def replay_touch_stream_def Let_def replay_channel_ok_def replay_bounded_def
        intro!: replay_put_ok)
next
  case (ensure serial s now app_id channel stream_id)
  then show ?case
    by (auto simp: ensure_position_def Let_def intro!: replay_put_ok replay_raise_ok replay_entry_ok)
next
  case (try_ensure serial s now app_id channel stream_id)
  then show ?case
    by (auto simp: try_ensure_position_def Let_def intro!: replay_put_ok replay_raise_ok replay_entry_ok)
next
  case (next_pos s app_id channel now fresh)
  let ?b = "replay_entry (new_channel_buffer (Some fresh) 1 now) (replay_buffer_key app_id channel) s"
  have ok: "replay_channel_ok (unat (rb_max_buffer_size s)) ?b" using next_pos(2) by (intro replay_entry_ok) simp_all
  have "cb_next_serial ?b \<noteq> - 1"
    using next_pos(1) by (auto simp: replay_entry_def new_channel_buffer_def split: option.splits)
  then have "unat (cb_next_serial ?b + 1) = Suc (unat (cb_next_serial ?b))"
    by (simp add: unat_add_lem [THEN iffD1] u64_neq_max_iff)
  then show ?case using next_pos(2) ok
    by (auto simp: next_position_def replay_touch_stream_def Let_def replay_channel_ok_def replay_bounded_def
        u64_less_iff less_Suc_eq intro!: replay_put_ok)
next
  case (store serial now app_id channel stream_id bs s s')
  let ?b = "replay_entry (new_channel_buffer stream_id (sat_add serial 1) now) (replay_buffer_key app_id channel) s"
  from store(2) obtain b' where
    b': "replay_store_channel (unat (rb_max_buffer_size s)) now stream_id serial bs ?b = Some b'"
      "s' = replay_put (replay_buffer_key app_id channel) b' s"
    by (auto simp: replay_store_def Let_def split: option.splits)
  have "replay_channel_ok (unat (rb_max_buffer_size s)) ?b" using store(3) by (intro replay_entry_ok) simp_all
  from replay_store_channel_ok [OF this store(1) b'(1)] b'(2) store(3) show ?case by (simp add: replay_put_ok)
next
  case (lookup s now app_id channel stream_id lst)
  show ?case
  proof (cases "rb_buffers s (replay_buffer_key app_id channel)")
    case None
    with lookup show ?thesis by (simp add: get_messages_after_position_def)
  next
    case (Some b)
    with lookup have "replay_channel_ok (unat (rb_max_buffer_size s)) b" by (simp add: replay_ok_def)
    from replay_lookup_channel_ok [OF this, of "rb_buffer_ttl s" now stream_id lst] Some lookup show ?thesis
      by (cases "replay_lookup_channel (rb_buffer_ttl s) now stream_id lst b")
        (simp add: get_messages_after_position_def replay_put_ok)
  qed
next
  case (evict s now keys)
  then show ?case by (rule replay_evict_ok)
qed

lemma replay_reachable_ok: "replay_reachable cap ttl s \<Longrightarrow> replay_ok s"
proof (induction rule: replay_reachable.induct)
  case start
  then show ?case by (simp add: replay_ok_def replay_buffer_new_def)
next
  case (more s s')
  then show ?case by (blast intro: replay_step_ok)
qed

section \<open>Properties\<close>

definition replay_demo :: replay_buffer where
  "replay_demo =
     the (replay_store 11 ''app'' ''room'' (Some ''s'') 3 [7]
       (the (replay_store 10 ''app'' ''room'' (Some ''s'') 2 [6] (replay_buffer_new 2 100))))"

definition replay_demo_message :: "u64 \<Rightarrow> u8 \<Rightarrow> nat \<Rightarrow> buffered_message" where
  "replay_demo_message serial byte time =
     \<lparr>bm_stream_id = Some ''s'', bm_serial = serial, bm_message_bytes = [byte], bm_timestamp = time\<rparr>"

lemma replay_store_new_channel:
  assumes "rb_buffers s (replay_buffer_key app_id channel) = None" and "rb_max_buffer_size s \<noteq> 0"
  shows "replay_store now app_id channel sid serial bs s =
    Some (replay_put (replay_buffer_key app_id channel)
      \<lparr>cb_messages = [\<lparr>bm_stream_id = sid, bm_serial = serial, bm_message_bytes = bs, bm_timestamp = now\<rparr>],
       cb_current_stream_id = sid, cb_last_touched = now, cb_next_serial = sat_add serial 1\<rparr> s)"
  using assms
  by (simp add: replay_store_def replay_store_channel_def replay_entry_def new_channel_buffer_def Let_def
      pop_to_capacity_Some unat_gt_0 raise_next_serial_def)

lemma replay_demo_eq:
  "rb_buffers replay_demo (replay_buffer_key ''app'' ''room'') =
     Some \<lparr>cb_messages = [replay_demo_message 2 6 10, replay_demo_message 3 7 11],
           cb_current_stream_id = Some ''s'', cb_last_touched = 11, cb_next_serial = 4\<rparr>"
  "rb_buffer_ttl replay_demo = 100" "rb_max_buffer_size replay_demo = 2"
  by (simp_all add: replay_demo_def replay_store_new_channel replay_buffer_new_def replay_store_def replay_put_def
      replay_store_channel_def replay_entry_def Let_def pop_to_capacity_Some replay_demo_message_def
      raise_next_serial_def sat_add_def new_channel_buffer_def)

lemma replay_demo_reachable: "replay_reachable 2 100 replay_demo"
proof -
  let ?s1 = "the (replay_store 10 ''app'' ''room'' (Some ''s'') 2 [6] (replay_buffer_new 2 100))"
  have "replay_store 10 ''app'' ''room'' (Some ''s'') 2 [6] (replay_buffer_new 2 100) = Some ?s1"
    by (simp add: replay_store_new_channel replay_buffer_new_def)
  then have r1: "replay_reachable 2 100 ?s1"
    by (rule replay_reachable.more [OF replay_reachable.start replay_step.store, rotated]) simp
  have "replay_store 11 ''app'' ''room'' (Some ''s'') 3 [7] ?s1 = Some replay_demo"
    by (simp add: replay_demo_def replay_store_new_channel replay_buffer_new_def)
      (simp add: replay_store_def replay_store_channel_def Let_def replay_put_def pop_to_capacity_Some)
  then show ?thesis
    by (rule replay_reachable.more [OF r1 replay_step.store, rotated]) simp
qed

lemma replay_store_messages:
  assumes "rb_buffers s (replay_buffer_key app_id channel) = Some b"
    and "replay_store now app_id channel sid serial bs s = Some s'"
  shows "\<exists>n b'. rb_buffers s' (replay_buffer_key app_id channel) = Some b' \<and>
    cb_messages b' = drop n (if cb_current_stream_id b \<noteq> sid then [] else cb_messages b) @
      [\<lparr>bm_stream_id = sid, bm_serial = serial, bm_message_bytes = bs, bm_timestamp = now\<rparr>]"
proof -
  let ?ms = "if cb_current_stream_id b \<noteq> sid then [] else cb_messages b"
  let ?cap = "unat (rb_max_buffer_size s)"
  obtain b' where b': "replay_store_channel ?cap now sid serial bs b = Some b'"
    and s': "s' = replay_put (replay_buffer_key app_id channel) b' s"
    using assms by (auto simp: replay_store_def replay_entry_def split: option.splits)
  obtain ms where ms: "pop_to_capacity ?cap ?ms = Some ms" and "cb_messages b' = ms @
      [\<lparr>bm_stream_id = sid, bm_serial = serial, bm_message_bytes = bs, bm_timestamp = now\<rparr>]"
    using b' unfolding replay_store_channel_def Let_def by (auto split: option.splits)
  moreover have "ms = drop (Suc (length ?ms) - ?cap) ?ms"
    using ms pop_to_capacity_Some [OF pop_to_capacity_cap [OF ms], of ?ms] by (simp only: option.inject)
  ultimately show ?thesis
    using s' by (intro exI [of _ "Suc (length ?ms) - ?cap"] exI [of _ b']) (simp only: replay_put_def, simp)
qed

text \<open>C12: A recovery that the replay buffer grants is contiguous: on every reachable buffer, when a
  lookup after serial \<open>lst\<close> answers Recovered, the returned bytes are those of buffered messages of the
  current stream with exactly the serials \<open>lst + 1\<close> up to the newest one handed out, each once and in
  order, and the client's stream id, if it gave one, is the current one.\<close>

theorem replay_recovered_contiguous:
  assumes "replay_reachable cap ttl s" and "rb_buffers s (replay_buffer_key app_id channel) = Some b"
    and "get_messages_after_position now app_id channel sid lst s = (s', Recovered rs)"
  shows "\<exists>ms. set ms \<subseteq> set (cb_messages b) \<and> (\<forall>m \<in> set ms. bm_stream_id m = cb_current_stream_id b) \<and>
    map (\<lambda>m. unat (bm_serial m)) ms = [Suc (unat lst)..<unat (cb_next_serial b)] \<and>
    rs = map bm_message_bytes ms \<and> (\<forall>i. sid = Some i \<longrightarrow> cb_current_stream_id b = Some i)"
proof -
  obtain b' where "replay_lookup_channel (rb_buffer_ttl s) now sid lst b = (b', Recovered rs)"
    using assms(2,3) by (auto simp: get_messages_after_position_def split: prod.splits)
  moreover have "replay_bounded b"
    using replay_reachable_ok [OF assms(1)] assms(2) by (simp add: replay_ok_def replay_channel_ok_def)
  ultimately show ?thesis by (rule replay_lookup_recovered)
qed

theorem replay_recovered_contiguous_witness:
  "\<exists>s' rs (ms :: buffered_message list). get_messages_after_position 12 ''app'' ''room'' (Some ''s'') 1 replay_demo = (s', Recovered rs) \<and>
     rs = map bm_message_bytes ms \<and> map (\<lambda>m. unat (bm_serial m)) ms = [Suc (unat (1 :: u64))..<unat (4 :: u64)]"
proof -
  let ?r = "get_messages_after_position 12 ''app'' ''room'' (Some ''s'') 1 replay_demo"
  have "snd ?r = Recovered [[6], [7]]"
    by (simp add: get_messages_after_position_def replay_demo_eq replay_lookup_channel_def prune_expired_locked_def
        replay_demo_message_def Let_def sat_sub_def sat_add_def u64_unat min_serial_def)
  then have r: "?r = (fst ?r, Recovered [[6], [7]])" by (metis prod.collapse)
  have "\<exists>ms :: buffered_message list. [[6], [7]] = map bm_message_bytes ms \<and>
      map (\<lambda>m. unat (bm_serial m)) ms = [Suc (unat (1 :: u64))..<unat (4 :: u64)]"
    using replay_recovered_contiguous [OF replay_demo_reachable replay_demo_eq(1) r]
    by (elim exE conjE) (rule exI, rule conjI, assumption, simp only: channel_buffer.select_convs)
  with r show ?thesis by (elim exE conjE) (intro exI conjI, assumption+)
qed

text \<open>The replay buffer grants every recovery it can: if the client's stream is the current one,
  the buffered messages that have not expired carry distinct serials of that stream, and among them
  are all serials from \<open>lst + 1\<close> up to the newest one, then the lookup answers Recovered with exactly
  the messages after \<open>lst\<close>, in serial order, in whatever order they were stored.\<close>

theorem replay_recovery_granted:
  assumes "replay_reachable cap ttl s" and "rb_buffers s (replay_buffer_key app_id channel) = Some b"
    and "\<forall>i. sid = Some i \<longrightarrow> cb_current_stream_id b = Some i" and "unat lst < unat (cb_next_serial b)"
    and "ms = prune_expired_locked (rb_buffer_ttl s) now (cb_messages b)"
    and "distinct (map bm_serial ms)" and "\<forall>m \<in> set ms. bm_stream_id m = cb_current_stream_id b"
    and "\<forall>n. unat lst < n \<longrightarrow> n < unat (cb_next_serial b) \<longrightarrow> (\<exists>m \<in> set ms. unat (bm_serial m) = n)"
  shows "snd (get_messages_after_position now app_id channel sid lst s) =
    Recovered (map bm_message_bytes (sort_key bm_serial (filter (\<lambda>m. bm_serial m > lst) ms)))"
proof -
  have "replay_bounded b"
    using replay_reachable_ok [OF assms(1)] assms(2) by (simp add: replay_ok_def replay_channel_ok_def)
  from replay_lookup_complete [OF assms(3) this assms(4) assms(6-8) [unfolded assms(5)]] show ?thesis
    using assms(2,5) by (auto simp: get_messages_after_position_def split: prod.splits)
qed

theorem replay_recovery_granted_witness:
  "snd (get_messages_after_position 12 ''app'' ''room'' None 1 replay_demo) =
    Recovered (map bm_message_bytes (sort_key bm_serial (filter (\<lambda>m. bm_serial m > 1)
      [replay_demo_message 2 6 10, replay_demo_message 3 7 11])))"
proof (rule replay_recovery_granted [OF replay_demo_reachable replay_demo_eq(1)])
  show "\<forall>n. unat (1 :: u64) < n \<longrightarrow> n < unat (cb_next_serial
      \<lparr>cb_messages = [replay_demo_message 2 6 10, replay_demo_message 3 7 11],
       cb_current_stream_id = Some ''s'', cb_last_touched = 11, cb_next_serial = 4\<rparr>) \<longrightarrow>
      (\<exists>m \<in> set [replay_demo_message 2 6 10, replay_demo_message 3 7 11]. unat (bm_serial m) = n)"
    by (auto simp: replay_demo_message_def)
qed (simp_all add: replay_demo_eq prune_expired_locked_def replay_demo_message_def)

text \<open>C31: Storing a message returns exactly when the configured buffer size is not zero; with size
  zero the capacity loop pops an empty queue forever.\<close>

theorem replay_store_returns:
  "(\<exists>s'. replay_store now app_id channel sid serial bs s = Some s') = (rb_max_buffer_size s \<noteq> 0)"
proof
  assume "\<exists>s'. replay_store now app_id channel sid serial bs s = Some s'"
  then have "0 < unat (rb_max_buffer_size s)"
    by (auto simp: replay_store_def replay_store_channel_def Let_def split: option.splits dest!: pop_to_capacity_cap)
  then show "rb_max_buffer_size s \<noteq> 0" by auto
next
  assume "rb_max_buffer_size s \<noteq> 0"
  then have "0 < unat (rb_max_buffer_size s)" by (simp add: unat_gt_0)
  then show "\<exists>s'. replay_store now app_id channel sid serial bs s = Some s'"
    by (simp add: replay_store_def replay_store_channel_def Let_def pop_to_capacity_Some)
qed

text \<open>An externally reserved position that the buffer adopts is beyond everything it holds: after
  a successful \<^verbatim>\<open>try_ensure_position\<close> and the store of its message, the buffered serials are
  still strictly increasing and end with the new one.\<close>

theorem replay_adopted_in_order:
  assumes "rb_buffers s (replay_buffer_key app_id channel) = Some b"
    and "sorted_wrt (<) (map bm_serial (cb_messages b))"
    and "try_ensure_position now app_id channel stream_id serial s = (s1, Inr p)"
    and "replay_store now' app_id channel (Some stream_id) serial bs s1 = Some s2"
  shows "\<exists>b'. rb_buffers s2 (replay_buffer_key app_id channel) = Some b' \<and>
    sorted_wrt (<) (map bm_serial (cb_messages b')) \<and> map_option bm_serial (back_of (cb_messages b')) = Some serial"
proof -
  let ?key = "replay_buffer_key app_id channel"
  let ?b1 = "raise_next_serial (sat_add serial 1) (adopt_stream now stream_id b)"
  have gt: "\<forall>m \<in> set (cb_messages b). bm_serial m < serial"
  proof (cases "cb_messages b" rule: rev_cases)
    case (snoc ms m)
    with assms(2,3) show ?thesis
      by (auto simp: try_ensure_position_def replay_entry_def assms(1) Let_def sorted_wrt_append split: if_splits)
  qed simp
  have s1: "s1 = replay_put ?key ?b1 s"
    using assms(3) by (auto simp: try_ensure_position_def replay_entry_def assms(1) Let_def split: if_splits)
  have "rb_buffers s1 ?key = Some ?b1" by (simp add: s1 replay_put_def)
  from replay_store_messages [OF this assms(4)] obtain n b' where b': "rb_buffers s2 ?key = Some b'"
    "cb_messages b' = drop n (if cb_current_stream_id ?b1 \<noteq> Some stream_id then [] else cb_messages ?b1) @
      [\<lparr>bm_stream_id = Some stream_id, bm_serial = serial, bm_message_bytes = bs, bm_timestamp = now'\<rparr>]"
    by blast
  have "sorted_wrt (<) (map bm_serial (drop n (cb_messages b)))"
    using assms(2) by (simp add: sorted_wrt_drop flip: drop_map)
  moreover have "\<forall>m \<in> set (drop n (cb_messages b)). bm_serial m < serial"
    using gt by (meson in_set_dropD)
  ultimately show ?thesis using b' by (simp add: sorted_wrt_append)
qed

theorem replay_adopted_in_order_witness:
  "\<exists>s1 p s2 b'. try_ensure_position 12 ''app'' ''room'' ''s'' 9 replay_demo = (s1, Inr p) \<and>
     replay_store 13 ''app'' ''room'' (Some ''s'') 9 [1] s1 = Some s2 \<and>
     rb_buffers s2 (replay_buffer_key ''app'' ''room'') = Some b' \<and>
     sorted_wrt (<) (map bm_serial (cb_messages b'))"
proof -
  let ?t = "try_ensure_position 12 ''app'' ''room'' ''s'' 9 replay_demo"
  have t: "?t = (fst ?t, Inr \<lparr>rp_stream_id = ''s'', rp_serial = 9\<rparr>)"
    by (simp add: try_ensure_position_def replay_entry_def replay_demo_eq Let_def replay_demo_message_def back_of_def
        u64_le_iff)
  obtain s2 where s2: "replay_store 13 ''app'' ''room'' (Some ''s'') 9 [1] (fst ?t) = Some s2"
    by (auto simp: try_ensure_position_def replay_entry_def replay_demo_eq Let_def replay_demo_message_def back_of_def
        u64_le_iff replay_put_def replay_store_def replay_store_channel_def pop_to_capacity_Some)
  have "sorted_wrt (<) (map bm_serial [replay_demo_message 2 6 10, replay_demo_message 3 7 11])"
    by (simp add: replay_demo_message_def)
  with replay_adopted_in_order [OF replay_demo_eq(1) _ t s2] t s2 show ?thesis by fastforce
qed

end
