(* ===== verification/Tag_Filter.thy ===== *)
theory Tag_Filter
  imports BTree
begin

text \<open>
  Tag filters (\<^verbatim>\<open>sockudo-filter/src/{ops,node,lib}.rs\<close>): the operators and their names, the filter
  tree with its validation and optimisation, and the evaluation of a filter on the tags of a
  publication. The substring search of the \<^verbatim>\<open>memchr\<close> crate and the 64-bit floating-point numbers
  (parsing and comparison) are parameters, collected in \<open>filter_env\<close>; what holds does so for every
  choice of them.
\<close>

section \<open>Operators\<close>

datatype compare_op =
    OpEqual | OpNotEqual | OpIn | OpNotIn | OpExists | OpNotExists | OpStartsWith | OpEndsWith | OpContains
  | OpGreaterThan | OpGreaterThanOrEqual | OpLessThan | OpLessThanOrEqual

definition compare_op_parse :: "string \<Rightarrow> compare_op option" where
  "compare_op_parse s =
     (if s = ''eq'' then Some OpEqual
      else if s = ''neq'' then Some OpNotEqual
      else if s = ''in'' then Some OpIn
      else if s = ''nin'' then Some OpNotIn
      else if s = ''ex'' then Some OpExists
      else if s = ''nex'' then Some OpNotExists
      else if s = ''sw'' then Some OpStartsWith
      else if s = ''ew'' then Some OpEndsWith
      else if s = ''ct'' then Some OpContains
      else if s = ''gt'' then Some OpGreaterThan
      else if s = ''gte'' then Some OpGreaterThanOrEqual
      else if s = ''lt'' then Some OpLessThan
      else if s = ''lte'' then Some OpLessThanOrEqual
      else None)"

definition compare_op_as_str :: "compare_op \<Rightarrow> string" where
  "compare_op_as_str op =
     (case op of
        OpEqual \<Rightarrow> ''eq'' | OpNotEqual \<Rightarrow> ''neq'' | OpIn \<Rightarrow> ''in'' | OpNotIn \<Rightarrow> ''nin'' | OpExists \<Rightarrow> ''ex''
      | OpNotExists \<Rightarrow> ''nex'' | OpStartsWith \<Rightarrow> ''sw'' | OpEndsWith \<Rightarrow> ''ew'' | OpContains \<Rightarrow> ''ct''
      | OpGreaterThan \<Rightarrow> ''gt'' | OpGreaterThanOrEqual \<Rightarrow> ''gte'' | OpLessThan \<Rightarrow> ''lt''
      | OpLessThanOrEqual \<Rightarrow> ''lte'')"

datatype logical_op = OpAnd | OpOr | OpNot

definition logical_op_parse :: "string \<Rightarrow> logical_op option" where
  "logical_op_parse s =
     (if s = ''and'' then Some OpAnd else if s = ''or'' then Some OpOr else if s = ''not'' then Some OpNot else None)"

definition logical_op_as_str :: "logical_op \<Rightarrow> string" where
  "logical_op_as_str op = (case op of OpAnd \<Rightarrow> ''and'' | OpOr \<Rightarrow> ''or'' | OpNot \<Rightarrow> ''not'')"

definition compare_op_from_str :: "string \<Rightarrow> string + compare_op" where
  "compare_op_from_str s =
     (case compare_op_parse s of None \<Rightarrow> Inl (''Invalid comparison operator: '' @ s) | Some op \<Rightarrow> Inr op)"

definition logical_op_from_str :: "string \<Rightarrow> string + logical_op" where
  "logical_op_from_str s =
     (case logical_op_parse s of None \<Rightarrow> Inl (''Invalid logical operator: '' @ s) | Some op \<Rightarrow> Inr op)"

section \<open>Filter nodes\<close>

datatype filter_node =
  FilterNode (fn_op: "string option") (fn_key: "string option") (fn_cmp: "string option") (fn_val: "string option")
    (fn_vals: "string list") (fn_nodes: "filter_node list") (fn_is_sorted: bool)

definition new_comparison :: "string \<Rightarrow> compare_op \<Rightarrow> string \<Rightarrow> filter_node" where
  "new_comparison key cmp val = FilterNode None (Some key) (Some (compare_op_as_str cmp)) (Some val) [] [] False"

definition new_set_comparison :: "string \<Rightarrow> compare_op \<Rightarrow> string list \<Rightarrow> filter_node" where
  "new_set_comparison key cmp vals = FilterNode None (Some key) (Some (compare_op_as_str cmp)) None vals [] False"

definition new_existence :: "string \<Rightarrow> compare_op \<Rightarrow> filter_node" where
  "new_existence key cmp = FilterNode None (Some key) (Some (compare_op_as_str cmp)) None [] [] False"

definition new_logical :: "logical_op \<Rightarrow> filter_node list \<Rightarrow> filter_node" where
  "new_logical op nodes = FilterNode (Some (logical_op_as_str op)) None None None [] nodes False"

text \<open>\<^verbatim>\<open>Vec::dedup\<close>: equal neighbours are merged.\<close>

fun dedup :: "'a list \<Rightarrow> 'a list" where
  "dedup (x # y # xs) = (if x = y then dedup (y # xs) else x # dedup (y # xs))"
| "dedup xs = xs"

fun optimize :: "filter_node \<Rightarrow> filter_node" where
  "optimize (FilterNode op key cmp val vals nodes is_sorted) =
     (if vals \<noteq> [] \<and> \<not> is_sorted
      then FilterNode op key cmp val (dedup (sort vals)) (map optimize nodes) True
      else FilterNode op key cmp val vals (map optimize nodes) is_sorted)"

definition node_logical_op :: "filter_node \<Rightarrow> logical_op option" where
  "node_logical_op f = (case fn_op f of None \<Rightarrow> None | Some s \<Rightarrow> logical_op_parse s)"

definition node_compare_op :: "filter_node \<Rightarrow> compare_op" where
  "node_compare_op f =
     (case (case fn_cmp f of None \<Rightarrow> None | Some s \<Rightarrow> compare_op_parse s) of None \<Rightarrow> OpEqual | Some op \<Rightarrow> op)"

definition node_key :: "filter_node \<Rightarrow> string" where
  "node_key f = (case fn_key f of None \<Rightarrow> [] | Some k \<Rightarrow> k)"

definition node_val :: "filter_node \<Rightarrow> string" where
  "node_val f = (case fn_val f of None \<Rightarrow> [] | Some v \<Rightarrow> v)"

fun find_error :: "('a \<Rightarrow> string option) \<Rightarrow> nat \<Rightarrow> 'a list \<Rightarrow> (nat \<times> string) option" where
  "find_error g i [] = None"
| "find_error g i (x # xs) = (case g x of Some err \<Rightarrow> Some (i, err) | None \<Rightarrow> find_error g (Suc i) xs)"

lemma find_error_cong [fundef_cong]:
  "i = j \<Longrightarrow> xs = ys \<Longrightarrow> (\<And>x. x \<in> set ys \<Longrightarrow> g x = h x) \<Longrightarrow> find_error g i xs = find_error h j ys"
  by (induction ys arbitrary: i j xs) (auto split: option.splits)

definition validate_arity :: "string \<Rightarrow> logical_op \<Rightarrow> filter_node list \<Rightarrow> string option" where
  "validate_arity op logical_op nodes =
     (case logical_op of
        OpNot \<Rightarrow>
          if length nodes \<noteq> 1
          then Some (''not operation requires exactly one child node, got '' @ show_nat (length nodes)) else None
      | _ \<Rightarrow> if nodes = [] then Some (op @ '' operation requires at least one child node'') else None)"

definition validate_leaf ::
    "string option \<Rightarrow> string option \<Rightarrow> string option \<Rightarrow> string list \<Rightarrow> string option" where
  "validate_leaf key cmp val vals =
     (if key = None \<or> key = Some [] then Some ''Leaf node requires a non-empty key''
      else case cmp of
        None \<Rightarrow> Some ''Leaf node requires a comparison operator''
      | Some c \<Rightarrow>
          (case compare_op_parse c of
             None \<Rightarrow> Some (''unknown comparison operator: '' @ c)
           | Some compare_op \<Rightarrow>
               if compare_op \<in> {OpIn, OpNotIn}
               then if vals = [] then Some (c @ '' operation requires at least one value in vals'') else None
               else if compare_op \<in> {OpExists, OpNotExists} then None
               else if val = None \<or> val = Some [] then Some (c @ '' operation requires a non-empty val'')
               else None))"

fun node_validate :: "filter_node \<Rightarrow> string option" where
  "node_validate (FilterNode op key cmp val vals nodes is_sorted) =
     (case op of
        Some o' \<Rightarrow>
          (case logical_op_parse o' of
             None \<Rightarrow> Some (''unknown logical operator: '' @ o')
           | Some l \<Rightarrow>
               (case validate_arity o' l nodes of
                  Some err \<Rightarrow> Some err
                | None \<Rightarrow>
                    (case find_error node_validate 0 nodes of
                       Some (i, err) \<Rightarrow> Some (''Child node '' @ show_nat i @ '': '' @ err)
                     | None \<Rightarrow> None)))
      | None \<Rightarrow> validate_leaf key cmp val vals)"

section \<open>Evaluation\<close>

text \<open>
  What the evaluation takes from elsewhere: \<^verbatim>\<open>memchr::memchr\<close> and \<^verbatim>\<open>memmem::find\<close>, as whether they find
  something, and \<^verbatim>\<open>str::parse::<f64>\<close> with the four comparisons of \<^verbatim>\<open>f64\<close>.
\<close>

record 'f filter_env =
  fe_memchr :: "char \<Rightarrow> string \<Rightarrow> bool"
  fe_memmem :: "string \<Rightarrow> string \<Rightarrow> bool"
  fe_parse_f64 :: "string \<Rightarrow> 'f option"
  fe_gt :: "'f \<Rightarrow> 'f \<Rightarrow> bool"
  fe_ge :: "'f \<Rightarrow> 'f \<Rightarrow> bool"
  fe_lt :: "'f \<Rightarrow> 'f \<Rightarrow> bool"
  fe_le :: "'f \<Rightarrow> 'f \<Rightarrow> bool"

definition str_starts_with :: "string \<Rightarrow> string \<Rightarrow> bool" where
  "str_starts_with s p \<longleftrightarrow> take (length p) s = p"

definition str_ends_with :: "string \<Rightarrow> string \<Rightarrow> bool" where
  "str_ends_with s p \<longleftrightarrow> length p \<le> length s \<and> drop (length s - length p) s = p"

text \<open>
  \<^verbatim>\<open>slice::binary_search\<close> as whether it returns \<^verbatim>\<open>Ok\<close>: halving the interval from \<open>l\<close> up to, not including, \<open>r\<close>.
\<close>

function bsearch :: "'a::linorder list \<Rightarrow> 'a \<Rightarrow> nat \<Rightarrow> nat \<Rightarrow> bool" where
  "bsearch xs x l r =
     (if l < r
      then let m = l + (r - l) div 2 in
           if xs ! m = x then True
           else if xs ! m < x then bsearch xs x (Suc m) r
           else bsearch xs x l m
      else False)"
  by pat_completeness auto
termination
  by (relation "measure (\<lambda>(xs, x, l, r). r - l)") auto

declare bsearch.simps [simp del]

definition binary_search_ok :: "'a::linorder list \<Rightarrow> 'a \<Rightarrow> bool" where
  "binary_search_ok xs x = bsearch xs x 0 (length xs)"

definition compare_numeric ::
    "'f filter_env \<Rightarrow> string option \<Rightarrow> string \<Rightarrow> ('f \<Rightarrow> 'f \<Rightarrow> bool) \<Rightarrow> bool" where
  "compare_numeric env tag_value filter_val cmp =
     (case tag_value of
        None \<Rightarrow> False
      | Some val \<Rightarrow>
          (case (fe_parse_f64 env val, fe_parse_f64 env filter_val) of
             (Some a, Some b) \<Rightarrow> cmp a b
           | _ \<Rightarrow> False))"

definition evaluate_comparison :: "'f filter_env \<Rightarrow> (string \<Rightarrow> string option) \<Rightarrow> filter_node \<Rightarrow> bool" where
  "evaluate_comparison env get_tag f =
     (let tag_value = get_tag (node_key f); filter_val = node_val f in
      case node_compare_op f of
        OpEqual \<Rightarrow> (case tag_value of Some val \<Rightarrow> val = filter_val | None \<Rightarrow> False)
      | OpNotEqual \<Rightarrow> (case tag_value of Some val \<Rightarrow> val \<noteq> filter_val | None \<Rightarrow> True)
      | OpIn \<Rightarrow>
          (case tag_value of
             Some val \<Rightarrow> if fn_is_sorted f then binary_search_ok (fn_vals f) val else list_ex (\<lambda>v. v = val) (fn_vals f)
           | None \<Rightarrow> False)
      | OpNotIn \<Rightarrow>
          (case tag_value of
             Some val \<Rightarrow> if fn_is_sorted f then \<not> binary_search_ok (fn_vals f) val else \<not> list_ex (\<lambda>v. v = val) (fn_vals f)
           | None \<Rightarrow> True)
      | OpExists \<Rightarrow> tag_value \<noteq> None
      | OpNotExists \<Rightarrow> tag_value = None
      | OpStartsWith \<Rightarrow>
          (case tag_value of
             Some val \<Rightarrow>
               if length filter_val \<le> 16 then str_starts_with val filter_val else str_starts_with val filter_val
           | None \<Rightarrow> False)
      | OpEndsWith \<Rightarrow>
          (case tag_value of
             Some val \<Rightarrow>
               if length filter_val \<le> 16 then str_ends_with val filter_val else str_ends_with val filter_val
           | None \<Rightarrow> False)
      | OpContains \<Rightarrow>
          (case tag_value of
             Some val \<Rightarrow>
               if filter_val = [] then True
               else if length filter_val = 1 then fe_memchr env (hd filter_val) val
               else fe_memmem env val filter_val
           | None \<Rightarrow> False)
      | OpGreaterThan \<Rightarrow> compare_numeric env tag_value filter_val (fe_gt env)
      | OpGreaterThanOrEqual \<Rightarrow> compare_numeric env tag_value filter_val (fe_ge env)
      | OpLessThan \<Rightarrow> compare_numeric env tag_value filter_val (fe_lt env)
      | OpLessThanOrEqual \<Rightarrow> compare_numeric env tag_value filter_val (fe_le env))"

fun filter_matches :: "'f filter_env \<Rightarrow> (string \<Rightarrow> string option) \<Rightarrow> filter_node \<Rightarrow> bool" where
  "filter_matches env get_tag (FilterNode op key cmp val vals nodes is_sorted) =
     (case node_logical_op (FilterNode op key cmp val vals nodes is_sorted) of
        Some OpAnd \<Rightarrow> list_all (filter_matches env get_tag) nodes
      | Some OpOr \<Rightarrow> list_ex (filter_matches env get_tag) nodes
      | Some OpNot \<Rightarrow> (case nodes of [] \<Rightarrow> False | child # _ \<Rightarrow> \<not> filter_matches env get_tag child)
      | None \<Rightarrow> evaluate_comparison env get_tag (FilterNode op key cmp val vals nodes is_sorted))"

section \<open>Tag sources\<close>

text \<open>The trait \<^verbatim>\<open>TagMap\<close>: a key is contained exactly when looking it up finds a tag.\<close>

locale tag_map =
  fixes get_tag :: "'t \<Rightarrow> string \<Rightarrow> string option"
    and contains_tag :: "'t \<Rightarrow> string \<Rightarrow> bool"
  assumes contains_iff: "contains_tag t k \<longleftrightarrow> get_tag t k \<noteq> None"
begin

lemma exists_contains: "filter_matches env (get_tag t) (new_existence k OpExists) \<longleftrightarrow> contains_tag t k"
  by (simp add: contains_iff new_existence_def node_logical_op_def evaluate_comparison_def node_compare_op_def
      node_key_def compare_op_as_str_def compare_op_parse_def)

lemma not_exists_contains: "filter_matches env (get_tag t) (new_existence k OpNotExists) \<longleftrightarrow> \<not> contains_tag t k"
  by (simp add: contains_iff new_existence_def node_logical_op_def evaluate_comparison_def node_compare_op_def
      node_key_def compare_op_as_str_def compare_op_parse_def)

end

definition empty_get_tag :: "unit \<Rightarrow> string \<Rightarrow> string option" where
  "empty_get_tag t key = None"

definition empty_contains_tag :: "unit \<Rightarrow> string \<Rightarrow> bool" where
  "empty_contains_tag t key = False"

definition hash_get_tag :: "(string \<rightharpoonup> string) \<Rightarrow> string \<Rightarrow> string option" where
  "hash_get_tag t key = t key"

definition hash_contains_tag :: "(string \<rightharpoonup> string) \<Rightarrow> string \<Rightarrow> bool" where
  "hash_contains_tag t key \<longleftrightarrow> t key \<noteq> None"

definition btree_get_tag :: "(string, string) btree \<Rightarrow> string \<Rightarrow> string option" where
  "btree_get_tag t key = bt_get t key"

definition btree_contains_tag :: "(string, string) btree \<Rightarrow> string \<Rightarrow> bool" where
  "btree_contains_tag t key = bt_contains t key"

definition option_get_tag :: "('t \<Rightarrow> string \<Rightarrow> string option) \<Rightarrow> 't option \<Rightarrow> string \<Rightarrow> string option" where
  "option_get_tag get_tag t key = (case t of None \<Rightarrow> None | Some tags \<Rightarrow> get_tag tags key)"

definition option_contains_tag :: "('t \<Rightarrow> string \<Rightarrow> bool) \<Rightarrow> 't option \<Rightarrow> string \<Rightarrow> bool" where
  "option_contains_tag contains_tag t key = (case t of None \<Rightarrow> False | Some tags \<Rightarrow> contains_tag tags key)"

interpretation empty_tags: tag_map empty_get_tag empty_contains_tag
  by unfold_locales (simp add: empty_get_tag_def empty_contains_tag_def)

interpretation hash_tags: tag_map hash_get_tag hash_contains_tag
  by unfold_locales (simp add: hash_get_tag_def hash_contains_tag_def)

interpretation btree_tags: tag_map btree_get_tag btree_contains_tag
  by unfold_locales (simp add: btree_get_tag_def btree_contains_tag_def bt_contains_def)

interpretation option_tags:
  tag_map "option_get_tag btree_get_tag" "option_contains_tag btree_contains_tag"
  by unfold_locales
    (simp add: option_get_tag_def option_contains_tag_def btree_tags.contains_iff split: option.splits)

section \<open>Sorting and searching\<close>

lemma bsearch_iff:
  assumes "sorted xs" and "r \<le> length xs"
  shows "bsearch xs x l r \<longleftrightarrow> (\<exists>i. l \<le> i \<and> i < r \<and> xs ! i = x)"
  using assms
proof (induction xs x l r rule: bsearch.induct)
  case (1 xs x l r)
  define m where "m = l + (r - l) div 2"
  show ?case
  proof (cases "l < r")
    case True
    then have m: "l \<le> m" "m < r" by (auto simp: m_def)
    have mono: "i \<le> j \<Longrightarrow> j < r \<Longrightarrow> xs ! i \<le> xs ! j" for i j
      using "1.prems" by (intro sorted_nth_mono) auto
    consider "xs ! m = x" | "xs ! m < x" | "x < xs ! m" by (rule linorder_cases)
    then show ?thesis
    proof cases
      case 1
      with True have "bsearch xs x l r" by (subst bsearch.simps) (auto simp: Let_def m_def)
      with 1 m show ?thesis by blast
    next
      case 2
      with True have step: "bsearch xs x l r = bsearch xs x (Suc m) r"
        by (subst bsearch.simps) (auto simp: Let_def m_def)
      have "Suc m \<le> i" if "l \<le> i" "i < r" "xs ! i = x" for i
      proof (rule ccontr)
        assume "\<not> Suc m \<le> i"
        then have "xs ! i \<le> xs ! m" using m by (intro mono) simp_all
        with 2 that(3) show False by simp
      qed
      moreover have "l \<le> i" if "Suc m \<le> i" for i using that m by simp
      ultimately have "(\<exists>i. l \<le> i \<and> i < r \<and> xs ! i = x) \<longleftrightarrow> (\<exists>i. Suc m \<le> i \<and> i < r \<and> xs ! i = x)" by blast
      with 2 "1.IH"(1) [OF True m_def] "1.prems" show ?thesis
        unfolding step by simp
    next
      case 3
      with True have step: "bsearch xs x l r = bsearch xs x l m"
        by (subst bsearch.simps) (auto simp: Let_def m_def)
      have "i < m" if "l \<le> i" "i < r" "xs ! i = x" for i
      proof (rule ccontr)
        assume "\<not> i < m"
        then have "xs ! m \<le> xs ! i" using that(2) by (intro mono) simp_all
        with 3 that(3) show False by simp
      qed
      moreover have "i < r" if "i < m" for i using that m by simp
      ultimately have "(\<exists>i. l \<le> i \<and> i < r \<and> xs ! i = x) \<longleftrightarrow> (\<exists>i. l \<le> i \<and> i < m \<and> xs ! i = x)" by blast
      with 3 "1.IH"(2) [OF True m_def] "1.prems" m show ?thesis
        unfolding step by simp
    qed
  qed (subst bsearch.simps, auto)
qed

lemma binary_search_ok_iff [simp]: "sorted xs \<Longrightarrow> binary_search_ok xs x \<longleftrightarrow> x \<in> set xs"
  by (auto simp: binary_search_ok_def bsearch_iff in_set_conv_nth)

lemma set_dedup [simp]: "set (dedup xs) = set xs"
  by (induction xs rule: dedup.induct) auto

lemma sorted_dedup [simp]: "sorted xs \<Longrightarrow> sorted (dedup xs)"
  by (induction xs rule: dedup.induct) auto

lemma distinct_dedup: "sorted xs \<Longrightarrow> distinct (dedup xs)"
  by (induction xs rule: dedup.induct) auto

lemma dedup_sort_cong:
  "set xs = set ys \<Longrightarrow> dedup (sort xs) = dedup (sort ys)"
  by (rule sorted_distinct_set_unique) (simp_all add: distinct_dedup)

section \<open>Properties\<close>

text \<open>
  The sorted flag is private: constructors and deserialisation leave it unset and only \<open>optimize\<close>
  sets it, after sorting. \<open>flags_ok\<close> says so for the whole tree.
\<close>

fun flags_ok :: "filter_node \<Rightarrow> bool" where
  "flags_ok (FilterNode op key cmp val vals nodes is_sorted) \<longleftrightarrow>
     (is_sorted \<longrightarrow> sorted vals) \<and> list_all flags_ok nodes"

lemma flags_ok_optimize: "flags_ok f \<Longrightarrow> flags_ok (optimize f)"
  by (induction f rule: optimize.induct) (auto simp: list_all_iff)

lemma fn_vals_optimize [simp]: "set (fn_vals (optimize f)) = set (fn_vals f)"
  by (cases f) simp

lemma fn_optimize [simp]:
  "node_logical_op (optimize f) = node_logical_op f" "node_compare_op (optimize f) = node_compare_op f"
  "node_key (optimize f) = node_key f" "node_val (optimize f) = node_val f"
  by (cases f; simp add: node_logical_op_def node_compare_op_def node_key_def node_val_def)+

definition vals_contain :: "filter_node \<Rightarrow> string \<Rightarrow> bool" where
  "vals_contain f x = (if fn_is_sorted f then binary_search_ok (fn_vals f) x else list_ex (\<lambda>v. v = x) (fn_vals f))"

lemma vals_contain_iff: "flags_ok f \<Longrightarrow> vals_contain f x \<longleftrightarrow> x \<in> set (fn_vals f)"
  by (cases f) (auto simp: vals_contain_def list_ex_iff)

lemma evaluate_comparison_cong:
  assumes "node_compare_op f = node_compare_op g" "node_key f = node_key g" "node_val f = node_val g"
    and "vals_contain f = vals_contain g"
  shows "evaluate_comparison env get_tag f = evaluate_comparison env get_tag g"
proof -
  have neg: "(if fn_is_sorted h then \<not> binary_search_ok (fn_vals h) x else \<not> list_ex (\<lambda>v. v = x) (fn_vals h)) = (\<not> vals_contain h x)"
    for h x by (simp add: vals_contain_def)
  show ?thesis
    unfolding evaluate_comparison_def neg vals_contain_def [symmetric] assms ..
qed

lemma evaluate_comparison_optimize:
  assumes "flags_ok f"
  shows "evaluate_comparison env get_tag (optimize f) = evaluate_comparison env get_tag f"
  by (rule evaluate_comparison_cong)
    (simp_all add: fun_eq_iff vals_contain_iff assms flags_ok_optimize)

text \<open>C27: Optimising a filter does not change what it matches: for every tag source and every filter whose sorted
  flags are honest, the optimised filter matches exactly when the original does, its flags are
  honest again, and all value lists of the result that are not empty are searched by bisection.\<close>
theorem filter_optimize_preserves:
  assumes "flags_ok f"
  shows "filter_matches env get_tag (optimize f) = filter_matches env get_tag f \<and> flags_ok (optimize f) \<and>
    (fn_vals (optimize f) \<noteq> [] \<longrightarrow> fn_is_sorted (optimize f))"
proof -
  have "filter_matches env get_tag (optimize f) = filter_matches env get_tag f"
    using assms
  proof (induction f rule: optimize.induct)
    case (1 op key cmp val vals nodes is_sorted)
    let ?f = "FilterNode op key cmp val vals nodes is_sorted"
    have ih: "filter_matches env get_tag (optimize g) = filter_matches env get_tag g" if "g \<in> set nodes" for g
      using 1 that by (cases "vals \<noteq> [] \<and> \<not> is_sorted") (auto simp: list_all_iff)
    have all: "list_all (filter_matches env get_tag) (map optimize nodes) = list_all (filter_matches env get_tag) nodes"
      "list_ex (filter_matches env get_tag) (map optimize nodes) = list_ex (filter_matches env get_tag) nodes"
      "(case map optimize nodes of [] \<Rightarrow> False | child # _ \<Rightarrow> \<not> filter_matches env get_tag child) =
       (case nodes of [] \<Rightarrow> False | child # _ \<Rightarrow> \<not> filter_matches env get_tag child)"
      using ih by (auto simp: list_all_iff list_ex_iff split: list.splits)
    have "filter_matches env get_tag (optimize ?f) =
      (case node_logical_op (optimize ?f) of
         Some OpAnd \<Rightarrow> list_all (filter_matches env get_tag) (map optimize nodes)
       | Some OpOr \<Rightarrow> list_ex (filter_matches env get_tag) (map optimize nodes)
       | Some OpNot \<Rightarrow> (case map optimize nodes of [] \<Rightarrow> False | child # _ \<Rightarrow> \<not> filter_matches env get_tag child)
       | None \<Rightarrow> evaluate_comparison env get_tag (optimize ?f))"
      by (cases "vals \<noteq> [] \<and> \<not> is_sorted") (simp_all only: optimize.simps filter_matches.simps if_True if_False simp_thms)
    then show ?case
      unfolding all fn_optimize evaluate_comparison_optimize [OF "1.prems"] filter_matches.simps .
  qed
  moreover have "fn_vals (optimize f) \<noteq> [] \<longrightarrow> fn_is_sorted (optimize f)" by (cases f) auto
  ultimately show ?thesis using assms by (simp add: flags_ok_optimize)
qed

definition demo_env :: "nat filter_env" where
  "demo_env = \<lparr>fe_memchr = (\<lambda>c s. c \<in> set s), fe_memmem = (\<lambda>s p. \<exists>i \<in> set [0..<Suc (length s)]. str_starts_with (drop i s) p),
     fe_parse_f64 = (\<lambda>s. None), fe_gt = (>), fe_ge = (\<ge>), fe_lt = (<), fe_le = (\<le>)\<rparr>"

theorem filter_optimize_preserves_witness:
  "filter_matches demo_env (hash_get_tag [''k'' \<mapsto> ''b'']) (optimize (new_set_comparison ''k'' OpIn [''c'', ''b'', ''a'']))
   \<and> fn_vals (optimize (new_set_comparison ''k'' OpIn [''c'', ''b'', ''a''])) = [''a'', ''b'', ''c'']"
proof -
  have "flags_ok (new_set_comparison ''k'' OpIn [''c'', ''b'', ''a''])" by (simp add: new_set_comparison_def)
  from filter_optimize_preserves [OF this, of demo_env "hash_get_tag [''k'' \<mapsto> ''b'']"] show ?thesis
    by (simp add: new_set_comparison_def node_logical_op_def evaluate_comparison_def node_compare_op_def node_key_def
        compare_op_as_str_def compare_op_parse_def hash_get_tag_def)
qed

text \<open>Operator names round-trip: an operator's name parses to it, and whatever parses to an operator is its name,
  so parsing accepts exactly the documented names.\<close>
theorem operator_names_roundtrip:
  "(compare_op_parse s = Some op \<longleftrightarrow> s = compare_op_as_str op) \<and>
   (logical_op_parse t = Some lop \<longleftrightarrow> t = logical_op_as_str lop)"
proof
  show "compare_op_parse s = Some op \<longleftrightarrow> s = compare_op_as_str op"
    by (cases op) (auto simp: compare_op_parse_def compare_op_as_str_def)
  show "logical_op_parse t = Some lop \<longleftrightarrow> t = logical_op_as_str lop"
    by (cases lop) (auto simp: logical_op_parse_def logical_op_as_str_def)
qed

end
