(* ===== verification/Subscription_Predicate.thy ===== *)
theory Subscription_Predicate
  imports Tag_Filter
begin

unbundle bit_operations_syntax

text \<open>
  Compiled subscription predicates (\<^verbatim>\<open>sockudo-filter/src/predicate.rs\<close>): a subscription view of event
  names, a tag filter and a JMESPath expression is bounded, validated and compiled once, and then
  evaluated per message. The JMESPath library is a parameter (\<open>jmespath\<close>): compiling, the syntax tree
  and the source of an expression, and searching a projected document, as whether the result is
  truthy. Sizes, depths and counts are natural numbers.
\<close>

section \<open>Limits and errors\<close>

record predicate_limits =
  pl_max_events :: nat
  pl_max_event_bytes :: nat
  pl_max_tag_nodes :: nat
  pl_max_tag_depth :: nat
  pl_max_tag_key_bytes :: nat
  pl_max_tag_value_bytes :: nat
  pl_max_tag_values_per_node :: nat
  pl_max_expression_bytes :: nat
  pl_max_expression_nodes :: nat
  pl_max_expression_depth :: nat

definition predicate_limits_default :: predicate_limits where
  "predicate_limits_default =
     \<lparr>pl_max_events = 64, pl_max_event_bytes = 256, pl_max_tag_nodes = 128, pl_max_tag_depth = 16,
      pl_max_tag_key_bytes = 256, pl_max_tag_value_bytes = 1024, pl_max_tag_values_per_node = 128,
      pl_max_expression_bytes = 4096, pl_max_expression_nodes = 256, pl_max_expression_depth = 32\<rparr>"

record subscription_view =
  sv_events :: "string list"
  sv_tags :: "filter_node option"
  sv_expression :: "string option"

datatype predicate_compile_error =
    TooManyEvents nat
  | EmptyEvent nat
  | EventTooLong nat nat
  | TooManyTagNodes nat
  | TagTreeTooDeep nat
  | TagKeyTooLong nat
  | TagValueTooLong nat
  | TooManyTagValues nat
  | InvalidTagFilter string
  | EmptyExpression
  | ExpressionTooLong nat
  | InvalidExpression string
  | TooManyExpressionNodes nat
  | ExpressionTooDeep nat

section \<open>Tags\<close>

datatype compiled_tag_node =
    CLogical logical_op "compiled_tag_node list"
  | CComparison string compare_op "string option" "string list"

fun collect_results :: "('a \<Rightarrow> 'e + 'b) \<Rightarrow> 'a list \<Rightarrow> 'e + 'b list" where
  "collect_results g [] = Inr []"
| "collect_results g (x # xs) =
     (case g x of
        Inl e \<Rightarrow> Inl e
      | Inr y \<Rightarrow> (case collect_results g xs of Inl e \<Rightarrow> Inl e | Inr ys \<Rightarrow> Inr (y # ys)))"

lemma collect_results_cong [fundef_cong]:
  "xs = ys \<Longrightarrow> (\<And>x. x \<in> set ys \<Longrightarrow> g x = h x) \<Longrightarrow> collect_results g xs = collect_results h ys"
  by (induction ys arbitrary: xs) (auto split: sum.splits)

fun compile_tags :: "filter_node \<Rightarrow> predicate_compile_error + compiled_tag_node" where
  "compile_tags (FilterNode op key cmp val vals nodes is_sorted) =
     (case op of
        Some o' \<Rightarrow>
          (case logical_op_parse o' of
             None \<Rightarrow> Inl (InvalidTagFilter ''unknown logical operator'')
           | Some l \<Rightarrow>
               (case collect_results compile_tags nodes of Inl e \<Rightarrow> Inl e | Inr cs \<Rightarrow> Inr (CLogical l cs)))
      | None \<Rightarrow>
          (case key of
             None \<Rightarrow> Inl (InvalidTagFilter ''leaf node requires a key'')
           | Some k \<Rightarrow>
               (case cmp of
                  None \<Rightarrow> Inl (InvalidTagFilter ''leaf node requires an operator'')
                | Some c \<Rightarrow>
                    (case compare_op_parse c of
                       None \<Rightarrow> Inl (InvalidTagFilter ''unknown comparison operator'')
                     | Some cop \<Rightarrow> Inr (CComparison k cop val (dedup (sort vals)))))))"

definition compare_number ::
    "'f filter_env \<Rightarrow> string option \<Rightarrow> string \<Rightarrow> ('f \<Rightarrow> 'f \<Rightarrow> bool) \<Rightarrow> bool" where
  "compare_number env actual expected compare =
     (case (case actual of None \<Rightarrow> None | Some value \<Rightarrow> fe_parse_f64 env value) of
        None \<Rightarrow> False
      | Some a \<Rightarrow> (case fe_parse_f64 env expected of None \<Rightarrow> False | Some b \<Rightarrow> compare a b))"

definition compiled_comparison ::
    "'f filter_env \<Rightarrow> string option \<Rightarrow> compare_op \<Rightarrow> string \<Rightarrow> string list \<Rightarrow> bool" where
  "compiled_comparison env actual op expected vals =
     (case op of
        OpEqual \<Rightarrow> (case actual of None \<Rightarrow> False | Some value \<Rightarrow> value = expected)
      | OpNotEqual \<Rightarrow> (case actual of None \<Rightarrow> True | Some value \<Rightarrow> value \<noteq> expected)
      | OpIn \<Rightarrow> (case actual of None \<Rightarrow> False | Some value \<Rightarrow> binary_search_ok vals value)
      | OpNotIn \<Rightarrow> (case actual of None \<Rightarrow> True | Some value \<Rightarrow> \<not> binary_search_ok vals value)
      | OpExists \<Rightarrow> actual \<noteq> None
      | OpNotExists \<Rightarrow> actual = None
      | OpStartsWith \<Rightarrow> (case actual of None \<Rightarrow> False | Some value \<Rightarrow> str_starts_with value expected)
      | OpEndsWith \<Rightarrow> (case actual of None \<Rightarrow> False | Some value \<Rightarrow> str_ends_with value expected)
      | OpContains \<Rightarrow>
          (case actual of
             None \<Rightarrow> False
           | Some value \<Rightarrow>
               if length expected = 1 then fe_memchr env (hd expected) value else fe_memmem env value expected)
      | OpGreaterThan \<Rightarrow> compare_number env actual expected (fe_gt env)
      | OpGreaterThanOrEqual \<Rightarrow> compare_number env actual expected (fe_ge env)
      | OpLessThan \<Rightarrow> compare_number env actual expected (fe_lt env)
      | OpLessThanOrEqual \<Rightarrow> compare_number env actual expected (fe_le env))"

fun compiled_matches :: "'f filter_env \<Rightarrow> (string \<Rightarrow> string option) \<Rightarrow> compiled_tag_node \<Rightarrow> bool" where
  "compiled_matches env get_tag (CLogical op nodes) =
     (case op of
        OpAnd \<Rightarrow> list_all (compiled_matches env get_tag) nodes
      | OpOr \<Rightarrow> list_ex (compiled_matches env get_tag) nodes
      | OpNot \<Rightarrow> (case nodes of [] \<Rightarrow> False | node # _ \<Rightarrow> \<not> compiled_matches env get_tag node))"
| "compiled_matches env get_tag (CComparison key op val vals) =
     compiled_comparison env (get_tag key) op (case val of None \<Rightarrow> [] | Some v \<Rightarrow> v) vals"

section \<open>Validation\<close>

fun validate_events_from :: "predicate_limits \<Rightarrow> nat \<Rightarrow> string list \<Rightarrow> predicate_compile_error + unit" where
  "validate_events_from limits index [] = Inr ()"
| "validate_events_from limits index (event # events) =
     (if event = [] then Inl (EmptyEvent index)
      else if length event > pl_max_event_bytes limits then Inl (EventTooLong index (pl_max_event_bytes limits))
      else validate_events_from limits (Suc index) events)"

definition validate_events :: "string list \<Rightarrow> predicate_limits \<Rightarrow> predicate_compile_error + unit" where
  "validate_events events limits =
     (if length events > pl_max_events limits then Inl (TooManyEvents (pl_max_events limits))
      else validate_events_from limits 0 events)"

definition validate_tag_shape :: "filter_node \<Rightarrow> predicate_compile_error + unit" where
  "validate_tag_shape node =
     (case fn_op node of
        Some op \<Rightarrow>
          (case logical_op_parse op of
             None \<Rightarrow> Inl (InvalidTagFilter (''unknown logical operator: '' @ op))
           | Some logical \<Rightarrow>
               if fn_key node \<noteq> None \<or> fn_cmp node \<noteq> None \<or> fn_val node \<noteq> None \<or> fn_vals node \<noteq> []
               then Inl (InvalidTagFilter ''logical node contains comparison fields'')
               else if \<not> (case logical of OpNot \<Rightarrow> length (fn_nodes node) = 1 | _ \<Rightarrow> fn_nodes node \<noteq> [])
               then Inl (InvalidTagFilter (''invalid child count for '' @ op))
               else Inr ())
      | None \<Rightarrow>
          if fn_nodes node \<noteq> [] then Inl (InvalidTagFilter ''comparison node contains child nodes'')
          else case fn_key node of
            None \<Rightarrow> Inl (InvalidTagFilter ''leaf node requires a key'')
          | Some key \<Rightarrow>
              if key = [] then Inl (InvalidTagFilter ''leaf node requires a non-empty key'')
              else case fn_cmp node of
                None \<Rightarrow> Inl (InvalidTagFilter ''leaf node requires an operator'')
              | Some op_source \<Rightarrow>
                  (case compare_op_parse op_source of
                     None \<Rightarrow> Inl (InvalidTagFilter (''unknown comparison operator: '' @ op_source))
                   | Some op \<Rightarrow>
                       if op \<in> {OpIn, OpNotIn} \<and> fn_vals node = []
                       then Inl (InvalidTagFilter ''set comparison requires values'')
                       else if op \<in> {OpExists, OpNotExists, OpIn, OpNotIn} then Inr ()
                       else if fn_val node = None \<or> fn_val node = Some []
                       then Inl (InvalidTagFilter ''comparison requires a value'')
                       else Inr ()))"

text \<open>The checks of one node in the loop of \<^verbatim>\<open>validate_tags\<close>.\<close>

definition validate_tag_node ::
    "predicate_limits \<Rightarrow> filter_node \<Rightarrow> nat \<Rightarrow> nat \<Rightarrow> predicate_compile_error + unit" where
  "validate_tag_node limits node depth count =
     (if count > pl_max_tag_nodes limits then Inl (TooManyTagNodes (pl_max_tag_nodes limits))
      else if depth > pl_max_tag_depth limits then Inl (TagTreeTooDeep (pl_max_tag_depth limits))
      else if (case fn_key node of None \<Rightarrow> False | Some key \<Rightarrow> length key > pl_max_tag_key_bytes limits)
      then Inl (TagKeyTooLong (pl_max_tag_key_bytes limits))
      else if (case fn_val node of None \<Rightarrow> False | Some value \<Rightarrow> length value > pl_max_tag_value_bytes limits) \<or>
              list_ex (\<lambda>value. length value > pl_max_tag_value_bytes limits) (fn_vals node)
      then Inl (TagValueTooLong (pl_max_tag_value_bytes limits))
      else if length (fn_vals node) > pl_max_tag_values_per_node limits
      then Inl (TooManyTagValues (pl_max_tag_values_per_node limits))
      else validate_tag_shape node)"

fun node_count :: "filter_node \<Rightarrow> nat" where
  "node_count (FilterNode op key cmp val vals nodes is_sorted) = Suc (sum_list (map node_count nodes))"

text \<open>The loop itself; the top of the stack is the head of the list.\<close>

function validate_tags_loop ::
    "predicate_limits \<Rightarrow> (filter_node \<times> nat) list \<Rightarrow> nat \<Rightarrow> predicate_compile_error + unit" where
  "validate_tags_loop limits [] count = Inr ()"
| "validate_tags_loop limits ((node, depth) # stack) count =
     (case validate_tag_node limits node depth (Suc count) of
        Inl e \<Rightarrow> Inl e
      | Inr _ \<Rightarrow>
          validate_tags_loop limits (rev (map (\<lambda>child. (child, Suc depth)) (fn_nodes node)) @ stack) (Suc count))"
  by pat_completeness auto
termination
proof (relation "measure (\<lambda>(limits, stack, count). sum_list (map (\<lambda>p. node_count (fst p)) stack))", goal_cases)
  case (2 limits node depth stack count)
  show ?case by (cases node) (simp add: rev_map [symmetric] comp_def sum_list_rev)
qed simp

definition validate_tags :: "filter_node \<Rightarrow> predicate_limits \<Rightarrow> predicate_compile_error + unit" where
  "validate_tags root limits =
     (case validate_tags_loop limits [(root, 1)] 0 of
        Inl e \<Rightarrow> Inl e
      | Inr _ \<Rightarrow> (case node_validate root of None \<Rightarrow> Inr () | Some err \<Rightarrow> Inl (InvalidTagFilter err)))"

section \<open>Expressions\<close>

text \<open>The syntax tree of the JMESPath library, as far as the traversal takes it apart.\<close>

datatype jmes_ast =
    AComparison jmes_ast jmes_ast
  | AProjection jmes_ast jmes_ast
  | AAnd jmes_ast jmes_ast
  | AOr jmes_ast jmes_ast
  | ASubexpr jmes_ast jmes_ast
  | ACondition jmes_ast jmes_ast
  | AExpref jmes_ast
  | AFlatten jmes_ast
  | ANot jmes_ast
  | AObjectValues jmes_ast
  | AFunction "jmes_ast list"
  | AMultiList "jmes_ast list"
  | AMultiHash "(string \<times> jmes_ast) list"
  | AIdentity | AField | AIndex | ALiteral | ASlice

text \<open>The children in the order in which they are pushed.\<close>

definition ast_children :: "jmes_ast \<Rightarrow> jmes_ast list" where
  "ast_children node =
     (case node of
        AComparison l r \<Rightarrow> [l, r]
      | AProjection l r \<Rightarrow> [l, r]
      | AAnd l r \<Rightarrow> [l, r]
      | AOr l r \<Rightarrow> [l, r]
      | ASubexpr l r \<Rightarrow> [l, r]
      | ACondition p t \<Rightarrow> [p, t]
      | AExpref a \<Rightarrow> [a]
      | AFlatten a \<Rightarrow> [a]
      | ANot a \<Rightarrow> [a]
      | AObjectValues a \<Rightarrow> [a]
      | AFunction args \<Rightarrow> args
      | AMultiList elements \<Rightarrow> elements
      | AMultiHash elements \<Rightarrow> map snd elements
      | _ \<Rightarrow> [])"

text \<open>The number of nodes of a tree and its depth.\<close>

fun ast_count :: "jmes_ast \<Rightarrow> nat" where
  "ast_count (AComparison l r) = Suc (ast_count l + ast_count r)"
| "ast_count (AProjection l r) = Suc (ast_count l + ast_count r)"
| "ast_count (AAnd l r) = Suc (ast_count l + ast_count r)"
| "ast_count (AOr l r) = Suc (ast_count l + ast_count r)"
| "ast_count (ASubexpr l r) = Suc (ast_count l + ast_count r)"
| "ast_count (ACondition l r) = Suc (ast_count l + ast_count r)"
| "ast_count (AExpref a) = Suc (ast_count a)"
| "ast_count (AFlatten a) = Suc (ast_count a)"
| "ast_count (ANot a) = Suc (ast_count a)"
| "ast_count (AObjectValues a) = Suc (ast_count a)"
| "ast_count (AFunction as) = Suc (sum_list (map ast_count as))"
| "ast_count (AMultiList as) = Suc (sum_list (map ast_count as))"
| "ast_count (AMultiHash es) = Suc (sum_list (map (\<lambda>p. ast_count (snd p)) es))"
| "ast_count AIdentity = 1"
| "ast_count AField = 1"
| "ast_count AIndex = 1"
| "ast_count ALiteral = 1"
| "ast_count ASlice = 1"

lemma ast_count_children: "ast_count a = Suc (sum_list (map ast_count (ast_children a)))"
  by (cases a) (auto simp: ast_children_def comp_def)

function validate_ast_loop ::
    "predicate_limits \<Rightarrow> (jmes_ast \<times> nat) list \<Rightarrow> nat \<Rightarrow> predicate_compile_error + unit" where
  "validate_ast_loop limits [] count = Inr ()"
| "validate_ast_loop limits ((node, depth) # stack) count =
     (if Suc count > pl_max_expression_nodes limits then Inl (TooManyExpressionNodes (pl_max_expression_nodes limits))
      else if depth > pl_max_expression_depth limits then Inl (ExpressionTooDeep (pl_max_expression_depth limits))
      else validate_ast_loop limits (rev (map (\<lambda>child. (child, Suc depth)) (ast_children node)) @ stack) (Suc count))"
  by pat_completeness auto
termination
proof (relation "measure (\<lambda>(limits, stack, count). sum_list (map (\<lambda>p. ast_count (fst p)) stack))", goal_cases)
  case (2 limits node depth stack count)
  then show ?case using ast_count_children [of node] by (simp add: rev_map [symmetric] comp_def sum_list_rev)
qed simp

definition validate_expression_ast :: "jmes_ast \<Rightarrow> predicate_limits \<Rightarrow> predicate_compile_error + unit" where
  "validate_expression_ast root limits = validate_ast_loop limits [(root, 1)] 0"

record ('e, 'd) jmespath =
  jm_compile :: "string \<Rightarrow> string + 'e"
  jm_as_ast :: "'e \<Rightarrow> jmes_ast"
  jm_as_str :: "'e \<Rightarrow> string"
  jm_search_truthy :: "'e \<Rightarrow> 'd \<Rightarrow> string + bool"

definition compile_expression ::
    "('e, 'd) jmespath \<Rightarrow> string \<Rightarrow> predicate_limits \<Rightarrow> predicate_compile_error + 'e" where
  "compile_expression jm source limits =
     (if source = [] then Inl EmptyExpression
      else if length source > pl_max_expression_bytes limits then Inl (ExpressionTooLong (pl_max_expression_bytes limits))
      else case jm_compile jm source of
        Inl e \<Rightarrow> Inl (InvalidExpression e)
      | Inr expression \<Rightarrow>
          (case validate_expression_ast (jm_as_ast jm expression) limits of
             Inl e \<Rightarrow> Inl e | Inr _ \<Rightarrow> Inr expression))"

section \<open>Identity\<close>

text \<open>
  The FNV-1a hasher and the bytes that the derived \<^verbatim>\<open>Hash\<close> implementations feed it: a discriminant and a
  length are eight bytes, least significant first, and a string is its bytes followed by \<^verbatim>\<open>0xff\<close>.
\<close>

definition fnv_write :: "bytes \<Rightarrow> u64 \<Rightarrow> u64" where
  "fnv_write bs h = fold (\<lambda>b h. (h XOR ucast b) * 0x100000001b3) bs h"

definition hash_usize :: "nat \<Rightarrow> bytes" where
  "hash_usize n = map (\<lambda>i. of_nat (n div 256 ^ i)) [0..<8]"

definition hash_str :: "string \<Rightarrow> bytes" where
  "hash_str s = map (\<lambda>c. of_nat (of_char c)) s @ [0xff]"

definition hash_option :: "('a \<Rightarrow> bytes) \<Rightarrow> 'a option \<Rightarrow> bytes" where
  "hash_option g x = (case x of None \<Rightarrow> hash_usize 0 | Some y \<Rightarrow> hash_usize 1 @ g y)"

definition hash_slice :: "('a \<Rightarrow> bytes) \<Rightarrow> 'a list \<Rightarrow> bytes" where
  "hash_slice g xs = hash_usize (length xs) @ concat (map g xs)"

definition logical_op_index :: "logical_op \<Rightarrow> nat" where
  "logical_op_index op = (case op of OpAnd \<Rightarrow> 0 | OpOr \<Rightarrow> 1 | OpNot \<Rightarrow> 2)"

definition compare_op_index :: "compare_op \<Rightarrow> nat" where
  "compare_op_index op =
     (case op of OpEqual \<Rightarrow> 0 | OpNotEqual \<Rightarrow> 1 | OpIn \<Rightarrow> 2 | OpNotIn \<Rightarrow> 3 | OpExists \<Rightarrow> 4 | OpNotExists \<Rightarrow> 5
      | OpStartsWith \<Rightarrow> 6 | OpEndsWith \<Rightarrow> 7 | OpContains \<Rightarrow> 8 | OpGreaterThan \<Rightarrow> 9 | OpGreaterThanOrEqual \<Rightarrow> 10
      | OpLessThan \<Rightarrow> 11 | OpLessThanOrEqual \<Rightarrow> 12)"

fun hash_tag_node :: "compiled_tag_node \<Rightarrow> bytes" where
  "hash_tag_node (CLogical op nodes) =
     hash_usize 0 @ hash_usize (logical_op_index op) @ hash_usize (length nodes) @ concat (map hash_tag_node nodes)"
| "hash_tag_node (CComparison key op val vals) =
     hash_usize 1 @ hash_str key @ hash_usize (compare_op_index op) @ hash_option hash_str val @ hash_slice hash_str vals"

definition predicate_id_of :: "string list \<Rightarrow> compiled_tag_node option \<Rightarrow> string option \<Rightarrow> u64" where
  "predicate_id_of events tags source =
     fnv_write (hash_slice hash_str events @ hash_option hash_tag_node tags @ hash_option hash_str source)
       0xcbf29ce484222325"

section \<open>Compilation and evaluation\<close>

record 'e message_predicate =
  mp_events :: "string list"
  mp_tags :: "compiled_tag_node option"
  mp_expression :: "'e option"
  mp_id :: u64

definition compile_with_limits ::
    "('e, 'd) jmespath \<Rightarrow> subscription_view \<Rightarrow> predicate_limits \<Rightarrow> predicate_compile_error + 'e message_predicate" where
  "compile_with_limits jm view limits =
     (case validate_events (sv_events view) limits of
        Inl e \<Rightarrow> Inl e
      | Inr _ \<Rightarrow>
          (let events = dedup (sort (sv_events view)) in
           case (case sv_tags view of
                   None \<Rightarrow> Inr None
                 | Some tags \<Rightarrow>
                     (case validate_tags tags limits of
                        Inl e \<Rightarrow> Inl e
                      | Inr _ \<Rightarrow> (case compile_tags tags of Inl e \<Rightarrow> Inl e | Inr c \<Rightarrow> Inr (Some c)))) of
             Inl e \<Rightarrow> Inl e
           | Inr tags \<Rightarrow>
               (case (case sv_expression view of
                        None \<Rightarrow> Inr None
                      | Some source \<Rightarrow>
                          (case compile_expression jm source limits of Inl e \<Rightarrow> Inl e | Inr x \<Rightarrow> Inr (Some x))) of
                  Inl e \<Rightarrow> Inl e
                | Inr expression \<Rightarrow>
                    Inr \<lparr>mp_events = events, mp_tags = tags, mp_expression = expression,
                         mp_id = predicate_id_of events tags (map_option (jm_as_str jm) expression)\<rparr>)))"

definition predicate_compile ::
    "('e, 'd) jmespath \<Rightarrow> subscription_view \<Rightarrow> predicate_compile_error + 'e message_predicate" where
  "predicate_compile jm view = compile_with_limits jm view predicate_limits_default"

definition matches_cheap ::
    "'f filter_env \<Rightarrow> 'e message_predicate \<Rightarrow> string option \<Rightarrow> (string \<Rightarrow> string option) \<Rightarrow> bool" where
  "matches_cheap env p event get_tag =
     (if mp_events p \<noteq> [] \<and> (case event of None \<Rightarrow> True | Some e \<Rightarrow> \<not> binary_search_ok (mp_events p) e) then False
      else \<not> (case mp_tags p of None \<Rightarrow> False | Some f \<Rightarrow> \<not> compiled_matches env get_tag f))"

definition matches_projected ::
    "('e, 'd) jmespath \<Rightarrow> 'f filter_env \<Rightarrow> 'e message_predicate \<Rightarrow> string option \<Rightarrow> (string \<Rightarrow> string option) \<Rightarrow>
     'd option \<Rightarrow> string + bool" where
  "matches_projected jm env p event get_tag document =
     (if \<not> matches_cheap env p event get_tag then Inr False
      else case mp_expression p of
        None \<Rightarrow> Inr True
      | Some expression \<Rightarrow>
          (case document of
             None \<Rightarrow> Inl ''predicate requires a projected document''
           | Some d \<Rightarrow> jm_search_truthy jm expression d))"

text \<open>\<^verbatim>\<open>matches\<close> projects the document only when the expression is needed.\<close>

definition predicate_matches ::
    "('e, 'd) jmespath \<Rightarrow> 'f filter_env \<Rightarrow> ('x \<Rightarrow> string + 'd) \<Rightarrow> 'e message_predicate \<Rightarrow> string option \<Rightarrow>
     (string \<Rightarrow> string option) \<Rightarrow> 'x \<Rightarrow> string + bool" where
  "predicate_matches jm env project p event get_tag document =
     (if \<not> matches_cheap env p event get_tag then Inr False
      else case mp_expression p of
        None \<Rightarrow> Inr True
      | Some expression \<Rightarrow>
          (case project document of Inl e \<Rightarrow> Inl e | Inr d \<Rightarrow> jm_search_truthy jm expression d))"

definition is_match_all :: "'e message_predicate \<Rightarrow> bool" where
  "is_match_all p \<longleftrightarrow> mp_events p = [] \<and> mp_tags p = None \<and> mp_expression p = None"

definition requires_document :: "'e message_predicate \<Rightarrow> bool" where
  "requires_document p \<longleftrightarrow> mp_expression p \<noteq> None"

section \<open>Bounded projection\<close>

text \<open>
  \<^verbatim>\<open>BoundedWriter\<close>, and the bounded projection of a document. The serialiser is a parameter: the chunks it
  writes, in order, and the error it ends with after writing them all, if any; a write that fails ends it.
\<close>

record bounded_writer =
  bw_bytes :: bytes
  bw_limit :: nat
  bw_exceeded :: bool

definition bounded_writer_new :: "nat \<Rightarrow> bounded_writer" where
  "bounded_writer_new limit = \<lparr>bw_bytes = [], bw_limit = limit, bw_exceeded = False\<rparr>"

definition bounded_write :: "bytes \<Rightarrow> bounded_writer \<Rightarrow> (string + nat) \<times> bounded_writer" where
  "bounded_write bs w =
     (let end = length (bw_bytes w) + length bs in
      if 2 ^ 64 \<le> end
      then (Inl ''projection byte limit exceeded'', w\<lparr>bw_exceeded := True\<rparr>)
      else if end > bw_limit w
      then (Inl ''projection byte limit exceeded'', w\<lparr>bw_exceeded := True\<rparr>)
      else (Inr (length bs), w\<lparr>bw_bytes := bw_bytes w @ bs\<rparr>))"

fun write_chunks :: "bytes list \<Rightarrow> bounded_writer \<Rightarrow> (string + unit) \<times> bounded_writer" where
  "write_chunks [] w = (Inr (), w)"
| "write_chunks (c # cs) w =
     (case bounded_write c w of (Inl e, w') \<Rightarrow> (Inl e, w') | (Inr _, w') \<Rightarrow> write_chunks cs w')"

record ('x, 'd) projection_env =
  pj_chunks :: "'x \<Rightarrow> bytes list"
  pj_failure :: "'x \<Rightarrow> string option"
  pj_from_utf8 :: "bytes \<Rightarrow> string + string"
  pj_from_json :: "string \<Rightarrow> string + 'd"

definition projected_new_bounded :: "('x, 'd) projection_env \<Rightarrow> 'x \<Rightarrow> nat \<Rightarrow> string + 'd" where
  "projected_new_bounded env document max_bytes =
     (case write_chunks (pj_chunks env document) (bounded_writer_new max_bytes) of
        (written, writer) \<Rightarrow>
          (let serialization =
             (case written of
                Inl e \<Rightarrow> Inl e
              | Inr _ \<Rightarrow> (case pj_failure env document of Some e \<Rightarrow> Inl e | None \<Rightarrow> Inr ())) in
           if bw_exceeded writer
           then Inl (''projected document exceeds the byte limit of '' @ show_nat max_bytes)
           else case serialization of
             Inl e \<Rightarrow> Inl (''document projection failed: '' @ e)
           | Inr _ \<Rightarrow>
               (case pj_from_utf8 env (bw_bytes writer) of
                  Inl e \<Rightarrow> Inl (''document projection produced invalid UTF-8: '' @ e)
                | Inr json \<Rightarrow>
                    (case pj_from_json env json of
                       Inl e \<Rightarrow> Inl (''document projection is invalid JSON: '' @ e)
                     | Inr d \<Rightarrow> Inr d))))"

definition expression_source :: "('e, 'd) jmespath \<Rightarrow> 'e message_predicate \<Rightarrow> string option" where
  "expression_source jm p = map_option (jm_as_str jm) (mp_expression p)"

section \<open>What validation accepts\<close>

fun every_node :: "(filter_node \<Rightarrow> bool) \<Rightarrow> filter_node \<Rightarrow> bool" where
  "every_node P (FilterNode op key cmp val vals nodes is_sorted) \<longleftrightarrow>
     P (FilterNode op key cmp val vals nodes is_sorted) \<and> list_all (every_node P) nodes"

fun node_depth :: "filter_node \<Rightarrow> nat" where
  "node_depth (FilterNode op key cmp val vals nodes is_sorted) = Suc (Max (set (0 # map node_depth nodes)))"

definition tag_node_ok :: "predicate_limits \<Rightarrow> filter_node \<Rightarrow> bool" where
  "tag_node_ok limits node \<longleftrightarrow>
     length (node_key node) \<le> pl_max_tag_key_bytes limits \<and>
     length (node_val node) \<le> pl_max_tag_value_bytes limits \<and>
     list_all (\<lambda>value. length value \<le> pl_max_tag_value_bytes limits) (fn_vals node) \<and>
     length (fn_vals node) \<le> pl_max_tag_values_per_node limits \<and>
     validate_tag_shape node = Inr ()"

lemma validate_tag_node_iff:
  "validate_tag_node limits node depth count = Inr () \<longleftrightarrow>
     count \<le> pl_max_tag_nodes limits \<and> depth \<le> pl_max_tag_depth limits \<and> tag_node_ok limits node"
proof -
  have "list_ex (\<lambda>v. pl_max_tag_value_bytes limits < length v) vs \<longleftrightarrow>
      \<not> list_all (\<lambda>v. length v \<le> pl_max_tag_value_bytes limits) vs" for vs :: "string list"
    by (simp add: list_ex_iff list_all_iff not_le)
  then show ?thesis
    by (auto simp: validate_tag_node_def tag_node_ok_def node_key_def node_val_def not_less split: option.splits)
qed

lemma every_node_unfold: "every_node P f \<longleftrightarrow> P f \<and> list_all (every_node P) (fn_nodes f)"
  by (cases f) simp

lemma node_count_unfold: "node_count f = Suc (sum_list (map node_count (fn_nodes f)))"
  by (cases f) simp

lemma node_depth_le: "node_depth f \<le> Suc n \<longleftrightarrow> list_all (\<lambda>c. node_depth c \<le> n) (fn_nodes f)"
  by (cases f) (simp add: list_all_iff)

lemma node_depth_pos: "node_depth f \<noteq> 0"
  by (cases f) simp

lemma node_depth_shift:
  "d + node_depth f \<le> Suc n \<longleftrightarrow> d \<le> n \<and> list_all (\<lambda>c. Suc d + node_depth c \<le> Suc n) (fn_nodes f)"
proof (cases "d \<le> n")
  case True
  then obtain m where n: "n = d + m" using le_Suc_ex by blast
  have "d + node_depth f \<le> Suc n \<longleftrightarrow> node_depth f \<le> Suc m" by (simp add: n)
  also have "\<dots> \<longleftrightarrow> list_all (\<lambda>c. node_depth c \<le> m) (fn_nodes f)" by (rule node_depth_le)
  finally show ?thesis by (simp add: n)
next
  case False
  then show ?thesis using node_depth_pos [of f] by simp
qed

lemma validate_tags_loop_iff:
  "validate_tags_loop limits stack count = Inr () \<longleftrightarrow>
     (stack = [] \<or> count + sum_list (map (\<lambda>p. node_count (fst p)) stack) \<le> pl_max_tag_nodes limits) \<and>
     list_all (\<lambda>p. snd p + node_depth (fst p) \<le> Suc (pl_max_tag_depth limits) \<and> every_node (tag_node_ok limits) (fst p)) stack"
proof (induction limits stack count rule: validate_tags_loop.induct)
  case (2 limits node depth stack count)
  let ?new = "rev (map (\<lambda>child. (child, Suc depth)) (fn_nodes node)) @ stack"
  let ?ok = "\<lambda>p. snd p + node_depth (fst p) \<le> Suc (pl_max_tag_depth limits) \<and> every_node (tag_node_ok limits) (fst p)"
  have count: "Suc (count + sum_list (map (\<lambda>p. node_count (fst p)) ?new)) =
      count + sum_list (map (\<lambda>p. node_count (fst p)) ((node, depth) # stack))"
    by (simp add: node_count_unfold [of node] rev_map [symmetric] comp_def sum_list_rev)
  have all: "list_all ?ok ((node, depth) # stack) \<longleftrightarrow>
      depth \<le> pl_max_tag_depth limits \<and> tag_node_ok limits node \<and> list_all ?ok ?new"
    unfolding list.pred_inject fst_conv snd_conv node_depth_shift [of depth node]
      every_node_unfold [of _ node] list_all_append
    by (auto simp: list_all_iff)
  show ?case
  proof (cases "validate_tag_node limits node depth (Suc count) = Inr ()")
    case True
    then have step: "validate_tags_loop limits ((node, depth) # stack) count = validate_tags_loop limits ?new (Suc count)"
      by simp
    have limit: "(?new = [] \<or> Suc count + sum_list (map (\<lambda>p. node_count (fst p)) ?new) \<le> pl_max_tag_nodes limits) \<longleftrightarrow>
        count + sum_list (map (\<lambda>p. node_count (fst p)) ((node, depth) # stack)) \<le> pl_max_tag_nodes limits"
      using True unfolding validate_tag_node_iff count [symmetric] by (cases "?new = []") auto
    show ?thesis
      unfolding step 2 [OF True] limit all using True by (auto simp: validate_tag_node_iff)
  next
    case False
    then have "validate_tags_loop limits ((node, depth) # stack) count \<noteq> Inr ()"
      by (simp split: sum.splits)
    moreover have "Suc count \<le> count + sum_list (map (\<lambda>p. node_count (fst p)) ((node, depth) # stack))"
      by (simp add: node_count_unfold [of node])
    ultimately show ?thesis using False all
      unfolding validate_tag_node_iff by auto
  qed
qed simp

lemma ast_child_count: "c \<in> set (ast_children a) \<Longrightarrow> ast_count c < ast_count a"
  unfolding ast_count_children [of a] less_Suc_eq_le by (rule member_le_sum_list) simp_all

function ast_depth :: "jmes_ast \<Rightarrow> nat" where
  "ast_depth a = Suc (Max (set (0 # map ast_depth (ast_children a))))"
  by pat_completeness auto
termination
  by (relation "measure ast_count") (auto dest: ast_child_count)

declare ast_depth.simps [simp del]

lemma ast_depth_shift:
  "d + ast_depth a \<le> Suc n \<longleftrightarrow> d \<le> n \<and> list_all (\<lambda>c. Suc d + ast_depth c \<le> Suc n) (ast_children a)"
proof (cases "d \<le> n")
  case True
  then obtain m where n: "n = d + m" using le_Suc_ex by blast
  have "d + ast_depth a \<le> Suc n \<longleftrightarrow> ast_depth a \<le> Suc m" by (simp add: n)
  also have "\<dots> \<longleftrightarrow> list_all (\<lambda>c. ast_depth c \<le> m) (ast_children a)"
    by (subst ast_depth.simps) (simp add: list_all_iff)
  finally show ?thesis by (simp add: n)
next
  case False
  then show ?thesis by (subst ast_depth.simps) simp
qed

lemma validate_ast_loop_iff:
  "validate_ast_loop limits stack count = Inr () \<longleftrightarrow>
     (stack = [] \<or> count + sum_list (map (\<lambda>p. ast_count (fst p)) stack) \<le> pl_max_expression_nodes limits) \<and>
     list_all (\<lambda>p. snd p + ast_depth (fst p) \<le> Suc (pl_max_expression_depth limits)) stack"
proof (induction limits stack count rule: validate_ast_loop.induct)
  case (2 limits node depth stack count)
  let ?new = "rev (map (\<lambda>child. (child, Suc depth)) (ast_children node)) @ stack"
  let ?ok = "\<lambda>p. snd p + ast_depth (fst p) \<le> Suc (pl_max_expression_depth limits)"
  have count: "Suc (count + sum_list (map (\<lambda>p. ast_count (fst p)) ?new)) =
      count + sum_list (map (\<lambda>p. ast_count (fst p)) ((node, depth) # stack))"
    by (simp add: ast_count_children [of node] rev_map [symmetric] comp_def sum_list_rev)
  have all: "list_all ?ok ((node, depth) # stack) \<longleftrightarrow> depth \<le> pl_max_expression_depth limits \<and> list_all ?ok ?new"
    unfolding list.pred_inject fst_conv snd_conv ast_depth_shift [of depth node] list_all_append
    by (auto simp: list_all_iff)
  show ?case
  proof (cases "Suc count \<le> pl_max_expression_nodes limits \<and> depth \<le> pl_max_expression_depth limits")
    case True
    then have fits: "\<not> pl_max_expression_nodes limits < Suc count" "\<not> pl_max_expression_depth limits < depth" by simp_all
    then have step: "validate_ast_loop limits ((node, depth) # stack) count = validate_ast_loop limits ?new (Suc count)"
      by simp
    have limit: "(?new = [] \<or> Suc count + sum_list (map (\<lambda>p. ast_count (fst p)) ?new) \<le> pl_max_expression_nodes limits) \<longleftrightarrow>
        count + sum_list (map (\<lambda>p. ast_count (fst p)) ((node, depth) # stack)) \<le> pl_max_expression_nodes limits"
      using True unfolding count [symmetric] by (cases "?new = []") auto
    show ?thesis
      unfolding step 2 [OF fits] limit all using True by auto
  next
    case False
    then have "validate_ast_loop limits ((node, depth) # stack) count \<noteq> Inr ()" by auto
    moreover have "Suc count \<le> count + sum_list (map (\<lambda>p. ast_count (fst p)) ((node, depth) # stack))"
      by (simp add: ast_count_children [of node])
    ultimately show ?thesis using False all by auto
  qed
qed simp

lemma validate_expression_ast_iff:
  "validate_expression_ast root limits = Inr () \<longleftrightarrow>
     ast_count root \<le> pl_max_expression_nodes limits \<and> ast_depth root \<le> pl_max_expression_depth limits"
  unfolding validate_expression_ast_def validate_ast_loop_iff by simp

section \<open>What compilation keeps\<close>

lemma shape_logical:
  assumes "validate_tag_shape (FilterNode (Some o') key cmp val vals nodes s) = Inr ()"
  obtains l where "logical_op_parse o' = Some l" "validate_arity o' l nodes = None"
  using assms by (auto simp: validate_tag_shape_def validate_arity_def split: option.splits logical_op.splits if_splits)

lemma shape_leaf:
  assumes "validate_tag_shape (FilterNode None key cmp val vals nodes s) = Inr ()"
  obtains k c op where "key = Some k" "k \<noteq> []" "cmp = Some c" "compare_op_parse c = Some op" "nodes = []"
    and "op \<notin> {OpExists, OpNotExists, OpIn, OpNotIn} \<Longrightarrow> \<exists>v. val = Some v \<and> v \<noteq> []"
    and "op \<in> {OpIn, OpNotIn} \<Longrightarrow> vals \<noteq> []"
proof -
  from assms obtain k c op where k: "key = Some k" "k \<noteq> []" "cmp = Some c" "compare_op_parse c = Some op" "nodes = []"
    by (auto simp: validate_tag_shape_def split: option.splits if_splits)
  moreover from assms k have "op \<notin> {OpExists, OpNotExists, OpIn, OpNotIn} \<Longrightarrow> \<exists>v. val = Some v \<and> v \<noteq> []"
    by (auto simp: validate_tag_shape_def split: if_splits)
  moreover from assms k have "op \<in> {OpIn, OpNotIn} \<Longrightarrow> vals \<noteq> []"
    by (auto simp: validate_tag_shape_def split: if_splits)
  ultimately show ?thesis by (rule that)
qed

lemma find_error_None: "find_error g i xs = None \<longleftrightarrow> list_all (\<lambda>x. g x = None) xs"
  by (induction xs arbitrary: i) (auto split: option.splits)

lemma collect_results_Inr:
  "list_all2 (\<lambda>x y. g x = Inr y) xs ys \<Longrightarrow> collect_results g xs = Inr ys"
  by (induction xs ys rule: list_all2_induct) auto

abbreviation shape_ok :: "filter_node \<Rightarrow> bool" where
  "shape_ok f \<equiv> validate_tag_shape f = Inr ()"

lemma node_validate_shape: "every_node shape_ok f \<Longrightarrow> node_validate f = None"
proof (induction f rule: node_validate.induct)
  case (1 op key cmp val vals nodes s)
  show ?case
  proof (cases op)
    case None
    with "1.prems" have "shape_ok (FilterNode None key cmp val vals nodes s)" by simp
    then show ?thesis by (rule shape_leaf) (auto simp: None validate_leaf_def)
  next
    case (Some o')
    with "1.prems" have "shape_ok (FilterNode (Some o') key cmp val vals nodes s)" by simp
    then obtain l where l: "logical_op_parse o' = Some l" "validate_arity o' l nodes = None" by (rule shape_logical)
    have "find_error node_validate 0 nodes = None"
      unfolding find_error_None using "1.prems" "1.IH" [OF Some l] by (auto simp: list_all_iff)
    with l Some show ?thesis by simp
  qed
qed

lemma compiled_comparison_agrees:
  assumes "cmp = Some c" "compare_op_parse c = Some op" "key = Some k" "is_sorted \<Longrightarrow> sorted vals"
    and "op \<notin> {OpExists, OpNotExists, OpIn, OpNotIn} \<Longrightarrow> \<exists>v. val = Some v \<and> v \<noteq> []"
  shows "compiled_comparison env (get_tag k) op (case val of None \<Rightarrow> [] | Some v \<Rightarrow> v) (dedup (sort vals)) =
     evaluate_comparison env get_tag (FilterNode None key cmp val vals nodes is_sorted)"
  using assms
  by (cases op; cases "get_tag k")
    (auto simp: compiled_comparison_def evaluate_comparison_def node_key_def node_val_def node_compare_op_def
      list_ex_iff compare_number_def compare_numeric_def split: option.splits)

lemma compile_tags_agrees:
  assumes "every_node shape_ok f"
  shows "\<exists>c. compile_tags f = Inr c \<and>
     (flags_ok f \<longrightarrow> (\<forall>env :: 'f filter_env. \<forall>get_tag. compiled_matches env get_tag c = filter_matches env get_tag f))"
  using assms
proof (induction f rule: compile_tags.induct)
  case (1 op key cmp val vals nodes s)
  show ?case
  proof (cases op)
    case None
    with "1.prems" have "shape_ok (FilterNode None key cmp val vals nodes s)" by simp
    then show ?thesis
    proof (rule shape_leaf)
      fix k c cop
      assume k: "key = Some k" "cmp = Some c" "compare_op_parse c = Some cop"
        and v: "cop \<notin> {OpExists, OpNotExists, OpIn, OpNotIn} \<Longrightarrow> \<exists>v. val = Some v \<and> v \<noteq> []"
      have "compiled_matches env get_tag (CComparison k cop val (dedup (sort vals))) =
          filter_matches env get_tag (FilterNode op key cmp val vals nodes s)"
        if s: "s \<Longrightarrow> sorted vals" for env :: "'f filter_env" and get_tag
        using compiled_comparison_agrees [OF k(2,3,1) s v, where env = env and get_tag = get_tag and nodes = nodes] by (simp add: None node_logical_op_def)
      moreover have "compile_tags (FilterNode op key cmp val vals nodes s) = Inr (CComparison k cop val (dedup (sort vals)))"
        by (simp add: None k)
      ultimately show ?thesis by auto
    qed
  next
    case (Some o')
    with "1.prems" have "shape_ok (FilterNode (Some o') key cmp val vals nodes s)" by simp
    then obtain l where l: "logical_op_parse o' = Some l" by (rule shape_logical)
    have "\<forall>n \<in> set nodes. \<exists>c. compile_tags n = Inr c \<and>
        (flags_ok n \<longrightarrow> (\<forall>env :: 'f filter_env. \<forall>get_tag. compiled_matches env get_tag c = filter_matches env get_tag n))"
      using "1.prems" "1.IH" [OF Some l] by (auto simp: list_all_iff)
    then obtain g where g: "\<forall>n \<in> set nodes. compile_tags n = Inr (g n) \<and>
        (flags_ok n \<longrightarrow> (\<forall>env :: 'f filter_env. \<forall>get_tag. compiled_matches env get_tag (g n) = filter_matches env get_tag n))"
      by (rule bchoice [THEN exE])
    then have "collect_results compile_tags nodes = Inr (map g nodes)"
      by (intro collect_results_Inr) (auto simp: list_all2_map2 intro!: list_all2_refl list.rel_refl_strong)
    then have "compile_tags (FilterNode op key cmp val vals nodes s) = Inr (CLogical l (map g nodes))"
      by (simp add: Some l)
    moreover have "compiled_matches env get_tag (CLogical l (map g nodes)) =
        filter_matches env get_tag (FilterNode op key cmp val vals nodes s)"
      if "flags_ok (FilterNode op key cmp val vals nodes s)" for env :: "'f filter_env" and get_tag
      using g that by (cases l; cases nodes) (auto simp: Some l node_logical_op_def list_all_iff list_ex_iff)
    ultimately show ?thesis by blast
  qed
qed

lemma every_node_shape: "every_node (tag_node_ok limits) f \<Longrightarrow> every_node shape_ok f"
  by (induction f) (auto simp: tag_node_ok_def list_all_iff)

lemma validate_tags_iff:
  "validate_tags f limits = Inr () \<longleftrightarrow>
     node_count f \<le> pl_max_tag_nodes limits \<and> node_depth f \<le> pl_max_tag_depth limits \<and>
     every_node (tag_node_ok limits) f"
proof -
  have "validate_tags f limits = Inr () \<longleftrightarrow> validate_tags_loop limits [(f, 1)] 0 = Inr () \<and> node_validate f = None"
    by (auto simp: validate_tags_def split: sum.splits option.splits)
  also have "\<dots> \<longleftrightarrow> validate_tags_loop limits [(f, 1)] 0 = Inr ()"
    unfolding validate_tags_loop_iff using node_validate_shape [OF every_node_shape] by auto
  finally show ?thesis unfolding validate_tags_loop_iff by simp
qed

lemma validate_tags_shape: "validate_tags f limits = Inr () \<Longrightarrow> every_node shape_ok f"
  unfolding validate_tags_iff using every_node_shape by blast

lemma compile_tags_total: "validate_tags f limits = Inr () \<Longrightarrow> \<exists>c. compile_tags f = Inr c"
  using compile_tags_agrees [OF validate_tags_shape] by blast

lemma validate_events_iff:
  "validate_events events limits = Inr () \<longleftrightarrow>
     length events \<le> pl_max_events limits \<and>
     list_all (\<lambda>e. e \<noteq> [] \<and> length e \<le> pl_max_event_bytes limits) events"
proof -
  have "validate_events_from limits i events = Inr () \<longleftrightarrow>
      list_all (\<lambda>e. e \<noteq> [] \<and> length e \<le> pl_max_event_bytes limits) events" for i
    by (induction events arbitrary: i) auto
  then show ?thesis by (simp add: validate_events_def)
qed

text \<open>What the limits ask of a view.\<close>

definition view_ok :: "('e, 'd) jmespath \<Rightarrow> predicate_limits \<Rightarrow> subscription_view \<Rightarrow> bool" where
  "view_ok jm limits view \<longleftrightarrow>
     length (sv_events view) \<le> pl_max_events limits \<and>
     list_all (\<lambda>e. e \<noteq> [] \<and> length e \<le> pl_max_event_bytes limits) (sv_events view) \<and>
     (case sv_tags view of
        None \<Rightarrow> True
      | Some f \<Rightarrow> node_count f \<le> pl_max_tag_nodes limits \<and> node_depth f \<le> pl_max_tag_depth limits \<and>
          every_node (tag_node_ok limits) f) \<and>
     (case sv_expression view of
        None \<Rightarrow> True
      | Some source \<Rightarrow> source \<noteq> [] \<and> length source \<le> pl_max_expression_bytes limits \<and>
          (case jm_compile jm source of
             Inl _ \<Rightarrow> False
           | Inr x \<Rightarrow> ast_count (jm_as_ast jm x) \<le> pl_max_expression_nodes limits \<and>
               ast_depth (jm_as_ast jm x) \<le> pl_max_expression_depth limits))"

lemma compile_expression_Inr:
  "compile_expression jm source limits = Inr x \<longleftrightarrow>
     source \<noteq> [] \<and> length source \<le> pl_max_expression_bytes limits \<and> jm_compile jm source = Inr x \<and>
     ast_count (jm_as_ast jm x) \<le> pl_max_expression_nodes limits \<and> ast_depth (jm_as_ast jm x) \<le> pl_max_expression_depth limits"
  using validate_expression_ast_iff [of "jm_as_ast jm x" limits]
  by (cases "validate_expression_ast (jm_as_ast jm x) limits")
    (auto simp: compile_expression_def split: sum.splits)

definition compiles_tags :: "predicate_limits \<Rightarrow> filter_node option \<Rightarrow> compiled_tag_node option \<Rightarrow> bool" where
  "compiles_tags limits tags tags' \<longleftrightarrow>
     (case tags of
        None \<Rightarrow> tags' = None
      | Some f \<Rightarrow> validate_tags f limits = Inr () \<and> (\<exists>c. compile_tags f = Inr c \<and> tags' = Some c))"

definition compiles_expression ::
    "('e, 'd) jmespath \<Rightarrow> predicate_limits \<Rightarrow> string option \<Rightarrow> 'e option \<Rightarrow> bool" where
  "compiles_expression jm limits expression expression' \<longleftrightarrow>
     (case expression of
        None \<Rightarrow> expression' = None
      | Some source \<Rightarrow> (\<exists>x. compile_expression jm source limits = Inr x \<and> expression' = Some x))"

lemma compile_with_limits_Inr:
  "compile_with_limits jm view limits = Inr p \<longleftrightarrow>
     validate_events (sv_events view) limits = Inr () \<and>
     compiles_tags limits (sv_tags view) (mp_tags p) \<and>
     compiles_expression jm limits (sv_expression view) (mp_expression p) \<and>
     mp_events p = dedup (sort (sv_events view)) \<and>
     mp_id p = predicate_id_of (mp_events p) (mp_tags p) (expression_source jm p)"
  by (cases p)
    (auto simp: compile_with_limits_def compiles_tags_def compiles_expression_def expression_source_def Let_def
      split: sum.splits option.splits)


text \<open>The meaning of a view, with no compilation: the reference for the compiled predicate.\<close>

definition view_matches ::
    "('e, 'd) jmespath \<Rightarrow> 'f filter_env \<Rightarrow> subscription_view \<Rightarrow> string option \<Rightarrow> (string \<Rightarrow> string option) \<Rightarrow> 'd \<Rightarrow>
     string + bool" where
  "view_matches jm env view event get_tag d =
     (if (sv_events view = [] \<or> (\<exists>e \<in> set (sv_events view). event = Some e)) \<and>
         (case sv_tags view of None \<Rightarrow> True | Some f \<Rightarrow> filter_matches env get_tag f)
      then case sv_expression view of
          None \<Rightarrow> Inr True
        | Some source \<Rightarrow> (case jm_compile jm source of Inl e \<Rightarrow> Inl e | Inr x \<Rightarrow> jm_search_truthy jm x d)
      else Inr False)"

lemma dedup_eq_Nil [simp]: "dedup xs = [] \<longleftrightarrow> xs = []"
  by (induction xs rule: dedup.induct) auto

lemma sort_eq_Nil [simp]: "sort xs = [] \<longleftrightarrow> xs = []"
  by (metis length_0_conv length_sort)

text \<open>C7: A compiled predicate decides what its view means: the event is one of the listed ones (or none is listed), the
tag filter matches as the interpreter of filters decides it, and the expression is truthy on the document; compiling
once, sorting the events and the value sets and searching them by bisection change nothing.\<close>

theorem predicate_matches_view:
  fixes env :: "'f filter_env"
  assumes "compile_with_limits jm view limits = Inr p"
    and "case sv_tags view of None \<Rightarrow> True | Some f \<Rightarrow> flags_ok f"
  shows "matches_projected jm env p event get_tag (Some d) = view_matches jm env view event get_tag d"
proof -
  have p: "compiles_tags limits (sv_tags view) (mp_tags p)" "compiles_expression jm limits (sv_expression view) (mp_expression p)"
    "mp_events p = dedup (sort (sv_events view))"
    using assms(1) by (simp_all add: compile_with_limits_Inr)
  have tags: "(case mp_tags p of None \<Rightarrow> False | Some c \<Rightarrow> \<not> compiled_matches env get_tag c) \<longleftrightarrow>
      \<not> (case sv_tags view of None \<Rightarrow> True | Some f \<Rightarrow> filter_matches env get_tag f)"
    using p(1) assms(2) compile_tags_agrees [OF validate_tags_shape, where 'f = 'f]
    by (fastforce simp: compiles_tags_def split: option.splits)
  have cheap: "matches_cheap env p event get_tag \<longleftrightarrow>
      (sv_events view = [] \<or> (\<exists>e \<in> set (sv_events view). event = Some e)) \<and>
      (case sv_tags view of None \<Rightarrow> True | Some f \<Rightarrow> filter_matches env get_tag f)"
    unfolding matches_cheap_def tags by (auto simp: p(3) split: option.splits)
  show ?thesis
    using p(2) unfolding matches_projected_def view_matches_def cheap
    by (auto simp: compiles_expression_def compile_expression_Inr split: option.splits)
qed

text \<open>The compiled form is canonical in the events: views that list the same events, in whatever order and however
often, and agree otherwise, compile to the same predicate with the same identity.\<close>

theorem predicate_canonical:
  assumes "compile_with_limits jm view limits = Inr p"
    and "compile_with_limits jm (view\<lparr>sv_events := events\<rparr>) limits = Inr q"
    and "set events = set (sv_events view)"
  shows "p = q"
proof -
  have "dedup (sort (sv_events view)) = dedup (sort events)" by (rule dedup_sort_cong) (simp add: assms(3))
  with assms(1,2) show ?thesis
    by (auto simp: compile_with_limits_def Let_def split: sum.splits)
qed

lemma write_chunks_exact:
  assumes "bw_limit w < 2 ^ 64" and "length (bw_bytes w) \<le> bw_limit w" and "\<not> bw_exceeded w"
  shows "write_chunks cs w = (r, w') \<Longrightarrow>
     length (bw_bytes w') \<le> bw_limit w \<and>
     (bw_exceeded w' \<longleftrightarrow> bw_limit w < length (bw_bytes w) + length (concat cs)) \<and>
     (\<not> bw_exceeded w' \<longrightarrow> r = Inr () \<and> bw_bytes w' = bw_bytes w @ concat cs)"
  using assms
proof (induction cs arbitrary: w)
  case (Cons c cs)
  show ?case
  proof (cases "length (bw_bytes w) + length c \<le> bw_limit w")
    case True
    with Cons.prems have "bounded_write c w = (Inr (length c), w\<lparr>bw_bytes := bw_bytes w @ c\<rparr>)"
      by (simp add: bounded_write_def Let_def)
    with Cons.prems Cons.IH [of "w\<lparr>bw_bytes := bw_bytes w @ c\<rparr>"] True show ?thesis by (simp add: add.assoc)
  next
    case False
    with Cons.prems have "bounded_write c w = (Inl ''projection byte limit exceeded'', w\<lparr>bw_exceeded := True\<rparr>)"
      by (simp add: bounded_write_def Let_def)
    with Cons.prems False show ?thesis by auto
  qed
qed simp

text \<open>Projecting a document through the bounded writer is exact: it is refused for its size precisely when what the
serialiser writes is longer than the limit, and otherwise the whole text reaches the parser unless the serialiser fails.
No more than the limit is ever buffered.\<close>

theorem bounded_projection_exact:
  assumes "max_bytes < 2 ^ 64"
  shows "length (bw_bytes (snd (write_chunks (pj_chunks env x) (bounded_writer_new max_bytes)))) \<le> max_bytes \<and>
     projected_new_bounded env x max_bytes =
     (if max_bytes < length (concat (pj_chunks env x))
      then Inl (''projected document exceeds the byte limit of '' @ show_nat max_bytes)
      else case pj_failure env x of
        Some e \<Rightarrow> Inl (''document projection failed: '' @ e)
      | None \<Rightarrow>
          (case pj_from_utf8 env (concat (pj_chunks env x)) of
             Inl e \<Rightarrow> Inl (''document projection produced invalid UTF-8: '' @ e)
           | Inr json \<Rightarrow>
               (case pj_from_json env json of
                  Inl e \<Rightarrow> Inl (''document projection is invalid JSON: '' @ e)
                | Inr d \<Rightarrow> Inr d)))"
proof -
  obtain r w where rw: "write_chunks (pj_chunks env x) (bounded_writer_new max_bytes) = (r, w)"
    by (cases "write_chunks (pj_chunks env x) (bounded_writer_new max_bytes)")
  have "length (bw_bytes w) \<le> max_bytes" "bw_exceeded w \<longleftrightarrow> max_bytes < length (concat (pj_chunks env x))"
    "\<not> bw_exceeded w \<Longrightarrow> r = Inr () \<and> bw_bytes w = concat (pj_chunks env x)"
    using write_chunks_exact [OF _ _ _ rw] assms by (simp_all add: bounded_writer_new_def)
  then show ?thesis
    by (cases "bw_exceeded w") (auto simp: projected_new_bounded_def rw Let_def split: option.splits)
qed

section \<open>Witnesses\<close>

definition demo_jmespath :: "(string, string) jmespath" where
  "demo_jmespath =
     \<lparr>jm_compile = Inr, jm_as_ast = (\<lambda>_. ANot AField), jm_as_str = id, jm_search_truthy = (\<lambda>e d. Inr (e \<noteq> d))\<rparr>"

definition demo_filter_env :: "nat filter_env" where
  "demo_filter_env =
     \<lparr>fe_memchr = (\<lambda>c s. c \<in> set s), fe_memmem = (\<lambda>s p. \<exists>i \<le> length s. take (length p) (drop i s) = p),
      fe_parse_f64 = (\<lambda>s. Some (length s)), fe_gt = (>), fe_ge = (\<ge>), fe_lt = (<), fe_le = (\<le>)\<rparr>"

definition demo_view :: subscription_view where
  "demo_view =
     \<lparr>sv_events = [''b'', ''a'', ''b''],
      sv_tags = Some (new_logical OpNot [new_set_comparison ''k'' OpIn [''y'', ''x'']]),
      sv_expression = Some ''e''\<rparr>"

definition demo_predicate :: "string message_predicate" where
  "demo_predicate =
     \<lparr>mp_events = [''a'', ''b''], mp_tags = Some (CLogical OpNot [CComparison ''k'' OpIn None [''x'', ''y'']]),
      mp_expression = Some ''e'',
      mp_id = predicate_id_of [''a'', ''b''] (Some (CLogical OpNot [CComparison ''k'' OpIn None [''x'', ''y'']])) (Some ''e'')\<rparr>"

lemma demo_view_compiles:
  "compile_with_limits demo_jmespath demo_view predicate_limits_default =
     Inr demo_predicate"
  by (simp add: compile_with_limits_def demo_predicate_def demo_view_def demo_jmespath_def predicate_limits_default_def
      validate_events_def new_logical_def new_set_comparison_def validate_tags_def validate_tag_node_def
      validate_tag_shape_def logical_op_parse_def logical_op_as_str_def compare_op_parse_def compare_op_as_str_def
      validate_arity_def validate_leaf_def compile_expression_def validate_expression_ast_def ast_children_def Let_def)

lemma predicate_matches_view_witness:
  "matches_projected demo_jmespath demo_filter_env demo_predicate (Some ''b'') [''k'' \<mapsto> ''z''] (Some ''d'') = Inr True"
proof -
  have "flags_ok (new_logical OpNot [new_set_comparison ''k'' OpIn [''y'', ''x'']])"
    by (simp add: new_logical_def new_set_comparison_def)
  then have "matches_projected demo_jmespath demo_filter_env demo_predicate (Some ''b'') [''k'' \<mapsto> ''z''] (Some ''d'') =
      view_matches demo_jmespath demo_filter_env demo_view (Some ''b'') [''k'' \<mapsto> ''z''] ''d''"
    by (intro predicate_matches_view [OF demo_view_compiles]) (simp add: demo_view_def)
  also have "\<dots> = Inr True"
    by (simp add: view_matches_def demo_view_def demo_jmespath_def new_logical_def new_set_comparison_def
        logical_op_as_str_def logical_op_parse_def compare_op_as_str_def compare_op_parse_def node_logical_op_def
        evaluate_comparison_def node_compare_op_def node_key_def)
  finally show ?thesis .
qed

lemma demo_view_compiles_reordered:
  "compile_with_limits demo_jmespath (demo_view\<lparr>sv_events := [''a'', ''b'']\<rparr>) predicate_limits_default = Inr demo_predicate"
  by (simp add: compile_with_limits_def demo_predicate_def demo_view_def demo_jmespath_def predicate_limits_default_def
      validate_events_def new_logical_def new_set_comparison_def validate_tags_def validate_tag_node_def
      validate_tag_shape_def logical_op_parse_def logical_op_as_str_def compare_op_parse_def compare_op_as_str_def
      validate_arity_def validate_leaf_def compile_expression_def validate_expression_ast_def ast_children_def Let_def)

lemma predicate_canonical_witness:
  "compile_with_limits demo_jmespath demo_view predicate_limits_default =
   compile_with_limits demo_jmespath (demo_view\<lparr>sv_events := [''a'', ''b'']\<rparr>) predicate_limits_default"
proof -
  have "set [''a'', ''b''] = set (sv_events demo_view)" by (auto simp: demo_view_def)
  from predicate_canonical [OF demo_view_compiles demo_view_compiles_reordered this] show ?thesis
    by (simp add: demo_view_compiles demo_view_compiles_reordered)
qed

definition demo_projection :: "(bytes list, bytes) projection_env" where
  "demo_projection =
     \<lparr>pj_chunks = id, pj_failure = (\<lambda>_. None), pj_from_utf8 = (\<lambda>bs. Inr (map (char_of \<circ> unat) bs)),
      pj_from_json = (\<lambda>s. Inr (map (\<lambda>c. of_nat (of_char c)) s))\<rparr>"

lemma bounded_projection_exact_witness:
  "projected_new_bounded demo_projection [[1, 2], [3]] 3 = Inr [1, 2, 3] \<and>
   projected_new_bounded demo_projection [[1, 2], [3]] 2 =
     Inl (''projected document exceeds the byte limit of '' @ show_nat 2)"
  using bounded_projection_exact [of 3 demo_projection "[[1, 2], [3]]"]
    bounded_projection_exact [of 2 demo_projection "[[1, 2], [3]]"]
  by (simp add: demo_projection_def)

end
