(* ===== verification/Filter_Index.thy ===== *)
theory Filter_Index
  imports Tag_Filter
begin

text \<open>
  The inverted index from tag values to subscribers (\<^verbatim>\<open>sockudo-adapter/src/filter_index.rs\<close>): subscribers without a
  filter, subscribers whose filter is an equality, a set membership or a disjunction of those over one key, and the
  rest, which the caller evaluates per message. The concurrent maps are maps and sets; a vector collected from a set
  has no order and is the set itself. The hash of a channel, key and value is a parameter.
\<close>

section \<open>The index\<close>

type_synonym eq_hash = "string \<Rightarrow> string \<Rightarrow> string \<Rightarrow> u64"

record 's filter_index =
  fi_eq_index :: "u64 \<rightharpoonup> 's set"
  fi_channel_keys :: "string \<rightharpoonup> u64 set"
  fi_complex_filters :: "string \<rightharpoonup> 's set"
  fi_no_filter :: "string \<rightharpoonup> 's set"

record 's index_lookup_result =
  ilr_indexed_matches :: "'s set"
  ilr_needs_evaluation :: "'s set"
  ilr_no_filter :: "'s set"

record indexable_filter =
  ixf_key :: string
  ixf_values :: "string list"

record index_stats =
  ixs_eq_entries :: nat
  ixs_eq_sockets :: nat
  ixs_complex_filters :: nat
  ixs_no_filter :: nat

definition filter_index_new :: "'s filter_index" where
  "filter_index_new =
     \<lparr>fi_eq_index = Map.empty, fi_channel_keys = Map.empty, fi_complex_filters = Map.empty, fi_no_filter = Map.empty\<rparr>"

text \<open>A set stored under a key: its elements, adding one to a set made on demand, removing one from a set that is there.\<close>

definition stored :: "('k \<rightharpoonup> 'a set) \<Rightarrow> 'k \<Rightarrow> 'a set" where
  "stored m k = (case m k of None \<Rightarrow> {} | Some xs \<Rightarrow> xs)"

definition entry_insert :: "'k \<Rightarrow> 'a \<Rightarrow> ('k \<rightharpoonup> 'a set) \<Rightarrow> ('k \<rightharpoonup> 'a set)" where
  "entry_insert k x m = m(k \<mapsto> insert x (stored m k))"

definition present_remove :: "'k \<Rightarrow> 'a \<Rightarrow> ('k \<rightharpoonup> 'a set) \<Rightarrow> ('k \<rightharpoonup> 'a set)" where
  "present_remove k x m = (case m k of None \<Rightarrow> m | Some xs \<Rightarrow> m(k \<mapsto> xs - {x}))"

section \<open>Which filters are indexed\<close>

text \<open>The loop over the children of a disjunction, with the common key and the values so far.\<close>

fun extract_children ::
    "('a \<Rightarrow> indexable_filter option) \<Rightarrow> 'a list \<Rightarrow> string option \<Rightarrow> string list \<Rightarrow> indexable_filter option" where
  "extract_children extract [] common_key all_values =
     (case common_key of None \<Rightarrow> None | Some key \<Rightarrow> Some \<lparr>ixf_key = key, ixf_values = all_values\<rparr>)"
| "extract_children extract (child # children) common_key all_values =
     (case extract child of
        None \<Rightarrow> None
      | Some x \<Rightarrow>
          (case common_key of
             None \<Rightarrow> extract_children extract children (Some (ixf_key x)) (all_values @ ixf_values x)
           | Some k \<Rightarrow>
               if k \<noteq> ixf_key x then None
               else extract_children extract children (Some k) (all_values @ ixf_values x)))"

lemma extract_children_cong [fundef_cong]:
  "xs = ys \<Longrightarrow> (\<And>x. x \<in> set ys \<Longrightarrow> g x = h x) \<Longrightarrow> k = k' \<Longrightarrow> vs = vs' \<Longrightarrow>
   extract_children g xs k vs = extract_children h ys k' vs'"
  by (induction ys arbitrary: xs k k' vs vs') (auto split: option.splits)

definition extract_leaf :: "filter_node \<Rightarrow> indexable_filter option" where
  "extract_leaf f =
     (case node_compare_op f of
        OpEqual \<Rightarrow>
          if node_key f = [] then None else Some \<lparr>ixf_key = node_key f, ixf_values = [node_val f]\<rparr>
      | OpIn \<Rightarrow>
          if node_key f = [] then None
          else if fn_vals f = [] \<or> length (fn_vals f) > 500 then None
          else Some \<lparr>ixf_key = node_key f, ixf_values = fn_vals f\<rparr>
      | _ \<Rightarrow> None)"

fun extract_indexable_filter :: "filter_node \<Rightarrow> indexable_filter option" where
  "extract_indexable_filter (FilterNode op key cmp val vals nodes is_sorted) =
     (case node_logical_op (FilterNode op key cmp val vals nodes is_sorted) of
        Some OpOr \<Rightarrow> extract_children extract_indexable_filter nodes None []
      | Some OpAnd \<Rightarrow> None
      | Some OpNot \<Rightarrow> None
      | None \<Rightarrow> extract_leaf (FilterNode op key cmp val vals nodes is_sorted))"

section \<open>Operations\<close>

definition remove_socket_from_all_indexes :: "string \<Rightarrow> 's \<Rightarrow> 's filter_index \<Rightarrow> 's filter_index" where
  "remove_socket_from_all_indexes channel socket_id ix =
     ix\<lparr>fi_no_filter := present_remove channel socket_id (fi_no_filter ix),
        fi_complex_filters := present_remove channel socket_id (fi_complex_filters ix)\<rparr>"

definition add_to_eq_index :: "eq_hash \<Rightarrow> string \<Rightarrow> 's \<Rightarrow> indexable_filter \<Rightarrow> 's filter_index \<Rightarrow> 's filter_index" where
  "add_to_eq_index h channel socket_id x ix =
     fold (\<lambda>v ix.
         let hash = h channel (ixf_key x) v in
         ix\<lparr>fi_channel_keys := entry_insert channel hash (fi_channel_keys ix),
            fi_eq_index := entry_insert hash socket_id (fi_eq_index ix)\<rparr>)
       (ixf_values x) (ix\<lparr>fi_channel_keys := (fi_channel_keys ix)(channel \<mapsto> stored (fi_channel_keys ix) channel)\<rparr>)"

definition remove_from_eq_index :: "eq_hash \<Rightarrow> string \<Rightarrow> 's \<Rightarrow> indexable_filter \<Rightarrow> 's filter_index \<Rightarrow> 's filter_index" where
  "remove_from_eq_index h channel socket_id x ix =
     fold (\<lambda>v ix. ix\<lparr>fi_eq_index := present_remove (h channel (ixf_key x) v) socket_id (fi_eq_index ix)\<rparr>) (ixf_values x) ix"

definition add_socket_filter ::
    "eq_hash \<Rightarrow> string \<Rightarrow> 's \<Rightarrow> filter_node option \<Rightarrow> 's filter_index \<Rightarrow> 's filter_index" where
  "add_socket_filter h channel socket_id flt ix0 =
     (let ix = remove_socket_from_all_indexes channel socket_id ix0 in
      case flt of
        None \<Rightarrow> ix\<lparr>fi_no_filter := entry_insert channel socket_id (fi_no_filter ix)\<rparr>
      | Some filter_node \<Rightarrow>
          (case extract_indexable_filter filter_node of
             Some x \<Rightarrow> add_to_eq_index h channel socket_id x ix
           | None \<Rightarrow> ix\<lparr>fi_complex_filters := entry_insert channel socket_id (fi_complex_filters ix)\<rparr>))"

definition remove_socket_filter ::
    "eq_hash \<Rightarrow> string \<Rightarrow> 's \<Rightarrow> filter_node option \<Rightarrow> 's filter_index \<Rightarrow> 's filter_index" where
  "remove_socket_filter h channel socket_id flt ix0 =
     (let ix = ix0\<lparr>fi_no_filter := present_remove channel socket_id (fi_no_filter ix0),
                   fi_complex_filters := present_remove channel socket_id (fi_complex_filters ix0)\<rparr> in
      case flt of
        None \<Rightarrow> ix
      | Some filter_node \<Rightarrow>
          (case extract_indexable_filter filter_node of
             Some x \<Rightarrow> remove_from_eq_index h channel socket_id x ix
           | None \<Rightarrow> ix))"

text \<open>Sweeping the hashes of a channel: a set is swept in any order, here all at once.\<close>

definition remove_socket_all_filters :: "string \<Rightarrow> 's \<Rightarrow> 's filter_index \<Rightarrow> 's filter_index" where
  "remove_socket_all_filters channel socket_id ix =
     ix\<lparr>fi_no_filter := present_remove channel socket_id (fi_no_filter ix),
        fi_complex_filters := present_remove channel socket_id (fi_complex_filters ix),
        fi_eq_index :=
          (\<lambda>hash. if hash \<in> stored (fi_channel_keys ix) channel
                   then present_remove hash socket_id (fi_eq_index ix) hash else fi_eq_index ix hash)\<rparr>"

definition lookup_eq_index :: "eq_hash \<Rightarrow> string \<Rightarrow> (string, string) btree \<Rightarrow> 's filter_index \<Rightarrow> 's set" where
  "lookup_eq_index h channel tags ix =
     (if tags = [] then {}
      else
        (let matching_hashes =
           filter (\<lambda>hash. fi_eq_index ix hash \<noteq> None) (map (\<lambda>(tag_key, tag_value). h channel tag_key tag_value) tags) in
         case matching_hashes of
           [] \<Rightarrow> {}
         | [hash] \<Rightarrow> stored (fi_eq_index ix) hash
         | _ \<Rightarrow> fold (\<lambda>hash dedup_set. dedup_set \<union> stored (fi_eq_index ix) hash) matching_hashes {}))"

definition index_lookup :: "eq_hash \<Rightarrow> string \<Rightarrow> (string, string) btree \<Rightarrow> 's filter_index \<Rightarrow> 's index_lookup_result" where
  "index_lookup h channel tags ix =
     \<lparr>ilr_indexed_matches = lookup_eq_index h channel tags ix,
      ilr_needs_evaluation = stored (fi_complex_filters ix) channel,
      ilr_no_filter = stored (fi_no_filter ix) channel\<rparr>"

definition index_stats_of :: "string \<Rightarrow> 's filter_index \<Rightarrow> index_stats" where
  "index_stats_of channel ix =
     (let found = {hash \<in> stored (fi_channel_keys ix) channel. fi_eq_index ix hash \<noteq> None} in
      \<lparr>ixs_eq_entries = card found, ixs_eq_sockets = (\<Sum>hash\<in>found. card (stored (fi_eq_index ix) hash)),
       ixs_complex_filters = card (stored (fi_complex_filters ix) channel),
       ixs_no_filter = card (stored (fi_no_filter ix) channel)\<rparr>)"

definition clear_channel :: "string \<Rightarrow> 's filter_index \<Rightarrow> 's filter_index" where
  "clear_channel channel ix =
     ix\<lparr>fi_eq_index := (\<lambda>hash. if hash \<in> stored (fi_channel_keys ix) channel then None else fi_eq_index ix hash),
        fi_channel_keys := (fi_channel_keys ix)(channel := None),
        fi_complex_filters := (fi_complex_filters ix)(channel := None),
        fi_no_filter := (fi_no_filter ix)(channel := None)\<rparr>"

section \<open>What the operations do to the stored sets\<close>

lemma stored_entry_insert [simp]:
  "stored (entry_insert k x m) k' = (if k' = k then insert x (stored m k) else stored m k')"
  by (simp add: stored_def entry_insert_def)

lemma stored_present_remove [simp]:
  "stored (present_remove k x m) k' = (if k' = k then stored m k - {x} else stored m k')"
  by (auto simp: stored_def present_remove_def split: option.splits)

lemma stored_delete [simp]: "stored (m(k := None)) k' = (if k' = k then {} else stored m k')"
  by (simp add: stored_def)

lemma stored_update [simp]: "stored (m(k \<mapsto> xs)) k' = (if k' = k then xs else stored m k')"
  by (simp add: stored_def)

lemma stored_empty [simp]: "stored Map.empty k = {}"
  by (simp add: stored_def)

lemma stored_if [simp]: "stored (\<lambda>k. if P k then None else m k) k = (if P k then {} else stored m k)"
  by (simp add: stored_def)

lemma stored_sweep [simp]:
  "stored (\<lambda>k. if P k then present_remove k x m k else m k) k' = (if P k' then stored m k' - {x} else stored m k')"
  by (auto simp: stored_def present_remove_def split: option.splits)

lemma add_to_eq_index_fields [simp]:
  "fi_no_filter (add_to_eq_index h channel s x ix) = fi_no_filter ix"
  "fi_complex_filters (add_to_eq_index h channel s x ix) = fi_complex_filters ix"
  "stored (fi_eq_index (add_to_eq_index h channel s x ix)) k =
     (if k \<in> h channel (ixf_key x) ` set (ixf_values x) then insert s (stored (fi_eq_index ix) k) else stored (fi_eq_index ix) k)"
  "stored (fi_channel_keys (add_to_eq_index h channel s x ix)) c =
     (if c = channel then h channel (ixf_key x) ` set (ixf_values x) \<union> stored (fi_channel_keys ix) channel
      else stored (fi_channel_keys ix) c)"
proof -
  define step where "step = (\<lambda>v (ix :: 'a filter_index).
      let hash = h channel (ixf_key x) v in
      ix\<lparr>fi_channel_keys := entry_insert channel hash (fi_channel_keys ix),
         fi_eq_index := entry_insert hash s (fi_eq_index ix)\<rparr>)"
  have fields: "fi_no_filter (fold step vs i) = fi_no_filter i"
    "fi_complex_filters (fold step vs i) = fi_complex_filters i"
    "stored (fi_eq_index (fold step vs i)) k =
       (if k \<in> h channel (ixf_key x) ` set vs then insert s (stored (fi_eq_index i) k) else stored (fi_eq_index i) k)"
    "stored (fi_channel_keys (fold step vs i)) c =
       (if c = channel then h channel (ixf_key x) ` set vs \<union> stored (fi_channel_keys i) channel
        else stored (fi_channel_keys i) c)" for vs i k c
    by (induction vs arbitrary: i) (auto simp: step_def Let_def)
  show "fi_no_filter (add_to_eq_index h channel s x ix) = fi_no_filter ix"
    "fi_complex_filters (add_to_eq_index h channel s x ix) = fi_complex_filters ix"
    "stored (fi_eq_index (add_to_eq_index h channel s x ix)) k =
       (if k \<in> h channel (ixf_key x) ` set (ixf_values x) then insert s (stored (fi_eq_index ix) k) else stored (fi_eq_index ix) k)"
    "stored (fi_channel_keys (add_to_eq_index h channel s x ix)) c =
       (if c = channel then h channel (ixf_key x) ` set (ixf_values x) \<union> stored (fi_channel_keys ix) channel
        else stored (fi_channel_keys ix) c)"
    unfolding add_to_eq_index_def step_def [symmetric] by (simp_all add: fields)
qed

lemma remove_from_eq_index_fields [simp]:
  "fi_no_filter (remove_from_eq_index h channel s x ix) = fi_no_filter ix"
  "fi_complex_filters (remove_from_eq_index h channel s x ix) = fi_complex_filters ix"
  "fi_channel_keys (remove_from_eq_index h channel s x ix) = fi_channel_keys ix"
  "stored (fi_eq_index (remove_from_eq_index h channel s x ix)) k =
     (if k \<in> h channel (ixf_key x) ` set (ixf_values x) then stored (fi_eq_index ix) k - {s} else stored (fi_eq_index ix) k)"
proof -
  define step where "step = (\<lambda>v (ix :: 'a filter_index).
      ix\<lparr>fi_eq_index := present_remove (h channel (ixf_key x) v) s (fi_eq_index ix)\<rparr>)"
  have fields: "fi_no_filter (fold step vs i) = fi_no_filter i"
    "fi_complex_filters (fold step vs i) = fi_complex_filters i"
    "fi_channel_keys (fold step vs i) = fi_channel_keys i"
    "stored (fi_eq_index (fold step vs i)) k =
       (if k \<in> h channel (ixf_key x) ` set vs then stored (fi_eq_index i) k - {s} else stored (fi_eq_index i) k)" for vs i k
    by (induction vs arbitrary: i) (auto simp: step_def)
  show "fi_no_filter (remove_from_eq_index h channel s x ix) = fi_no_filter ix"
    "fi_complex_filters (remove_from_eq_index h channel s x ix) = fi_complex_filters ix"
    "fi_channel_keys (remove_from_eq_index h channel s x ix) = fi_channel_keys ix"
    "stored (fi_eq_index (remove_from_eq_index h channel s x ix)) k =
       (if k \<in> h channel (ixf_key x) ` set (ixf_values x) then stored (fi_eq_index ix) k - {s} else stored (fi_eq_index ix) k)"
    unfolding remove_from_eq_index_def step_def [symmetric] by (simp_all add: fields)
qed

text \<open>The three paths of the lookup collect the same sockets.\<close>

lemma fold_union_stored: "fold (\<lambda>k acc. acc \<union> stored m k) ks A = A \<union> (\<Union>k\<in>set ks. stored m k)"
  by (induction ks arbitrary: A) auto

lemma stored_missing: "m k = None \<Longrightarrow> stored m k = {}"
  by (simp add: stored_def)

lemma lookup_eq_index_union:
  "lookup_eq_index h channel tags ix = (\<Union>(k, v)\<in>set tags. stored (fi_eq_index ix) (h channel k v))"
proof -
  let ?hashes = "map (\<lambda>(k, v). h channel k v) tags"
  define found where "found = filter (\<lambda>k. fi_eq_index ix k \<noteq> None) ?hashes"
  have "lookup_eq_index h channel tags ix = (\<Union>k\<in>set found. stored (fi_eq_index ix) k)"
  proof (cases "tags = []")
    case True
    then show ?thesis by (simp add: lookup_eq_index_def found_def)
  next
    case False
    then show ?thesis
      unfolding lookup_eq_index_def found_def [symmetric] Let_def fold_union_stored by (auto split: list.splits)
  qed
  also have "\<dots> = (\<Union>k\<in>set ?hashes. stored (fi_eq_index ix) k)"
    unfolding found_def by (auto simp: stored_def split: option.splits)
  also have "\<dots> = (\<Union>(k, v)\<in>set tags. stored (fi_eq_index ix) (h channel k v))" by auto
  finally show ?thesis .
qed

section \<open>An indexed filter means membership\<close>

lemma extract_children_Some:
  assumes "extract_children g xs k vs = Some x"
  shows "(\<forall>c\<in>set xs. \<exists>y. g c = Some y \<and> ixf_key y = ixf_key x) \<and> (case k of None \<Rightarrow> True | Some k' \<Rightarrow> k' = ixf_key x) \<and>
     set (ixf_values x) = set vs \<union> (\<Union>c\<in>set xs. set (ixf_values (the (g c))))"
  using assms
proof (induction xs arbitrary: k vs)
  case (Cons c xs)
  then obtain y where y: "g c = Some y" by (auto split: option.splits)
  have rest: "extract_children g xs (Some (ixf_key y)) (vs @ ixf_values y) = Some x" and k: "k = None \<or> k = Some (ixf_key y)"
    using Cons.prems y by (auto split: option.splits if_splits)
  from Cons.IH [OF rest] y k show ?case by auto
qed (auto split: option.splits)

lemma extract_leaf_means:
  assumes "extract_leaf f = Some x" "flags_ok f"
  shows "evaluate_comparison env get_tag f \<longleftrightarrow> (\<exists>v. get_tag (ixf_key x) = Some v \<and> v \<in> set (ixf_values x))"
proof -
  have "evaluate_comparison env get_tag f \<longleftrightarrow> (\<exists>v. get_tag (node_key f) = Some v \<and> v \<in> set (fn_vals f))"
    if "node_compare_op f = OpIn"
    unfolding evaluate_comparison_def vals_contain_def [symmetric] Let_def
    using that vals_contain_iff [OF assms(2)] by (auto split: option.splits)
  with assms(1) show ?thesis
    by (auto simp: extract_leaf_def evaluate_comparison_def Let_def split: compare_op.splits if_splits option.splits)
qed

lemma extract_means:
  assumes "extract_indexable_filter f = Some x" "flags_ok f"
  shows "filter_matches env get_tag f \<longleftrightarrow> (\<exists>v. get_tag (ixf_key x) = Some v \<and> v \<in> set (ixf_values x))"
  using assms
proof (induction f arbitrary: x rule: extract_indexable_filter.induct)
  case (1 op key cmp val vals nodes is_sorted)
  let ?f = "FilterNode op key cmp val vals nodes is_sorted"
  show ?case
  proof (cases "node_logical_op ?f")
    case None
    then show ?thesis using "1.prems" extract_leaf_means [of ?f x env get_tag] by simp
  next
    case (Some lop)
    with "1.prems" have lop: "lop = OpOr" by (cases lop) simp_all
    with Some "1.prems" have "extract_children extract_indexable_filter nodes None [] = Some x" by simp
    note children = extract_children_Some [OF this]
    have "filter_matches env get_tag c \<longleftrightarrow>
        (\<exists>v. get_tag (ixf_key x) = Some v \<and> v \<in> set (ixf_values (the (extract_indexable_filter c))))" if "c \<in> set nodes" for c
    proof -
      from children that obtain y where y: "extract_indexable_filter c = Some y" "ixf_key y = ixf_key x" by blast
      have "flags_ok c" using "1.prems"(2) that by (simp add: list_all_iff)
      from "1.IH" [OF Some lop that y(1) this] y show ?thesis by simp
    qed
    with Some lop children show ?thesis by (auto simp: list_ex_iff)
  qed
qed

section \<open>The index against the subscriptions\<close>

text \<open>
  The reference is a table of the filters with which sockets subscribe to channels. A step is one call on both, in the
  discipline of the callers: a filter is removed with the one it was added with, and a socket that changes an indexed
  filter is removed first. The hash is assumed free of collisions on a set \<open>U\<close> of channel, key and value triples that
  holds those of the filters added.
\<close>

type_synonym 's subscriptions = "string \<times> 's \<rightharpoonup> filter_node option"

definition indexed_by :: "filter_node option \<Rightarrow> indexable_filter option" where
  "indexed_by flt = (case flt of None \<Rightarrow> None | Some f \<Rightarrow> extract_indexable_filter f)"

definition index_triples :: "string \<Rightarrow> filter_node option \<Rightarrow> (string \<times> string \<times> string) set" where
  "index_triples channel flt =
     (case indexed_by flt of None \<Rightarrow> {} | Some x \<Rightarrow> (\<lambda>v. (channel, ixf_key x, v)) ` set (ixf_values x))"

definition triple_hash :: "eq_hash \<Rightarrow> string \<times> string \<times> string \<Rightarrow> u64" where
  "triple_hash h t = (case t of (channel, key, v) \<Rightarrow> h channel key v)"

definition may_replace :: "'s subscriptions \<Rightarrow> string \<Rightarrow> 's \<Rightarrow> bool" where
  "may_replace subs channel s \<longleftrightarrow> (case subs (channel, s) of None \<Rightarrow> True | Some old \<Rightarrow> indexed_by old = None)"

inductive index_step ::
    "eq_hash \<Rightarrow> (string \<times> string \<times> string) set \<Rightarrow> 's subscriptions \<times> 's filter_index \<Rightarrow> 's subscriptions \<times> 's filter_index \<Rightarrow> bool"
  for h :: eq_hash and U :: "(string \<times> string \<times> string) set" where
  step_add: "may_replace subs channel s \<Longrightarrow> index_triples channel flt \<subseteq> U \<Longrightarrow>
     (case flt of None \<Rightarrow> True | Some f \<Rightarrow> flags_ok f) \<Longrightarrow>
     index_step h U (subs, ix) (subs((channel, s) \<mapsto> flt), add_socket_filter h channel s flt ix)"
| step_remove: "subs (channel, s) = Some flt \<Longrightarrow>
     index_step h U (subs, ix) (subs((channel, s) := None), remove_socket_filter h channel s flt ix)"
| step_remove_all: "index_step h U (subs, ix) (subs((channel, s) := None), remove_socket_all_filters channel s ix)"
| step_clear: "index_step h U (subs, ix)
     ((\<lambda>(c, s). if c = channel then None else subs (c, s)), clear_channel channel ix)"

definition index_refines ::
    "eq_hash \<Rightarrow> (string \<times> string \<times> string) set \<Rightarrow> 's subscriptions \<times> 's filter_index \<Rightarrow> bool" where
  "index_refines h U p \<longleftrightarrow> (case p of (subs, ix) \<Rightarrow>
     (\<forall>c s flt. subs (c, s) = Some flt \<longrightarrow> index_triples c flt \<subseteq> U \<and> (case flt of None \<Rightarrow> True | Some f \<Rightarrow> flags_ok f)) \<and>
     (\<forall>c s. s \<in> stored (fi_no_filter ix) c \<longleftrightarrow> subs (c, s) = Some None) \<and>
     (\<forall>c s. s \<in> stored (fi_complex_filters ix) c \<longleftrightarrow> (\<exists>f. subs (c, s) = Some (Some f) \<and> extract_indexable_filter f = None)) \<and>
     (\<forall>c. stored (fi_channel_keys ix) c \<subseteq> triple_hash h ` {t \<in> U. fst t = c}) \<and>
     (\<forall>t\<in>U. \<forall>s. s \<in> stored (fi_eq_index ix) (triple_hash h t) \<longrightarrow> triple_hash h t \<in> stored (fi_channel_keys ix) (fst t)) \<and>
     (\<forall>t\<in>U. \<forall>s. s \<in> stored (fi_eq_index ix) (triple_hash h t) \<longleftrightarrow>
        (\<exists>flt. subs (fst t, s) = Some flt \<and> t \<in> index_triples (fst t) flt)))"

lemma hashed_triples:
  "indexed_by flt = Some x \<Longrightarrow> h channel (ixf_key x) ` set (ixf_values x) = triple_hash h ` index_triples channel flt"
  by (auto simp: index_triples_def triple_hash_def image_image)

lemma index_triples_channel: "t \<in> index_triples channel flt \<Longrightarrow> fst t = channel"
  by (auto simp: index_triples_def split: option.splits)

lemma index_triples_unindexed: "indexed_by flt = None \<Longrightarrow> index_triples channel flt = {}"
  by (simp add: index_triples_def)

lemma hash_mem_iff:
  "inj_on (triple_hash h) U \<Longrightarrow> T \<subseteq> U \<Longrightarrow> t \<in> U \<Longrightarrow> triple_hash h t \<in> triple_hash h ` T \<longleftrightarrow> t \<in> T"
  by (rule inj_on_image_mem_iff)

text \<open>What the calls do to the four indexes, in terms of triples.\<close>

lemma add_socket_filter_fields:
  "stored (fi_no_filter (add_socket_filter h channel s flt ix)) c =
     (if c = channel then (if flt = None then insert s (stored (fi_no_filter ix) c) else stored (fi_no_filter ix) c - {s})
      else stored (fi_no_filter ix) c)"
  "stored (fi_complex_filters (add_socket_filter h channel s flt ix)) c =
     (if c = channel
      then (if flt \<noteq> None \<and> indexed_by flt = None then insert s (stored (fi_complex_filters ix) c)
            else stored (fi_complex_filters ix) c - {s})
      else stored (fi_complex_filters ix) c)"
  "stored (fi_eq_index (add_socket_filter h channel s flt ix)) k =
     (if k \<in> triple_hash h ` index_triples channel flt then insert s (stored (fi_eq_index ix) k) else stored (fi_eq_index ix) k)"
  "stored (fi_channel_keys (add_socket_filter h channel s flt ix)) c =
     (if c = channel then triple_hash h ` index_triples channel flt \<union> stored (fi_channel_keys ix) c
      else stored (fi_channel_keys ix) c)"
  by (auto simp: add_socket_filter_def remove_socket_from_all_indexes_def Let_def indexed_by_def index_triples_def
      triple_hash_def image_image split: option.splits)

lemma remove_socket_filter_fields:
  "stored (fi_no_filter (remove_socket_filter h channel s flt ix)) c =
     (if c = channel then stored (fi_no_filter ix) c - {s} else stored (fi_no_filter ix) c)"
  "stored (fi_complex_filters (remove_socket_filter h channel s flt ix)) c =
     (if c = channel then stored (fi_complex_filters ix) c - {s} else stored (fi_complex_filters ix) c)"
  "stored (fi_eq_index (remove_socket_filter h channel s flt ix)) k =
     (if k \<in> triple_hash h ` index_triples channel flt then stored (fi_eq_index ix) k - {s} else stored (fi_eq_index ix) k)"
  "fi_channel_keys (remove_socket_filter h channel s flt ix) = fi_channel_keys ix"
  by (auto simp: remove_socket_filter_def Let_def indexed_by_def index_triples_def
      triple_hash_def image_image split: option.splits)

lemma index_refines_new: "index_refines h U (Map.empty, filter_index_new)"
  by (simp add: index_refines_def filter_index_new_def)

lemma index_refines_add:
  assumes inj: "inj_on (triple_hash h) U" and ref: "index_refines h U (subs, ix)"
    and replace: "may_replace subs channel s" and triples: "index_triples channel flt \<subseteq> U"
    and flags: "case flt of None \<Rightarrow> True | Some f \<Rightarrow> flags_ok f"
  shows "index_refines h U (subs((channel, s) \<mapsto> flt), add_socket_filter h channel s flt ix)"
proof -
  note mem = hash_mem_iff [OF inj triples]
  have old: "\<And>old t. subs (channel, s) = Some old \<Longrightarrow> t \<notin> index_triples channel old"
    using replace by (auto simp: may_replace_def index_triples_unindexed)
  have img: "triple_hash h ` index_triples channel flt \<subseteq> triple_hash h ` {t \<in> U. fst t = channel}"
    using triples by (auto dest: index_triples_channel)
  show ?thesis
    unfolding index_refines_def prod.case add_socket_filter_fields
  proof (intro conjI)
    show "\<forall>c. (if c = channel then triple_hash h ` index_triples channel flt \<union> stored (fi_channel_keys ix) c
        else stored (fi_channel_keys ix) c) \<subseteq> triple_hash h ` {t \<in> U. fst t = c}"
      using ref img by (simp add: index_refines_def)
  next
    show "\<forall>c s' flt'. (subs((channel, s) \<mapsto> flt)) (c, s') = Some flt' \<longrightarrow>
        index_triples c flt' \<subseteq> U \<and> (case flt' of None \<Rightarrow> True | Some f \<Rightarrow> flags_ok f)"
      using ref triples flags by (auto simp: index_refines_def)
  next
    show "\<forall>t\<in>U. \<forall>s'. s' \<in> (if triple_hash h t \<in> triple_hash h ` index_triples channel flt
          then insert s (stored (fi_eq_index ix) (triple_hash h t)) else stored (fi_eq_index ix) (triple_hash h t)) \<longleftrightarrow>
        (\<exists>flt'. (subs((channel, s) \<mapsto> flt)) (fst t, s') = Some flt' \<and> t \<in> index_triples (fst t) flt')"
      using ref old by (auto simp: index_refines_def mem dest: index_triples_channel)
  qed (use ref triples in \<open>auto simp: index_refines_def indexed_by_def mem index_triples_channel split: option.splits\<close>)
qed

lemma index_refines_remove:
  assumes inj: "inj_on (triple_hash h) U" and ref: "index_refines h U (subs, ix)" and sub: "subs (channel, s) = Some flt"
  shows "index_refines h U (subs((channel, s) := None), remove_socket_filter h channel s flt ix)"
proof -
  have triples: "index_triples channel flt \<subseteq> U" using ref sub by (simp add: index_refines_def)
  note mem = hash_mem_iff [OF inj triples]
  show ?thesis
    unfolding index_refines_def prod.case remove_socket_filter_fields
  proof (intro conjI)
    show "\<forall>t\<in>U. \<forall>s'. s' \<in> (if triple_hash h t \<in> triple_hash h ` index_triples channel flt
          then stored (fi_eq_index ix) (triple_hash h t) - {s} else stored (fi_eq_index ix) (triple_hash h t)) \<longleftrightarrow>
        (\<exists>flt'. (subs((channel, s) := None)) (fst t, s') = Some flt' \<and> t \<in> index_triples (fst t) flt')"
      using ref sub by (auto simp: index_refines_def mem dest: index_triples_channel)
  qed (use ref in \<open>auto simp: index_refines_def mem\<close>)
qed

lemma index_refinesD:
  assumes "index_refines h U (subs, ix)"
  shows "subs (c, s) = Some flt \<Longrightarrow> index_triples c flt \<subseteq> U"
    and "subs (c, s) = Some (Some f) \<Longrightarrow> flags_ok f"
    and "s \<in> stored (fi_no_filter ix) c \<longleftrightarrow> subs (c, s) = Some None"
    and "s \<in> stored (fi_complex_filters ix) c \<longleftrightarrow> (\<exists>f. subs (c, s) = Some (Some f) \<and> extract_indexable_filter f = None)"
    and "stored (fi_channel_keys ix) c \<subseteq> triple_hash h ` {t \<in> U. fst t = c}"
    and "t \<in> U \<Longrightarrow> s \<in> stored (fi_eq_index ix) (triple_hash h t) \<Longrightarrow> triple_hash h t \<in> stored (fi_channel_keys ix) (fst t)"
    and "t \<in> U \<Longrightarrow> s \<in> stored (fi_eq_index ix) (triple_hash h t) \<longleftrightarrow>
      (\<exists>flt. subs (fst t, s) = Some flt \<and> t \<in> index_triples (fst t) flt)"
proof -
  note parts = assms [unfolded index_refines_def prod.case]
  show "subs (c, s) = Some flt \<Longrightarrow> index_triples c flt \<subseteq> U" using parts by blast
  show "subs (c, s) = Some (Some f) \<Longrightarrow> flags_ok f" using parts by fastforce
  show "s \<in> stored (fi_no_filter ix) c \<longleftrightarrow> subs (c, s) = Some None" using parts by blast
  show "s \<in> stored (fi_complex_filters ix) c \<longleftrightarrow> (\<exists>f. subs (c, s) = Some (Some f) \<and> extract_indexable_filter f = None)"
    using parts by blast
  show "stored (fi_channel_keys ix) c \<subseteq> triple_hash h ` {t \<in> U. fst t = c}" using parts by blast
  show "t \<in> U \<Longrightarrow> s \<in> stored (fi_eq_index ix) (triple_hash h t) \<Longrightarrow> triple_hash h t \<in> stored (fi_channel_keys ix) (fst t)"
    using parts by blast
  show "t \<in> U \<Longrightarrow> s \<in> stored (fi_eq_index ix) (triple_hash h t) \<longleftrightarrow>
      (\<exists>flt. subs (fst t, s) = Some flt \<and> t \<in> index_triples (fst t) flt)"
    using parts by blast
qed

lemma index_refines_keys:
  assumes "index_refines h U (subs, ix)" "t \<in> U" "subs (fst t, s) = Some flt" "t \<in> index_triples (fst t) flt"
  shows "triple_hash h t \<in> stored (fi_channel_keys ix) (fst t)"
  using index_refinesD(6,7) [OF assms(1,2), of s] assms(3,4) by blast

text \<open>The hashes of a channel are those of the triples with that channel, so sweeping them reaches every entry.\<close>

lemma index_hash_channel:
  assumes inj: "inj_on (triple_hash h) U" and ref: "index_refines h U (subs, ix)" and t: "t \<in> U"
    and tracked: "triple_hash h t \<in> stored (fi_channel_keys ix) channel"
  shows "fst t = channel"
proof -
  obtain u where "u \<in> U" "fst u = channel" "triple_hash h t = triple_hash h u"
    using subsetD [OF index_refinesD(5) [OF ref] tracked] by blast
  then show ?thesis using inj t by (metis inj_onD)
qed

lemma index_refines_remove_all:
  assumes inj: "inj_on (triple_hash h) U" and ref: "index_refines h U (subs, ix)"
  shows "index_refines h U (subs((channel, s) := None), remove_socket_all_filters channel s ix)"
proof -
  note D = index_refinesD [OF ref]
  have eq: "s' \<in> (if triple_hash h t \<in> stored (fi_channel_keys ix) channel
          then stored (fi_eq_index ix) (triple_hash h t) - {s} else stored (fi_eq_index ix) (triple_hash h t)) \<longleftrightarrow>
        (\<exists>flt. (subs((channel, s) := None)) (fst t, s') = Some flt \<and> t \<in> index_triples (fst t) flt)" if t: "t \<in> U" for t s'
    using index_hash_channel [OF inj ref t, of channel] D(6) [OF t, of s'] D(7) [OF t, of s'] by (auto split: if_splits)
  show ?thesis
    unfolding index_refines_def prod.case remove_socket_all_filters_def
  proof (intro conjI allI ballI impI)
    fix c s' flt
    assume "(subs((channel, s) := None)) (c, s') = Some flt"
    then have "subs (c, s') = Some flt" by (auto split: if_splits)
    then show "index_triples c flt \<subseteq> U" "case flt of None \<Rightarrow> True | Some f \<Rightarrow> flags_ok f"
      by (auto dest: D(1,2) split: option.splits)
  qed (use D(3-5) index_refines_keys [OF ref] eq in \<open>auto split: if_splits\<close>)
qed

lemma index_refines_clear:
  assumes inj: "inj_on (triple_hash h) U" and ref: "index_refines h U (subs, ix)"
  shows "index_refines h U ((\<lambda>(c, s). if c = channel then None else subs (c, s)), clear_channel channel ix)"
proof -
  note D = index_refinesD [OF ref]
  have eq: "s' \<in> (if triple_hash h t \<in> stored (fi_channel_keys ix) channel then {} else stored (fi_eq_index ix) (triple_hash h t)) \<longleftrightarrow>
        fst t \<noteq> channel \<and> s' \<in> stored (fi_eq_index ix) (triple_hash h t)" if t: "t \<in> U" for t s'
    using index_hash_channel [OF inj ref t, of channel] D(6) [OF t, of s'] by auto
  show ?thesis
    unfolding index_refines_def prod.case clear_channel_def
  proof (intro conjI allI ballI impI)
    fix c s' flt
    assume "(if c = channel then None else subs (c, s')) = Some flt"
    then have "subs (c, s') = Some flt" by (auto split: if_splits)
    then show "index_triples c flt \<subseteq> U" "case flt of None \<Rightarrow> True | Some f \<Rightarrow> flags_ok f"
      by (auto dest: D(1,2) split: option.splits)
  qed (use D(3-5,7) index_refines_keys [OF ref] eq in \<open>auto split: if_splits\<close>)
qed

lemma index_refines_step:
  "index_step h U p p' \<Longrightarrow> inj_on (triple_hash h) U \<Longrightarrow> index_refines h U p \<Longrightarrow> index_refines h U p'"
  by (induction rule: index_step.induct)
    (simp_all only: index_refines_add index_refines_remove index_refines_remove_all index_refines_clear)

lemma index_refines_reachable:
  assumes "(index_step h U)\<^sup>*\<^sup>* (Map.empty, filter_index_new) p" "inj_on (triple_hash h) U"
  shows "index_refines h U p"
  using assms by (induction rule: rtranclp_induct) (auto intro: index_refines_new index_refines_step)

section \<open>Who receives a message\<close>

definition wants :: "'f filter_env \<Rightarrow> (string, string) btree \<Rightarrow> filter_node option \<Rightarrow> bool" where
  "wants env tags flt = (case flt of None \<Rightarrow> True | Some f \<Rightarrow> filter_matches env (btree_get_tag tags) f)"

lemma index_triples_iff:
  "(c, k, v) \<in> index_triples channel flt \<longleftrightarrow>
     (\<exists>f x. flt = Some f \<and> extract_indexable_filter f = Some x \<and> c = channel \<and> k = ixf_key x \<and> v \<in> set (ixf_values x))"
  by (auto simp: index_triples_def indexed_by_def split: option.splits)

lemma indexed_matches_iff:
  assumes inj: "inj_on (triple_hash h) U" and ref: "index_refines h U (subs, ix)" and wf: "bt_wf tags"
    and tags: "(\<lambda>(k, v). (channel, k, v)) ` set tags \<subseteq> U"
  shows "s \<in> ilr_indexed_matches (index_lookup h channel tags ix) \<longleftrightarrow>
     (\<exists>f x. subs (channel, s) = Some (Some f) \<and> extract_indexable_filter f = Some x \<and> filter_matches env (btree_get_tag tags) f)"
proof -
  have "s \<in> ilr_indexed_matches (index_lookup h channel tags ix) \<longleftrightarrow>
      (\<exists>k v. (k, v) \<in> set tags \<and> s \<in> stored (fi_eq_index ix) (triple_hash h (channel, k, v)))"
    by (auto simp: index_lookup_def lookup_eq_index_union triple_hash_def)
  also have "\<dots> \<longleftrightarrow> (\<exists>k v flt. (k, v) \<in> set tags \<and> subs (channel, s) = Some flt \<and> (channel, k, v) \<in> index_triples channel flt)"
  proof -
    have "s \<in> stored (fi_eq_index ix) (triple_hash h (channel, k, v)) \<longleftrightarrow>
        (\<exists>flt. subs (channel, s) = Some flt \<and> (channel, k, v) \<in> index_triples channel flt)" if "(k, v) \<in> set tags" for k v
      using tags that index_refinesD(7) [OF ref, of "(channel, k, v)" s] by force
    then show ?thesis by blast
  qed
  also have "\<dots> \<longleftrightarrow> (\<exists>f x. subs (channel, s) = Some (Some f) \<and> extract_indexable_filter f = Some x \<and>
      (\<exists>v. btree_get_tag tags (ixf_key x) = Some v \<and> v \<in> set (ixf_values x)))"
    using wf by (auto simp: index_triples_iff btree_get_tag_def bt_get_iff)
  also have "\<dots> \<longleftrightarrow> (\<exists>f x. subs (channel, s) = Some (Some f) \<and> extract_indexable_filter f = Some x \<and>
      filter_matches env (btree_get_tag tags) f)"
    using extract_means [OF _ index_refinesD(2) [OF ref], of _ _ channel s env "btree_get_tag tags"] by blast
  finally show ?thesis .
qed

text \<open>C4: The inverted index is exact. After any disciplined sequence of subscriptions, unsubscriptions and channel
  removals, and as long as the hash does not collide on the triples in use, the sockets that a lookup reports as
  indexed matches, as unfiltered, or as needing evaluation and passing it, are exactly the sockets subscribed to the
  channel whose filter the interpreter accepts for the message's tags; the three groups never overlap.\<close>
theorem filter_index_exact:
  assumes "inj_on (triple_hash h) U" and "(index_step h U)\<^sup>*\<^sup>* (Map.empty, filter_index_new) (subs, ix)"
    and "bt_wf tags" and "(\<lambda>(k, v). (channel, k, v)) ` set tags \<subseteq> U"
  shows "ilr_indexed_matches (index_lookup h channel tags ix) \<union> ilr_no_filter (index_lookup h channel tags ix) \<union>
      {s \<in> ilr_needs_evaluation (index_lookup h channel tags ix). \<exists>flt. subs (channel, s) = Some flt \<and> wants env tags flt} =
      {s. \<exists>flt. subs (channel, s) = Some flt \<and> wants env tags flt} \<and>
    ilr_indexed_matches (index_lookup h channel tags ix) \<inter> ilr_no_filter (index_lookup h channel tags ix) = {} \<and>
    ilr_indexed_matches (index_lookup h channel tags ix) \<inter> ilr_needs_evaluation (index_lookup h channel tags ix) = {} \<and>
    ilr_no_filter (index_lookup h channel tags ix) \<inter> ilr_needs_evaluation (index_lookup h channel tags ix) = {}"
proof -
  let ?r = "index_lookup h channel tags ix"
  have ref: "index_refines h U (subs, ix)" using index_refines_reachable [OF assms(2,1)] .
  have indexed: "s \<in> ilr_indexed_matches ?r \<longleftrightarrow>
      (\<exists>f x. subs (channel, s) = Some (Some f) \<and> extract_indexable_filter f = Some x \<and> wants env tags (Some f))" for s
    using indexed_matches_iff [OF assms(1) ref assms(3,4)] by (simp add: wants_def)
  have none: "s \<in> ilr_no_filter ?r \<longleftrightarrow> subs (channel, s) = Some None" for s
    using index_refinesD(3) [OF ref] by (simp add: index_lookup_def)
  have complex: "s \<in> ilr_needs_evaluation ?r \<longleftrightarrow> (\<exists>f. subs (channel, s) = Some (Some f) \<and> extract_indexable_filter f = None)" for s
    using index_refinesD(4) [OF ref] by (simp add: index_lookup_def)
  have "(s \<in> ilr_indexed_matches ?r \<or> s \<in> ilr_no_filter ?r \<or>
      s \<in> ilr_needs_evaluation ?r \<and> (\<exists>flt. subs (channel, s) = Some flt \<and> wants env tags flt)) \<longleftrightarrow>
      (\<exists>flt. subs (channel, s) = Some flt \<and> wants env tags flt)" for s
    unfolding indexed none complex
    by (cases "subs (channel, s)"; cases "the (subs (channel, s))"; cases "extract_indexable_filter (the (the (subs (channel, s))))")
      (auto simp: wants_def)
  then have "ilr_indexed_matches ?r \<union> ilr_no_filter ?r \<union>
      {s \<in> ilr_needs_evaluation ?r. \<exists>flt. subs (channel, s) = Some flt \<and> wants env tags flt} =
      {s. \<exists>flt. subs (channel, s) = Some flt \<and> wants env tags flt}" by blast
  then show ?thesis using indexed none complex by auto
qed

text \<open>C39: A socket that replaces an indexed filter without being removed first keeps its old entries: a message that
  only the old filter accepts still reports it as an indexed match, and indexed matches are not evaluated again. This
  holds for every index, every hash and every two different values of a tag.\<close>
theorem filter_index_stale_match:
  assumes "key \<noteq> []" "a \<noteq> b"
  shows "s \<in> ilr_indexed_matches (index_lookup h channel [(key, a)]
       (add_socket_filter h channel s (Some (new_comparison key OpEqual b))
         (add_socket_filter h channel s (Some (new_comparison key OpEqual a)) ix))) \<and>
     \<not> filter_matches env (btree_get_tag [(key, a)]) (new_comparison key OpEqual b)"
proof -
  have eq_leaf: "extract_indexable_filter (new_comparison key OpEqual v) = Some \<lparr>ixf_key = key, ixf_values = [v]\<rparr>" for v
    using assms(1) by (simp add: new_comparison_def node_logical_op_def extract_leaf_def node_compare_op_def node_key_def
        node_val_def compare_op_as_str_def compare_op_parse_def)
  have "\<not> filter_matches env (btree_get_tag [(key, a)]) (new_comparison key OpEqual b)"
    using assms(2) extract_means [OF eq_leaf [of b], of env "btree_get_tag [(key, a)]"]
    by (simp add: new_comparison_def btree_get_tag_def)
  then show ?thesis
    by (simp add: index_lookup_def lookup_eq_index_union add_socket_filter_def remove_socket_from_all_indexes_def eq_leaf)
qed

lemma filter_index_stale_match_witness:
  "(7::nat) \<in> ilr_indexed_matches (index_lookup (\<lambda>c k v. 0) ''room'' [(''k'', ''x'')]
       (add_socket_filter (\<lambda>c k v. 0) ''room'' 7 (Some (new_comparison ''k'' OpEqual ''y''))
         (add_socket_filter (\<lambda>c k v. 0) ''room'' 7 (Some (new_comparison ''k'' OpEqual ''x'')) filter_index_new))) \<and>
     \<not> filter_matches demo_env (btree_get_tag [(''k'', ''x'')]) (new_comparison ''k'' OpEqual ''y'')"
  using filter_index_stale_match [of "''k''" "''x''" "''y''" "7::nat" "\<lambda>c k v. 0" "''room''" filter_index_new demo_env]
  by simp

definition index_demo_hash :: eq_hash where
  "index_demo_hash channel key v = of_nat (length v)"

definition index_demo_triples :: "(string \<times> string \<times> string) set" where
  "index_demo_triples = {(''room'', ''k'', ''x''), (''room'', ''k'', ''yy'')}"

definition index_demo :: "nat filter_index" where
  "index_demo =
     add_socket_filter index_demo_hash ''room'' 3 (Some (new_comparison ''k'' OpEqual ''yy''))
       (add_socket_filter index_demo_hash ''room'' 2 None
         (add_socket_filter index_demo_hash ''room'' 1 (Some (new_comparison ''k'' OpEqual ''x'')) filter_index_new))"

definition index_demo_subs :: "nat subscriptions" where
  "index_demo_subs =
     [(''room'', 1) \<mapsto> Some (new_comparison ''k'' OpEqual ''x''), (''room'', 2) \<mapsto> None,
      (''room'', 3) \<mapsto> Some (new_comparison ''k'' OpEqual ''yy'')]"

lemma index_demo_reachable:
  "(index_step index_demo_hash index_demo_triples)\<^sup>*\<^sup>* (Map.empty, filter_index_new) (index_demo_subs, index_demo)"
proof -
  let ?step = "index_step index_demo_hash index_demo_triples"
  have tr: "index_triples ''room'' (Some (new_comparison ''k'' OpEqual v)) = {(''room'', ''k'', v)}" for v
    by (simp add: index_triples_def indexed_by_def new_comparison_def node_logical_op_def extract_leaf_def node_compare_op_def
        node_key_def node_val_def compare_op_as_str_def compare_op_parse_def)
  have flags: "flags_ok (new_comparison ''k'' OpEqual v)" for v by (simp add: new_comparison_def)
  have none: "index_triples ''room'' None = {}" by (simp add: index_triples_def indexed_by_def)
  have add: "?step (subs, ix) (subs((''room'', s) \<mapsto> flt), add_socket_filter index_demo_hash ''room'' s flt ix)"
    if "subs (''room'', s) = None" "flt \<in> {None, Some (new_comparison ''k'' OpEqual ''x''), Some (new_comparison ''k'' OpEqual ''yy'')}"
    for subs ix s flt
    using that by (intro step_add) (auto simp: may_replace_def tr flags none index_demo_triples_def)
  let ?x = "Some (new_comparison ''k'' OpEqual ''x'')"
  let ?ix = "add_socket_filter index_demo_hash ''room'' 1 ?x (filter_index_new :: nat filter_index)"
  have "?step (Map.empty, filter_index_new) ([(''room'', 1) \<mapsto> ?x], ?ix)" by (rule add) simp_all
  moreover have "?step ([(''room'', 1) \<mapsto> ?x], ?ix)
      ([(''room'', 1) \<mapsto> ?x, (''room'', 2) \<mapsto> None], add_socket_filter index_demo_hash ''room'' 2 None ?ix)"
    by (rule add) simp_all
  moreover have "?step ([(''room'', 1) \<mapsto> ?x, (''room'', 2) \<mapsto> None], add_socket_filter index_demo_hash ''room'' 2 None ?ix)
      (index_demo_subs, index_demo)"
    unfolding index_demo_subs_def index_demo_def by (rule add) simp_all
  ultimately show ?thesis by (meson rtranclp.rtrancl_into_rtrancl rtranclp.rtrancl_refl)
qed

lemma filter_index_exact_witness:
  "ilr_indexed_matches (index_lookup index_demo_hash ''room'' [(''k'', ''x'')] index_demo) \<union>
   ilr_no_filter (index_lookup index_demo_hash ''room'' [(''k'', ''x'')] index_demo) \<union>
   {s \<in> ilr_needs_evaluation (index_lookup index_demo_hash ''room'' [(''k'', ''x'')] index_demo).
      \<exists>flt. index_demo_subs (''room'', s) = Some flt \<and> wants demo_env [(''k'', ''x'')] flt} = {1, 2}"
proof -
  have inj: "inj_on (triple_hash index_demo_hash) index_demo_triples"
    by (simp add: inj_on_def index_demo_triples_def triple_hash_def index_demo_hash_def)
  have tags: "(\<lambda>(k, v). (''room'', k, v)) ` set [(''k'', ''x'')] \<subseteq> index_demo_triples"
    by (simp add: index_demo_triples_def)
  have wf: "bt_wf [(''k'', ''x'')]" by (simp add: bt_wf_def)
  have "{s. \<exists>flt. index_demo_subs (''room'', s) = Some flt \<and> wants demo_env [(''k'', ''x'')] flt} = {1, 2}"
    by (auto simp: index_demo_subs_def wants_def new_comparison_def node_logical_op_def evaluate_comparison_def Let_def
        node_compare_op_def node_key_def node_val_def compare_op_as_str_def compare_op_parse_def btree_get_tag_def
        split: if_splits)
  with filter_index_exact [OF inj index_demo_reachable wf tags, of demo_env] show ?thesis by simp
qed

end
