(* ===== verification/Cache_Manager.thy ===== *)
theory Cache_Manager
  imports BTree Paging "HOL-Library.Sublist"
begin

text \<open>
  The cache that nodes coordinate through: the operations a client calls (\<^verbatim>\<open>sockudo-core/src/cache.rs\<close>) as a record,
  their documented contract as the locale \<open>atomic_cache\<close>, and the in-memory cache
  (\<^verbatim>\<open>sockudo-cache/src/memory_cache_manager.rs\<close>) that provides it. The entries that the moka cache holds are a map in
  the order of its keys, its compute operations are atomic, and an entry that expires or is evicted simply is not there
  at the next call.
\<close>

section \<open>The interface\<close>

record 'c cache_manager =
  cm_get :: "string \<Rightarrow> 'c \<Rightarrow> 'c \<times> string option result"
  cm_set_if_not_exists :: "string \<Rightarrow> string \<Rightarrow> u64 \<Rightarrow> 'c \<Rightarrow> 'c \<times> bool result"
  cm_compare_and_swap :: "string \<Rightarrow> string \<Rightarrow> string \<Rightarrow> u64 \<Rightarrow> 'c \<Rightarrow> 'c \<times> bool result"
  cm_compare_and_remove :: "string \<Rightarrow> string \<Rightarrow> 'c \<Rightarrow> 'c \<times> bool result"

text \<open>
  The laws, over the contents \<open>view\<close> of the cache. A call that fails may or may not have taken effect, as when the
  connection breaks after a command is sent.
\<close>

locale atomic_cache =
  fixes ops :: "'c cache_manager"
    and view :: "'c \<Rightarrow> string \<rightharpoonup> string"
  assumes get_law: "cm_get ops k c = (c', found) \<Longrightarrow> view c' = view c \<and> (\<forall>e. found = Inr e \<longrightarrow> e = view c k)"
    and set_law: "cm_set_if_not_exists ops k v ttl c = (c', r) \<Longrightarrow>
      (\<forall>b. r = Inr b \<longrightarrow> b = (view c k = None) \<and> view c' = (if b then (view c)(k \<mapsto> v) else view c)) \<and>
      (view c' = view c \<or> view c k = None \<and> view c' = (view c)(k \<mapsto> v))"
    and swap_law: "cm_compare_and_swap ops k old v ttl c = (c', r) \<Longrightarrow>
      (\<forall>b. r = Inr b \<longrightarrow> b = (view c k = Some old) \<and> view c' = (if b then (view c)(k \<mapsto> v) else view c)) \<and>
      (view c' = view c \<or> view c k = Some old \<and> view c' = (view c)(k \<mapsto> v))"
    and remove_law: "cm_compare_and_remove ops k old c = (c', r) \<Longrightarrow>
      (\<forall>b. r = Inr b \<longrightarrow> b = (view c k = Some old) \<and> view c' = (if b then (view c)(k := None) else view c)) \<and>
      (view c' = view c \<or> view c k = Some old \<and> view c' = (view c)(k := None))"

text \<open>
  The fallbacks of the trait for simple caches: a check and a write, two calls between which \<open>env\<close> says what others did.
\<close>

definition default_set_if_not_exists ::
    "('c \<Rightarrow> 'c) \<Rightarrow> (string \<Rightarrow> 'c \<Rightarrow> 'c \<times> bool result) \<Rightarrow> (string \<Rightarrow> string \<Rightarrow> u64 \<Rightarrow> 'c \<Rightarrow> 'c \<times> unit result) \<Rightarrow>
     string \<Rightarrow> string \<Rightarrow> u64 \<Rightarrow> 'c \<Rightarrow> 'c \<times> bool result" where
  "default_set_if_not_exists env has set_op key v ttl_seconds c =
     (case has key c of
        (c1, Inl e) \<Rightarrow> (c1, Inl e)
      | (c1, Inr True) \<Rightarrow> (c1, Inr False)
      | (c1, Inr False) \<Rightarrow>
          (case set_op key v ttl_seconds (env c1) of (c2, Inl e) \<Rightarrow> (c2, Inl e) | (c2, Inr _) \<Rightarrow> (c2, Inr True)))"

definition default_compare_and_swap ::
    "('c \<Rightarrow> 'c) \<Rightarrow> (string \<Rightarrow> 'c \<Rightarrow> 'c \<times> string option result) \<Rightarrow> (string \<Rightarrow> string \<Rightarrow> u64 \<Rightarrow> 'c \<Rightarrow> 'c \<times> unit result) \<Rightarrow>
     string \<Rightarrow> string \<Rightarrow> string \<Rightarrow> u64 \<Rightarrow> 'c \<Rightarrow> 'c \<times> bool result" where
  "default_compare_and_swap env get set_op key expected v ttl_seconds c =
     (case get key c of
        (c1, Inl e) \<Rightarrow> (c1, Inl e)
      | (c1, Inr found) \<Rightarrow>
          if found \<noteq> Some expected then (c1, Inr False)
          else (case set_op key v ttl_seconds (env c1) of (c2, Inl e) \<Rightarrow> (c2, Inl e) | (c2, Inr _) \<Rightarrow> (c2, Inr True)))"

definition default_compare_and_remove ::
    "('c \<Rightarrow> 'c) \<Rightarrow> (string \<Rightarrow> 'c \<Rightarrow> 'c \<times> string option result) \<Rightarrow> (string \<Rightarrow> 'c \<Rightarrow> 'c \<times> unit result) \<Rightarrow>
     string \<Rightarrow> string \<Rightarrow> 'c \<Rightarrow> 'c \<times> bool result" where
  "default_compare_and_remove env get remove_op key expected c =
     (case get key c of
        (c1, Inl e) \<Rightarrow> (c1, Inl e)
      | (c1, Inr found) \<Rightarrow>
          if found \<noteq> Some expected then (c1, Inr False)
          else (case remove_op key (env c1) of (c2, Inl e) \<Rightarrow> (c2, Inl e) | (c2, Inr _) \<Rightarrow> (c2, Inr True)))"

section \<open>The in-memory cache\<close>

record memory_cache =
  mc_cache :: "(string, string) btree"
  mc_ttl :: u64
  mc_prefix :: string

definition memory_cache_new :: "string \<Rightarrow> u64 \<Rightarrow> memory_cache" where
  "memory_cache_new prfx ttl = \<lparr>mc_cache = [], mc_ttl = ttl, mc_prefix = prfx\<rparr>"

definition prefixed_key :: "memory_cache \<Rightarrow> string \<Rightarrow> string" where
  "prefixed_key c key = mc_prefix c @ '':'' @ key"

definition cache_has :: "string \<Rightarrow> memory_cache \<Rightarrow> memory_cache \<times> bool result" where
  "cache_has key c = (c, Inr (bt_get (mc_cache c) (prefixed_key c key) \<noteq> None))"

definition cache_get :: "string \<Rightarrow> memory_cache \<Rightarrow> memory_cache \<times> string option result" where
  "cache_get key c = (c, Inr (bt_get (mc_cache c) (prefixed_key c key)))"

definition cache_set :: "string \<Rightarrow> string \<Rightarrow> u64 \<Rightarrow> memory_cache \<Rightarrow> memory_cache \<times> unit result" where
  "cache_set key v ttl_seconds c = (c\<lparr>mc_cache := bt_insert (prefixed_key c key) v (mc_cache c)\<rparr>, Inr ())"

definition cache_remove :: "string \<Rightarrow> memory_cache \<Rightarrow> memory_cache \<times> unit result" where
  "cache_remove key c = (c\<lparr>mc_cache := bt_remove (prefixed_key c key) (mc_cache c)\<rparr>, Inr ())"

definition cache_disconnect :: "memory_cache \<Rightarrow> memory_cache \<times> unit result" where
  "cache_disconnect c = (c\<lparr>mc_cache := []\<rparr>, Inr ())"

text \<open>The time to live, in seconds.\<close>

definition cache_ttl :: "string \<Rightarrow> memory_cache \<Rightarrow> memory_cache \<times> u64 option result" where
  "cache_ttl key c =
     (c, Inr (if bt_contains (mc_cache c) (prefixed_key c key) then (if mc_ttl c > 0 then Some (mc_ttl c) else None) else None))"

text \<open>\<^verbatim>\<open>entry(key).and_compute_with(f)\<close>: the operation chosen for the present entry is applied under the key's lock.\<close>

datatype moka_op = MokaNop | MokaPut string | MokaRemove

definition and_compute_with ::
    "string \<Rightarrow> (string option \<Rightarrow> moka_op) \<Rightarrow> (string, string) btree \<Rightarrow> (string, string) btree \<times> moka_op" where
  "and_compute_with key f m =
     (case f (bt_get m key) of
        MokaNop \<Rightarrow> (m, MokaNop)
      | MokaPut v \<Rightarrow> (bt_insert key v m, MokaPut v)
      | MokaRemove \<Rightarrow> (bt_remove key m, MokaRemove))"

definition cache_set_if_not_exists :: "string \<Rightarrow> string \<Rightarrow> u64 \<Rightarrow> memory_cache \<Rightarrow> memory_cache \<times> bool result" where
  "cache_set_if_not_exists key v ttl_seconds c =
     (case and_compute_with (prefixed_key c key) (\<lambda>e. if e = None then MokaPut v else MokaNop) (mc_cache c) of
        (m, done) \<Rightarrow> (c\<lparr>mc_cache := m\<rparr>, Inr (done \<noteq> MokaNop)))"

definition cache_compare_and_swap :: "string \<Rightarrow> string \<Rightarrow> string \<Rightarrow> u64 \<Rightarrow> memory_cache \<Rightarrow> memory_cache \<times> bool result" where
  "cache_compare_and_swap key expected v ttl_seconds c =
     (case and_compute_with (prefixed_key c key) (\<lambda>e. if e = Some expected then MokaPut v else MokaNop) (mc_cache c) of
        (m, done) \<Rightarrow> (c\<lparr>mc_cache := m\<rparr>, Inr (done \<noteq> MokaNop)))"

definition cache_compare_and_remove :: "string \<Rightarrow> string \<Rightarrow> memory_cache \<Rightarrow> memory_cache \<times> bool result" where
  "cache_compare_and_remove key expected c =
     (case and_compute_with (prefixed_key c key) (\<lambda>e. if e = Some expected then MokaRemove else MokaNop) (mc_cache c) of
        (m, done) \<Rightarrow> (c\<lparr>mc_cache := m\<rparr>, Inr (done \<noteq> MokaNop)))"

definition memory_cache_ops :: "memory_cache cache_manager" where
  "memory_cache_ops =
     \<lparr>cm_get = cache_get, cm_set_if_not_exists = cache_set_if_not_exists, cm_compare_and_swap = cache_compare_and_swap,
      cm_compare_and_remove = cache_compare_and_remove\<rparr>"

subsection \<open>Scanning\<close>

record cache_scan_page =
  csp_entries :: "(string \<times> string) list"
  csp_next_cursor :: "string option"

definition scan_matching :: "string \<Rightarrow> memory_cache \<Rightarrow> (string \<times> string) list" where
  "scan_matching prfx c =
     (let cache_prefix = mc_prefix c @ '':'' in
      sort_key fst (filter (\<lambda>p. prefix prfx (fst p))
        (map (\<lambda>(key, v). (drop (length cache_prefix) key, v)) (filter (\<lambda>(key, v). prefix cache_prefix key) (mc_cache c)))))"

fun position :: "('a \<Rightarrow> bool) \<Rightarrow> 'a list \<Rightarrow> nat option" where
  "position P [] = None"
| "position P (x # xs) = (if P x then Some 0 else map_option Suc (position P xs))"

definition scan_prefix_page :: "string \<Rightarrow> string option \<Rightarrow> usize \<Rightarrow> memory_cache \<Rightarrow> cache_scan_page result" where
  "scan_prefix_page prfx cursor limit c =
     (if limit = 0 then Inr \<lparr>csp_entries = [], csp_next_cursor = None\<rparr>
      else
        (let matching = scan_matching prfx c;
             start = (case cursor of
                        None \<Rightarrow> 0
                      | Some cur \<Rightarrow> (case position (\<lambda>p. fst p > cur) matching of None \<Rightarrow> 0 | Some i \<Rightarrow> i));
             stop = min (start + unat limit) (length matching);
             entries = take (stop - start) (drop start matching)
         in Inr \<lparr>csp_entries = entries,
                 csp_next_cursor =
                   (if stop < length matching then (if entries = [] then None else Some (fst (List.last entries))) else None)\<rparr>))"

section \<open>The in-memory cache provides the contract\<close>

definition cache_view :: "memory_cache \<Rightarrow> string \<rightharpoonup> string" where
  "cache_view c = (\<lambda>key. bt_get (mc_cache c) (prefixed_key c key))"

lemma cache_view_at: "bt_get (mc_cache c) (prefixed_key c key) = cache_view c key"
  by (simp add: cache_view_def)

lemma cache_view_put:
  "cache_view (c\<lparr>mc_cache := bt_insert (prefixed_key c key) v (mc_cache c)\<rparr>) = (cache_view c)(key \<mapsto> v)"
  by (auto simp: cache_view_def prefixed_key_def fun_eq_iff bt_get_insert)

lemma cache_view_remove:
  "cache_view (c\<lparr>mc_cache := bt_remove (prefixed_key c key) (mc_cache c)\<rparr>) = (cache_view c)(key := None)"
  by (auto simp: cache_view_def prefixed_key_def fun_eq_iff bt_get_remove)

interpretation memc: atomic_cache memory_cache_ops cache_view
proof
  have same: "c\<lparr>mc_cache := mc_cache c\<rparr> = c" for c by simp
  note defs = memory_cache_ops_def cache_get_def cache_set_if_not_exists_def cache_compare_and_swap_def
    cache_compare_and_remove_def and_compute_with_def
  fix k v old ttl c c' and r :: "bool result" and found
  show "cm_get memory_cache_ops k c = (c', found) \<Longrightarrow>
      cache_view c' = cache_view c \<and> (\<forall>e. found = Inr e \<longrightarrow> e = cache_view c k)"
    by (auto simp: defs cache_view_def)
  show "cm_set_if_not_exists memory_cache_ops k v ttl c = (c', r) \<Longrightarrow>
      (\<forall>b. r = Inr b \<longrightarrow> b = (cache_view c k = None) \<and> cache_view c' = (if b then (cache_view c)(k \<mapsto> v) else cache_view c)) \<and>
      (cache_view c' = cache_view c \<or> cache_view c k = None \<and> cache_view c' = (cache_view c)(k \<mapsto> v))"
    by (cases "cache_view c k = None") (auto simp: defs cache_view_put cache_view_at)
  show "cm_compare_and_swap memory_cache_ops k old v ttl c = (c', r) \<Longrightarrow>
      (\<forall>b. r = Inr b \<longrightarrow> b = (cache_view c k = Some old) \<and> cache_view c' = (if b then (cache_view c)(k \<mapsto> v) else cache_view c)) \<and>
      (cache_view c' = cache_view c \<or> cache_view c k = Some old \<and> cache_view c' = (cache_view c)(k \<mapsto> v))"
    by (cases "cache_view c k = Some old") (auto simp: defs cache_view_put cache_view_at)
  show "cm_compare_and_remove memory_cache_ops k old c = (c', r) \<Longrightarrow>
      (\<forall>b. r = Inr b \<longrightarrow> b = (cache_view c k = Some old) \<and> cache_view c' = (if b then (cache_view c)(k := None) else cache_view c)) \<and>
      (cache_view c' = cache_view c \<or> cache_view c k = Some old \<and> cache_view c' = (cache_view c)(k := None))"
    by (cases "cache_view c k = Some old") (auto simp: defs cache_view_remove cache_view_at)
qed

text \<open>Alone, the fallbacks do what the atomic operations do; with another caller in between, both may win.\<close>

lemma fallbacks_sequential:
  "default_set_if_not_exists id cache_has cache_set key v ttl c = cache_set_if_not_exists key v ttl c"
  "default_compare_and_swap id cache_get cache_set key old v ttl c = cache_compare_and_swap key old v ttl c"
  "default_compare_and_remove id cache_get cache_remove key old c = cache_compare_and_remove key old c"
  by (auto simp: default_set_if_not_exists_def default_compare_and_swap_def default_compare_and_remove_def cache_has_def
      cache_get_def cache_set_def cache_remove_def cache_set_if_not_exists_def cache_compare_and_swap_def
      cache_compare_and_remove_def and_compute_with_def split: bool.splits)

lemma fallback_both_win:
  assumes "cache_view c key = None"
  shows "snd (default_set_if_not_exists (\<lambda>c. fst (default_set_if_not_exists id cache_has cache_set key w ttl c))
      cache_has cache_set key v ttl c) = Inr True \<and>
    snd (default_set_if_not_exists id cache_has cache_set key w ttl c) = Inr True"
  using assms by (simp add: default_set_if_not_exists_def cache_has_def cache_set_def cache_view_def)

section \<open>Scanning by pages\<close>

lemma append_less_iff: "(p @ a :: string) < p @ b \<longleftrightarrow> a < b"
  by (induction p) auto

lemma scan_matching_unsorted:
  assumes "bt_wf (mc_cache c)"
  shows "sorted_wrt (<) (map fst (filter (\<lambda>p. prefix prfx (fst p))
    (map (\<lambda>(key, v). (drop (length (mc_prefix c @ '':'')) key, v)) (filter (\<lambda>(key, v). prefix (mc_prefix c @ '':'') key) (mc_cache c)))))"
proof -
  let ?p = "mc_prefix c @ '':''"
  have "sorted_wrt (\<lambda>x y. fst x < fst y) (filter (\<lambda>(key, v). prefix ?p key) (mc_cache c))"
    using assms by (simp add: bt_wf_def sorted_wrt_map sorted_wrt_filter)
  then have "sorted_wrt (\<lambda>x y. fst x < fst y)
      (map (\<lambda>(key, v). (drop (length ?p) key, v)) (filter (\<lambda>(key, v). prefix ?p key) (mc_cache c)))"
    unfolding sorted_wrt_map
    by (rule sorted_wrt_mono_rel [rotated]) (auto simp: prefix_def append_less_iff)
  then show ?thesis by (simp add: sorted_wrt_map sorted_wrt_filter)
qed

lemma sorted_scan_matching: "bt_wf (mc_cache c) \<Longrightarrow> sorted_wrt (<) (map fst (scan_matching prfx c))"
  using scan_matching_unsorted [of c prfx]
  by (simp add: scan_matching_def Let_def sort_key_id_if_sorted strict_sorted_iff)

lemma set_scan_matching:
  assumes "bt_wf (mc_cache c)"
  shows "(k, v) \<in> set (scan_matching prfx c) \<longleftrightarrow> cache_view c k = Some v \<and> prefix prfx k"
proof -
  have "(k, v) \<in> set (scan_matching prfx c) \<longleftrightarrow> (prefixed_key c k, v) \<in> set (mc_cache c) \<and> prefix prfx k"
  proof -
    let ?p = "mc_prefix c @ '':''"
    have "(k, v) \<in> set (scan_matching prfx c) \<longleftrightarrow>
        (\<exists>key. (key, v) \<in> set (mc_cache c) \<and> prefix ?p key \<and> k = drop (length ?p) key) \<and> prefix prfx k"
      unfolding scan_matching_def Let_def set_sort set_filter set_map by auto
    also have "(\<exists>key. (key, v) \<in> set (mc_cache c) \<and> prefix ?p key \<and> k = drop (length ?p) key) \<longleftrightarrow> (?p @ k, v) \<in> set (mc_cache c)"
      by (metis append_eq_conv_conj prefix_def)
    finally show ?thesis by (simp add: prefixed_key_def)
  qed
  then show ?thesis using assms by (simp add: cache_view_def bt_get_iff)
qed

lemma position_sorted:
  fixes xs :: "('k::linorder \<times> 'v) list"
  assumes "sorted_wrt (<) (map fst xs)"
  shows "case position (\<lambda>p. fst p > cur) xs of
      None \<Rightarrow> filter (\<lambda>p. fst p > cur) xs = []
    | Some i \<Rightarrow> i < length xs \<and> drop i xs = filter (\<lambda>p. fst p > cur) xs"
  using assms
proof (induction xs)
  case (Cons x xs)
  show ?case
  proof (cases "cur < fst x")
    case True
    have "\<forall>p\<in>set xs. fst x < fst p" using Cons.prems by simp
    with True have "\<forall>p\<in>set xs. cur < fst p" by (meson less_trans)
    with True show ?thesis by simp
  next
    case False
    have "sorted_wrt (<) (map fst xs)" using Cons.prems by simp
    note ih = Cons.IH [OF this]
    show ?thesis
    proof (cases "position (\<lambda>p. fst p > cur) xs")
      case None
      with ih have "filter (\<lambda>p. fst p > cur) xs = []" by (simp only: option.case)
      with False None show ?thesis by simp
    next
      case (Some i)
      with ih have "i < length xs \<and> drop i xs = filter (\<lambda>p. fst p > cur) xs" by (simp only: option.case)
      with False Some show ?thesis by simp
    qed
  qed
qed simp

definition scan_rest :: "string \<times> usize \<Rightarrow> memory_cache \<Rightarrow> string option \<Rightarrow> (string \<times> string) list" where
  "scan_rest q c cursor =
     filter (\<lambda>p. case cursor of None \<Rightarrow> True | Some cur \<Rightarrow> cur < fst p) (scan_matching (fst q) c)"

definition scan_ready :: "string \<times> usize \<Rightarrow> memory_cache \<Rightarrow> bool" where
  "scan_ready q c \<longleftrightarrow> snd q \<noteq> 0 \<and> bt_wf (mc_cache c)"

definition scan_live :: "string \<times> usize \<Rightarrow> memory_cache \<Rightarrow> string option \<Rightarrow> bool" where
  "scan_live q c cursor \<longleftrightarrow> cursor = None \<or> scan_rest q c cursor \<noteq> []"

definition scan_read ::
    "string \<times> usize \<Rightarrow> memory_cache \<Rightarrow> string option \<Rightarrow> memory_cache \<times> (error + (string \<times> string) list \<times> string option)" where
  "scan_read q c cursor =
     (c, case scan_prefix_page (fst q) cursor (snd q) c of
           Inl e \<Rightarrow> Inl e
         | Inr page \<Rightarrow> Inr (csp_entries page, csp_next_cursor page))"

lemma scan_read_window:
  assumes "scan_ready q c" "scan_live q c cursor"
  shows "scan_read q c cursor =
    (c, Inr (take (unat (snd q)) (scan_rest q c cursor),
        if unat (snd q) < length (scan_rest q c cursor)
        then Some (fst (scan_rest q c cursor ! (unat (snd q) - 1))) else None))"
proof -
  let ?m = "scan_matching (fst q) c" and ?n = "unat (snd q)"
  have n: "0 < ?n" using assms(1) by (simp add: scan_ready_def unat_gt_0)
  define start where "start = (case cursor of None \<Rightarrow> 0
     | Some cur \<Rightarrow> (case position (\<lambda>p. fst p > cur) ?m of None \<Rightarrow> 0 | Some i \<Rightarrow> i))"
  have start: "drop start ?m = scan_rest q c cursor" "start \<le> length ?m"
  proof (atomize (full), cases cursor)
    case (Some cur)
    have ne: "filter (\<lambda>p. cur < fst p) ?m \<noteq> []" using assms(2) Some by (simp add: scan_live_def scan_rest_def)
    have pos: "case position (\<lambda>p. cur < fst p) ?m of None \<Rightarrow> filter (\<lambda>p. cur < fst p) ?m = []
        | Some i \<Rightarrow> i < length ?m \<and> drop i ?m = filter (\<lambda>p. cur < fst p) ?m"
      using assms(1) by (intro position_sorted sorted_scan_matching) (simp add: scan_ready_def)
    show "drop start ?m = scan_rest q c cursor \<and> start \<le> length ?m"
    proof (cases "position (\<lambda>p. cur < fst p) ?m")
      case None
      with pos ne show ?thesis by simp
    next
      case (Some i)
      with pos have "i < length ?m" "drop i ?m = filter (\<lambda>p. cur < fst p) ?m" by simp_all
      then show ?thesis using Some \<open>cursor = Some cur\<close> by (simp add: start_def scan_rest_def)
    qed
  qed (simp add: start_def scan_rest_def)
  have len: "length (scan_rest q c cursor) = length ?m - start" using start(1) by (metis length_drop)
  have "min (start + ?n) (length ?m) - start = min ?n (length (scan_rest q c cursor))" using start(2) len by simp
  then have ent: "take (min (start + ?n) (length ?m) - start) (drop start ?m) = take ?n (scan_rest q c cursor)"
    using start(1) by (simp add: min_def)
  have more: "min (start + ?n) (length ?m) < length ?m \<longleftrightarrow> ?n < length (scan_rest q c cursor)" using start(2) len by auto
  have lst: "List.last (take ?n (scan_rest q c cursor)) = scan_rest q c cursor ! (?n - 1)" "take ?n (scan_rest q c cursor) \<noteq> []"
    if "?n < length (scan_rest q c cursor)"
    using that n last_conv_nth [of "take ?n (scan_rest q c cursor)"] by (cases "scan_rest q c cursor = []"; simp)+
  have "snd q \<noteq> 0" using assms(1) by (simp add: scan_ready_def)
  then show ?thesis
    unfolding scan_read_def scan_prefix_page_def Let_def start_def [symmetric] ent more
    using n by (cases "?n < length (scan_rest q c cursor)") (simp_all add: lst(1), (auto)?)
qed

interpretation cpg: cursor_reader scan_read scan_ready scan_live scan_rest "\<lambda>q. unat (snd q)"
proof
  fix q c cursor
  show pos: "scan_ready q c \<Longrightarrow> 0 < unat (snd q)" by (simp add: scan_ready_def unat_gt_0)
  assume rdy: "scan_ready q c" and live: "scan_live q c cursor"
  note window = scan_read_window [OF rdy live]
  show "length (scan_rest q c cursor) \<le> unat (snd q) \<Longrightarrow> \<exists>c'. scan_read q c cursor = (c', Inr (scan_rest q c cursor, None))"
    using window by simp
  assume more: "unat (snd q) < length (scan_rest q c cursor)"
  let ?k = "fst (scan_rest q c cursor ! (unat (snd q) - 1))"
  have sorted: "sorted_wrt (\<lambda>x y. fst x < fst y) (scan_matching (fst q) c)"
    using sorted_scan_matching rdy by (simp add: scan_ready_def sorted_wrt_map)
  have "filter (\<lambda>x. True \<and> ?k < fst x) (scan_matching (fst q) c) = drop (unat (snd q)) (scan_rest q c cursor)"
    unfolding scan_rest_def
    by (rule next_window [where c = cursor and lt = "(<)" and key = fst, OF sorted])
      (use pos [OF rdy] more in \<open>auto simp: scan_rest_def split: option.splits\<close>)
  then have rest: "scan_rest q c (Some ?k) = drop (unat (snd q)) (scan_rest q c cursor)" by (simp add: scan_rest_def)
  with more have "scan_live q c (Some ?k)" by (simp add: scan_live_def)
  moreover have "scan_read q c cursor = (c, Inr (take (unat (snd q)) (scan_rest q c cursor), Some ?k))"
    using window more by simp
  ultimately show "\<exists>c' k. scan_read q c cursor = (c', Inr (take (unat (snd q)) (scan_rest q c cursor), Some k)) \<and> scan_ready q c' \<and>
      scan_live q c' (Some k) \<and> scan_rest q c' (Some k) = drop (unat (snd q)) (scan_rest q c cursor)"
    using rdy rest by blast
qed

text \<open>C40: Scanning the in-memory cache page by page is complete. Following next_cursor of scan_prefix_page over a cache
  that does not change meanwhile ends, and yields every entry whose key starts with the prefix exactly once, in the
  order of the keys, for every page size but zero.\<close>
theorem cache_scan_complete:
  assumes "bt_wf (mc_cache c)" "limit \<noteq> 0"
  shows "\<exists>c' rows. drain (Suc (length (mc_cache c))) (scan_read (prfx, limit)) c None = Some (c', Inr rows) \<and>
    sorted_wrt (<) (map fst rows) \<and> (\<forall>k v. (k, v) \<in> set rows \<longleftrightarrow> cache_view c k = Some v \<and> prefix prfx k)"
proof -
  have "length (scan_rest (prfx, limit) c None) < Suc (length (mc_cache c))"
    by (auto simp: scan_rest_def scan_matching_def Let_def intro!: order_trans [OF length_filter_le] le_imp_less_Suc)
  then obtain c' where "drain (Suc (length (mc_cache c))) (scan_read (prfx, limit)) c None =
      Some (c', Inr (scan_rest (prfx, limit) c None))"
    using cpg.drain_all [of "(prfx, limit)" c None "Suc (length (mc_cache c))"] assms
    by (auto simp: scan_ready_def scan_live_def simp del: drain.simps)
  then show ?thesis
    using sorted_scan_matching [OF assms(1), of prfx] set_scan_matching [OF assms(1)]
    by (simp add: scan_rest_def del: drain.simps)
qed

definition cache_demo :: memory_cache where
  "cache_demo =
     fst (cache_set ''s:2'' ''b'' 0 (fst (cache_set ''s:1'' ''a'' 0 (fst (cache_set ''t:9'' ''c'' 0 (memory_cache_new ''p'' 60))))))"

lemma cache_demo_entries: "mc_cache cache_demo = [(''p:s:1'', ''a''), (''p:s:2'', ''b''), (''p:t:9'', ''c'')]"
  by code_simp

lemma cache_scan_complete_witness:
  "bt_wf (mc_cache cache_demo) \<and>
   (\<exists>c' rows. drain 4 (scan_read (''s:'', 1)) cache_demo None = Some (c', Inr rows) \<and> map fst rows = [''s:1'', ''s:2''])"
proof -
  have wf: "bt_wf (mc_cache cache_demo)" unfolding cache_demo_entries by code_simp
  have n: "Suc (length (mc_cache cache_demo)) = 4" unfolding cache_demo_entries by simp
  obtain c' rows where rows: "drain 4 (scan_read (''s:'', 1)) cache_demo None = Some (c', Inr rows)"
    "sorted_wrt (<) (map fst rows)" "\<forall>k v. (k, v) \<in> set rows \<longleftrightarrow> cache_view cache_demo k = Some v \<and> prefix ''s:'' k"
    using cache_scan_complete [OF wf, of 1 "''s:''"] unfolding n by auto
  have keys: "k \<in> set (map fst rows) \<longleftrightarrow> k \<in> {''s:1'', ''s:2''}" for k
  proof -
    have "mc_prefix cache_demo = ''p''" by code_simp
    then have "cache_view cache_demo k \<noteq> None \<and> prefix ''s:'' k \<longleftrightarrow> k \<in> {''s:1'', ''s:2''}"
      by (auto simp: cache_view_def prefixed_key_def cache_demo_entries bt_get_def)
    then show ?thesis using rows(3) by force
  qed
  have "sorted_wrt (<) [''s:1'', ''s:2'']" by code_simp
  moreover have "set (map fst rows) = set [''s:1'', ''s:2'']" using keys by auto
  ultimately have "map fst rows = [''s:1'', ''s:2'']"
    using rows(2) by (metis strict_sorted_equal)
  with rows(1) wf show ?thesis by (intro conjI exI)
qed

text \<open>
  A scan whose remaining entries vanish between two pages does not end there: no key is greater than the cursor, and the
  next page is the first one again.
\<close>

lemma cache_scan_restarts:
  assumes "limit \<noteq> 0" "filter (\<lambda>p. cur < fst p) (scan_matching prfx c) = []"
  shows "scan_prefix_page prfx (Some cur) limit c = scan_prefix_page prfx None limit c"
proof -
  have "position P xs = None" if "filter P xs = []" for P and xs :: "(string \<times> string) list"
    using that by (induction xs) (auto split: if_splits)
  from this [OF assms(2)] show ?thesis by (simp add: scan_prefix_page_def)
qed

end
