(* ===== verification/Idempotency.thy ===== *)
theory Idempotency
  imports Cache_Manager
begin

text \<open>
  Claims and receipts of idempotent publishes (\<^verbatim>\<open>sockudo-core/src/idempotency.rs\<close>): the first publisher of a message id
  claims its cache key, the others wait for its receipt. The cache manager, the JSON codec of the record and the
  hexadecimal SHA-256 digest are parameters. Other nodes act between any two calls on the cache: the argument \<open>env\<close> says
  what happened before the \<open>i\<close>-th call. Sleeping between attempts is part of that.
\<close>

section \<open>Records and keys\<close>

record idempotency_receipt =
  irc_acknowledgement_id :: string
  irc_message_serial :: "string option"
  irc_history_serial :: "u64 option"
  irc_delivery_serial :: "u64 option"
  irc_version_serial :: "string option"

record idempotency_claim =
  icl_cache_key :: string
  icl_pending_value :: string
  icl_fingerprint :: string
  icl_ttl_seconds :: u64

datatype idempotency_start = Acquired idempotency_claim | ReceiptReplay idempotency_receipt

datatype idempotency_record = PendingRecord string string | CommittedRecord string idempotency_receipt

definition publish_fingerprint :: "(bytes \<Rightarrow> string) \<Rightarrow> bytes \<Rightarrow> string" where
  "publish_fingerprint sha256_hex bs = sha256_hex bs"

definition str_bytes :: "string \<Rightarrow> bytes" where
  "str_bytes s = map of_char s"

definition publish_idempotency_cache_key :: "(bytes \<Rightarrow> string) \<Rightarrow> string \<Rightarrow> string \<Rightarrow> string \<Rightarrow> string" where
  "publish_idempotency_cache_key sha256_hex app_id channel message_id =
     ''idempotency:publish:v1:'' @ sha256_hex (str_bytes app_id @ [0] @ str_bytes channel @ [0] @ str_bytes message_id)"

definition mutation_idempotency_key ::
    "(bytes \<Rightarrow> string) \<Rightarrow> string \<Rightarrow> string \<Rightarrow> string \<Rightarrow> string \<Rightarrow> string \<Rightarrow> string" where
  "mutation_idempotency_key sha256_hex app_id channel message_serial action operation_id =
     ''idempotency:mutation:v1:'' @
       sha256_hex (concat (map (\<lambda>part. str_bytes part @ [0]) [app_id, channel, message_serial, action, operation_id]))"

section \<open>The protocol\<close>

text \<open>The serialiser and parser of the record.\<close>

record record_codec =
  rc_to_string :: "idempotency_record \<Rightarrow> string + string"
  rc_from_str :: "string \<Rightarrow> string + idempotency_record"

definition parse_record :: "record_codec \<Rightarrow> string \<Rightarrow> idempotency_record result" where
  "parse_record codec v =
     (case rc_from_str codec v of
        Inl e \<Rightarrow> Inl (Cache (''invalid idempotency record: '' @ e))
      | Inr r \<Rightarrow> Inr r)"

text \<open>The wait of \<^verbatim>\<open>begin_publish\<close>: at most \<open>n\<close> more attempts, the next call on the cache being the \<open>i\<close>-th.\<close>

fun begin_wait ::
    "nat \<Rightarrow> nat \<Rightarrow> (nat \<Rightarrow> 'c \<Rightarrow> 'c) \<Rightarrow> 'c cache_manager \<Rightarrow> record_codec \<Rightarrow> idempotency_claim \<Rightarrow> 'c \<Rightarrow>
     'c \<times> idempotency_start result" where
  "begin_wait 0 i env cache codec claim c = (c, Inl IdempotencyInProgress)"
| "begin_wait (Suc n) i env cache codec claim c =
     (case cm_get cache (icl_cache_key claim) (env i c) of
        (c1, Inl e) \<Rightarrow> (c1, Inl e)
      | (c1, Inr None) \<Rightarrow>
          (case cm_set_if_not_exists cache (icl_cache_key claim) (icl_pending_value claim) (icl_ttl_seconds claim) (env (i + 1) c1) of
             (c2, Inl e) \<Rightarrow> (c2, Inl e)
           | (c2, Inr True) \<Rightarrow> (c2, Inr (Acquired claim))
           | (c2, Inr False) \<Rightarrow> begin_wait n (i + 2) env cache codec claim c2)
      | (c1, Inr (Some v)) \<Rightarrow>
          (case parse_record codec v of
             Inl e \<Rightarrow> (c1, Inl e)
           | Inr (CommittedRecord existing receipt) \<Rightarrow>
               if existing = icl_fingerprint claim then (c1, Inr (ReceiptReplay receipt)) else (c1, Inl IdempotencyConflict)
           | Inr (PendingRecord existing owner) \<Rightarrow>
               if existing = icl_fingerprint claim then begin_wait n (i + 2) env cache codec claim c1
               else (c1, Inl IdempotencyConflict)))"

definition begin_publish ::
    "(nat \<Rightarrow> 'c \<Rightarrow> 'c) \<Rightarrow> 'c cache_manager \<Rightarrow> record_codec \<Rightarrow> string \<Rightarrow> string \<Rightarrow> string \<Rightarrow> u64 \<Rightarrow> 'c \<Rightarrow>
     'c \<times> idempotency_start result" where
  "begin_publish env cache codec owner cache_key fingerprint ttl_seconds c =
     (case rc_to_string codec (PendingRecord fingerprint owner) of
        Inl e \<Rightarrow> (c, Inl (Json e))
      | Inr pending_value \<Rightarrow>
          (let claim = \<lparr>icl_cache_key = cache_key, icl_pending_value = pending_value, icl_fingerprint = fingerprint,
                        icl_ttl_seconds = max ttl_seconds 1\<rparr> in
           case cm_set_if_not_exists cache cache_key pending_value (max ttl_seconds 1) (env 0 c) of
             (c1, Inl e) \<Rightarrow> (c1, Inl e)
           | (c1, Inr True) \<Rightarrow> (c1, Inr (Acquired claim))
           | (c1, Inr False) \<Rightarrow> begin_wait 40 1 env cache codec claim c1))"

definition commit_publish ::
    "(nat \<Rightarrow> 'c \<Rightarrow> 'c) \<Rightarrow> 'c cache_manager \<Rightarrow> record_codec \<Rightarrow> idempotency_claim \<Rightarrow> idempotency_receipt \<Rightarrow> 'c \<Rightarrow>
     'c \<times> unit result" where
  "commit_publish env cache codec claim receipt c =
     (case rc_to_string codec (CommittedRecord (icl_fingerprint claim) receipt) of
        Inl e \<Rightarrow> (c, Inl (Json e))
      | Inr committed_value \<Rightarrow>
          (case cm_compare_and_swap cache (icl_cache_key claim) (icl_pending_value claim) committed_value (icl_ttl_seconds claim) (env 0 c) of
             (c1, Inl e) \<Rightarrow> (c1, Inl e)
           | (c1, Inr True) \<Rightarrow> (c1, Inr ())
           | (c1, Inr False) \<Rightarrow>
               (case cm_get cache (icl_cache_key claim) (env 1 c1) of
                  (c2, Inl e) \<Rightarrow> (c2, Inl e)
                | (c2, Inr None) \<Rightarrow> (c2, Inl IdempotencyInProgress)
                | (c2, Inr (Some v)) \<Rightarrow>
                    (c2,
                     case parse_record codec v of
                       Inl e \<Rightarrow> Inl e
                     | Inr (CommittedRecord fingerprint existing_receipt) \<Rightarrow>
                         if fingerprint = icl_fingerprint claim \<and> existing_receipt = receipt then Inr ()
                         else Inl IdempotencyConflict
                     | Inr (PendingRecord fingerprint owner) \<Rightarrow>
                         if fingerprint = icl_fingerprint claim then Inl IdempotencyInProgress
                         else Inl IdempotencyConflict))))"

text \<open>The retries of \<^verbatim>\<open>commit_recovered_publish\<close>.\<close>

fun recover_loop ::
    "nat \<Rightarrow> nat \<Rightarrow> (nat \<Rightarrow> 'c \<Rightarrow> 'c) \<Rightarrow> 'c cache_manager \<Rightarrow> record_codec \<Rightarrow> string \<Rightarrow> string \<Rightarrow> idempotency_receipt \<Rightarrow> string \<Rightarrow>
     u64 \<Rightarrow> 'c \<Rightarrow> 'c \<times> idempotency_receipt result" where
  "recover_loop 0 i env cache codec key fingerprint receipt committed_value ttl c = (c, Inl IdempotencyInProgress)"
| "recover_loop (Suc n) i env cache codec key fingerprint receipt committed_value ttl c =
     (case cm_get cache key (env i c) of
        (c1, Inl e) \<Rightarrow> (c1, Inl e)
      | (c1, Inr None) \<Rightarrow>
          (case cm_set_if_not_exists cache key committed_value ttl (env (i + 1) c1) of
             (c2, Inl e) \<Rightarrow> (c2, Inl e)
           | (c2, Inr True) \<Rightarrow> (c2, Inr receipt)
           | (c2, Inr False) \<Rightarrow> recover_loop n (i + 2) env cache codec key fingerprint receipt committed_value ttl c2)
      | (c1, Inr (Some v)) \<Rightarrow>
          (case parse_record codec v of
             Inl e \<Rightarrow> (c1, Inl e)
           | Inr (CommittedRecord existing existing_receipt) \<Rightarrow>
               if existing = fingerprint \<and> existing_receipt = receipt then (c1, Inr existing_receipt)
               else (c1, Inl IdempotencyConflict)
           | Inr (PendingRecord existing owner) \<Rightarrow>
               if existing = fingerprint then
                 (case cm_compare_and_swap cache key v committed_value ttl (env (i + 1) c1) of
                    (c2, Inl e) \<Rightarrow> (c2, Inl e)
                  | (c2, Inr True) \<Rightarrow> (c2, Inr receipt)
                  | (c2, Inr False) \<Rightarrow> recover_loop n (i + 2) env cache codec key fingerprint receipt committed_value ttl c2)
               else (c1, Inl IdempotencyConflict)))"

definition commit_recovered_publish ::
    "(nat \<Rightarrow> 'c \<Rightarrow> 'c) \<Rightarrow> 'c cache_manager \<Rightarrow> record_codec \<Rightarrow> string \<Rightarrow> string \<Rightarrow> idempotency_receipt \<Rightarrow> u64 \<Rightarrow> 'c \<Rightarrow>
     'c \<times> idempotency_receipt result" where
  "commit_recovered_publish env cache codec cache_key fingerprint receipt ttl_seconds c =
     (case rc_to_string codec (CommittedRecord fingerprint receipt) of
        Inl e \<Rightarrow> (c, Inl (Json e))
      | Inr committed_value \<Rightarrow>
          recover_loop 8 0 env cache codec cache_key fingerprint receipt committed_value (max ttl_seconds 1) c)"

definition abort_publish ::
    "(nat \<Rightarrow> 'c \<Rightarrow> 'c) \<Rightarrow> 'c cache_manager \<Rightarrow> idempotency_claim \<Rightarrow> 'c \<Rightarrow> 'c \<times> unit result" where
  "abort_publish env cache claim c =
     (case cm_compare_and_remove cache (icl_cache_key claim) (icl_pending_value claim) (env 0 c) of
        (c1, Inl e) \<Rightarrow> (c1, Inl e)
      | (c1, Inr _) \<Rightarrow> (c1, Inr ()))"

section \<open>The abstract protocol\<close>

text \<open>
  What any caller may do to a key: take a free one, settle a pending record with the receipt of its fingerprint, give
  a pending one up. Expiry is left out: a record lives as long as its time to live, and the promises below are those of
  that time.
\<close>

inductive idem_step :: "record_codec \<Rightarrow> (string \<rightharpoonup> string) \<Rightarrow> (string \<rightharpoonup> string) \<Rightarrow> bool" for codec :: record_codec where
  take_free: "m k = None \<Longrightarrow> rc_from_str codec v = Inr r \<Longrightarrow> idem_step codec m (m(k \<mapsto> v))"
| settle: "m k = Some p \<Longrightarrow> rc_from_str codec p = Inr (PendingRecord fp owner) \<Longrightarrow>
    rc_from_str codec v = Inr (CommittedRecord fp receipt) \<Longrightarrow> idem_step codec m (m(k \<mapsto> v))"
| give_up: "m k = Some p \<Longrightarrow> rc_from_str codec p = Inr (PendingRecord fp owner) \<Longrightarrow> idem_step codec m (m(k := None))"

abbreviation idem_steps :: "record_codec \<Rightarrow> (string \<rightharpoonup> string) \<Rightarrow> (string \<rightharpoonup> string) \<Rightarrow> bool" where
  "idem_steps codec \<equiv> (idem_step codec)\<^sup>*\<^sup>*"

text \<open>The steps of others while a claim is held: its pending value is not theirs to remove.\<close>

definition others_step :: "record_codec \<Rightarrow> string \<Rightarrow> string \<Rightarrow> (string \<rightharpoonup> string) \<Rightarrow> (string \<rightharpoonup> string) \<Rightarrow> bool" where
  "others_step codec k p m m' \<longleftrightarrow> idem_step codec m m' \<and> \<not> (m k = Some p \<and> m' k = None)"

definition committed_at :: "record_codec \<Rightarrow> (string \<rightharpoonup> string) \<Rightarrow> string \<Rightarrow> string \<Rightarrow> idempotency_receipt \<Rightarrow> bool" where
  "committed_at codec m k fp receipt \<longleftrightarrow>
     (case m k of None \<Rightarrow> False | Some v \<Rightarrow> rc_from_str codec v = Inr (CommittedRecord fp receipt))"

definition claimed_at :: "record_codec \<Rightarrow> (string \<rightharpoonup> string) \<Rightarrow> string \<Rightarrow> string \<Rightarrow> bool" where
  "claimed_at codec m k p \<longleftrightarrow>
     (case m k of None \<Rightarrow> False
      | Some v \<Rightarrow> v = p \<or> (case rc_from_str codec v of Inr (CommittedRecord fp receipt) \<Rightarrow> True | _ \<Rightarrow> False))"

lemma committed_stable:
  "idem_steps codec m m' \<Longrightarrow> committed_at codec m k fp receipt \<Longrightarrow> committed_at codec m' k fp receipt"
proof (induction rule: rtranclp_induct)
  case (step m1 m2)
  from step(2) step(3) [OF step(4)] show ?case
    by (cases rule: idem_step.cases) (auto simp: committed_at_def split: option.splits if_splits)
qed

lemma claimed_stable:
  assumes "rc_from_str codec p = Inr (PendingRecord fp owner)"
  shows "(others_step codec k p)\<^sup>*\<^sup>* m m' \<Longrightarrow> claimed_at codec m k p \<Longrightarrow> claimed_at codec m' k p"
proof (induction rule: rtranclp_induct)
  case (step m1 m2)
  have "idem_step codec m1 m2" "\<not> (m1 k = Some p \<and> m2 k = None)" using step(2) by (simp_all add: others_step_def)
  then show ?case using step(3) [OF step(4)]
    by (cases rule: idem_step.cases) (auto simp: claimed_at_def split: option.splits if_splits sum.splits idempotency_record.splits)
qed

section \<open>Clients of an atomic cache\<close>

context atomic_cache
begin

lemma begin_wait_steps:
  assumes "\<And>i c. idem_steps codec (view c) (view (env i c))"
    and "rc_from_str codec (icl_pending_value claim) = Inr r"
  shows "begin_wait n i env ops codec claim c = (c', res) \<Longrightarrow> idem_steps codec (view c) (view c')"
proof (induction n arbitrary: i c)
  case (Suc n)
  let ?k = "icl_cache_key claim"
  obtain c1 found where get: "cm_get ops ?k (env i c) = (c1, found)" by fastforce
  have v1: "idem_steps codec (view c) (view c1)" using get_law [OF get] assms(1) [where i = i and c = c] by simp
  show ?case
  proof (cases "found = Inr None")
    case True
    obtain c2 b where set: "cm_set_if_not_exists ops ?k (icl_pending_value claim) (icl_ttl_seconds claim) (env (i + 1) c1) = (c2, b)"
      by fastforce
    have "idem_steps codec (view (env (i + 1) c1)) (view c2)"
      using set_law [OF set] take_free [OF _ assms(2)] by auto
    with v1 assms(1) [where i = "i + 1" and c = c1] have v2: "idem_steps codec (view c) (view c2)" by auto
    from Suc.prems get True set Suc.IH [of "i + 2" c2] v2 show ?thesis
      by (auto split: sum.splits bool.splits intro: rtranclp_trans)
  next
    case False
    with Suc.prems get Suc.IH [of "i + 2" c1] v1 show ?thesis
      by (auto split: sum.splits option.splits idempotency_record.splits if_splits intro: rtranclp_trans)
  qed
qed simp

lemma begin_publish_steps:
  assumes "\<And>i c. idem_steps codec (view c) (view (env i c))"
    and "\<And>p. rc_to_string codec (PendingRecord fp owner) = Inr p \<Longrightarrow> rc_from_str codec p = Inr (PendingRecord fp owner)"
    and "begin_publish env ops codec owner k fp ttl c = (c', res)"
  shows "idem_steps codec (view c) (view c')"
proof (cases "rc_to_string codec (PendingRecord fp owner)")
  case (Inr p)
  obtain c1 b where set: "cm_set_if_not_exists ops k p (max ttl 1) (env 0 c) = (c1, b)" by fastforce
  have "idem_steps codec (view (env 0 c)) (view c1)" using set_law [OF set] take_free [OF _ assms(2) [OF Inr]] by auto
  with assms(1) [where i = 0 and c = c] have v1: "idem_steps codec (view c) (view c1)" by auto
  let ?claim = "\<lparr>icl_cache_key = k, icl_pending_value = p, icl_fingerprint = fp, icl_ttl_seconds = max ttl 1\<rparr>"
  have "begin_wait 40 1 env ops codec ?claim c1 = (c', res) \<Longrightarrow> idem_steps codec (view c1) (view c')"
    by (rule begin_wait_steps [where env = env and r = "PendingRecord fp owner", OF assms(1)]) (simp_all add: assms(2) [OF Inr])
  then show ?thesis
    using assms(3) Inr set v1
    by (auto simp: begin_publish_def Let_def split: sum.splits bool.splits intro: rtranclp_trans)
qed (use assms(3) in \<open>simp add: begin_publish_def\<close>)

lemma commit_publish_steps:
  assumes "\<And>i c. idem_steps codec (view c) (view (env i c))"
    and "rc_from_str codec (icl_pending_value claim) = Inr (PendingRecord (icl_fingerprint claim) owner)"
    and "\<And>v. rc_to_string codec (CommittedRecord (icl_fingerprint claim) receipt) = Inr v \<Longrightarrow>
      rc_from_str codec v = Inr (CommittedRecord (icl_fingerprint claim) receipt)"
    and "commit_publish env ops codec claim receipt c = (c', res)"
  shows "idem_steps codec (view c) (view c')"
proof (cases "rc_to_string codec (CommittedRecord (icl_fingerprint claim) receipt)")
  case (Inr v)
  obtain c1 b where swap: "cm_compare_and_swap ops (icl_cache_key claim) (icl_pending_value claim) v (icl_ttl_seconds claim) (env 0 c) = (c1, b)"
    by fastforce
  have "idem_steps codec (view (env 0 c)) (view c1)" using swap_law [OF swap] settle [OF _ assms(2) assms(3) [OF Inr]] by auto
  with assms(1) [where i = 0 and c = c] have v1: "idem_steps codec (view c) (view c1)" by auto
  obtain c2 found where get: "cm_get ops (icl_cache_key claim) (env 1 c1) = (c2, found)" by fastforce
  have v2: "idem_steps codec (view c1) (view c2)" using get_law [OF get] assms(1) [where i = 1 and c = c1] by simp
  show ?thesis
    using assms(4) Inr swap get v1 v2
    by (auto simp: commit_publish_def split: sum.splits bool.splits option.splits intro: rtranclp_trans)
qed (use assms(4) in \<open>simp add: commit_publish_def\<close>)

lemma recover_loop_steps:
  assumes "\<And>i c. idem_steps codec (view c) (view (env i c))" and "rc_from_str codec v = Inr (CommittedRecord fp receipt)"
  shows "recover_loop n i env ops codec k fp receipt v ttl c = (c', res) \<Longrightarrow> idem_steps codec (view c) (view c')"
proof (induction n arbitrary: i c)
  case (Suc n)
  obtain c1 found where get: "cm_get ops k (env i c) = (c1, found)" by fastforce
  have v1: "idem_steps codec (view c) (view c1)" using get_law [OF get] assms(1) [where i = i and c = c] by simp
  obtain c2 b where set: "cm_set_if_not_exists ops k v ttl (env (i + 1) c1) = (c2, b)" by fastforce
  have "idem_steps codec (view (env (i + 1) c1)) (view c2)" using set_law [OF set] take_free [OF _ assms(2)] by auto
  with v1 assms(1) [where i = "i + 1" and c = c1] have v2: "idem_steps codec (view c) (view c2)" by auto
  have v3: "idem_steps codec (view c) (view c3)"
    if "cm_compare_and_swap ops k p v ttl (env (i + 1) c1) = (c3, b')" "rc_from_str codec p = Inr (PendingRecord fp owner)"
    for c3 b' p owner
  proof -
    have "idem_steps codec (view (env (i + 1) c1)) (view c3)" using swap_law [OF that(1)] settle [OF _ that(2) assms(2)] by auto
    with v1 assms(1) [where i = "i + 1" and c = c1] show ?thesis by auto
  qed
  show ?case
    using Suc.prems get set v1 v2 v3 rtranclp_trans [OF _ Suc.IH]
    by (auto simp: parse_record_def split: sum.splits bool.splits option.splits idempotency_record.splits if_splits prod.splits; blast)
qed simp

lemma commit_recovered_publish_steps:
  assumes "\<And>i c. idem_steps codec (view c) (view (env i c))"
    and "\<And>v. rc_to_string codec (CommittedRecord fp receipt) = Inr v \<Longrightarrow> rc_from_str codec v = Inr (CommittedRecord fp receipt)"
    and "commit_recovered_publish env ops codec k fp receipt ttl c = (c', res)"
  shows "idem_steps codec (view c) (view c')"
  using assms(2,3) recover_loop_steps [where env = env, OF assms(1)]
  by (cases "rc_to_string codec (CommittedRecord fp receipt)") (auto simp: commit_recovered_publish_def)

lemma abort_publish_steps:
  assumes "\<And>i c. idem_steps codec (view c) (view (env i c))"
    and "rc_from_str codec (icl_pending_value claim) = Inr (PendingRecord fp owner)"
    and "abort_publish env ops claim c = (c', res)"
  shows "idem_steps codec (view c) (view c')"
proof -
  obtain c1 b where rm: "cm_compare_and_remove ops (icl_cache_key claim) (icl_pending_value claim) (env 0 c) = (c1, b)" by fastforce
  have "idem_steps codec (view (env 0 c)) (view c1)" using remove_law [OF rm] give_up [OF _ assms(2)] by auto
  with assms(1) [where i = 0 and c = c] rm assms(3) show ?thesis
    by (auto simp: abort_publish_def split: sum.splits)
qed

text \<open>What a successful claim and a successful commit leave in the cache.\<close>

lemma set_true:
  assumes "cm_set_if_not_exists ops k v ttl c = (c', Inr True)"
  shows "view c k = None \<and> view c' = (view c)(k \<mapsto> v)"
proof -
  have "\<forall>b. Inr True = (Inr b :: bool result) \<longrightarrow> b = (view c k = None) \<and> view c' = (if b then (view c)(k \<mapsto> v) else view c)"
    using set_law [OF assms] by (rule conjunct1)
  from spec [OF this, of True] show ?thesis by simp
qed

lemma set_taken:
  assumes "cm_set_if_not_exists ops k v ttl c = (c', r)" "view c k \<noteq> None"
  shows "view c' = view c \<and> r \<noteq> Inr True"
  using set_law [OF assms(1)] assms set_true [of k v ttl c c'] by metis

lemma begin_wait_acquired:
  "begin_wait n i env ops codec claim c = (c', Inr (Acquired claim')) \<Longrightarrow>
   claim' = claim \<and> view c' (icl_cache_key claim) = Some (icl_pending_value claim)"
proof (induction n arbitrary: i c)
  case (Suc n)
  let ?k = "icl_cache_key claim"
  obtain c1 found where get: "cm_get ops ?k (env i c) = (c1, found)" by fastforce
  obtain c2 b where set: "cm_set_if_not_exists ops ?k (icl_pending_value claim) (icl_ttl_seconds claim) (env (i + 1) c1) = (c2, b)"
    by fastforce
  have "b = Inr True \<Longrightarrow> view c2 ?k = Some (icl_pending_value claim)" using set set_true by fastforce
  then show ?case
    using Suc.prems get set Suc.IH
    by (simp split: sum.splits option.splits bool.splits idempotency_record.splits if_splits)
qed simp

lemma begin_publish_acquired:
  assumes "begin_publish env ops codec owner k fp ttl c = (c', Inr (Acquired claim))"
    and "rc_to_string codec (PendingRecord fp owner) = Inr p"
  shows "icl_cache_key claim = k \<and> icl_pending_value claim = p \<and> icl_fingerprint claim = fp \<and> view c' k = Some p"
proof -
  let ?claim = "\<lparr>icl_cache_key = k, icl_pending_value = p, icl_fingerprint = fp, icl_ttl_seconds = max ttl 1\<rparr>"
  obtain c1 b where set: "cm_set_if_not_exists ops k p (max ttl 1) (env 0 c) = (c1, b)" by fastforce
  have "b = Inr True \<Longrightarrow> view c1 k = Some p" using set set_true by fastforce
  moreover have "begin_wait 40 1 env ops codec ?claim c1 = (c', Inr (Acquired claim)) \<Longrightarrow> claim = ?claim \<and> view c' k = Some p"
    using begin_wait_acquired [of 40 1 env codec ?claim c1 c' claim] by simp
  ultimately show ?thesis
    using assms set by (auto simp: begin_publish_def Let_def split: sum.splits bool.splits)
qed

lemma commit_publish_committed:
  assumes "commit_publish env ops codec claim receipt c = (c', Inr ())"
    and "rc_to_string codec (CommittedRecord (icl_fingerprint claim) receipt) = Inr v"
    and "rc_from_str codec v = Inr (CommittedRecord (icl_fingerprint claim) receipt)"
  shows "committed_at codec (view c') (icl_cache_key claim) (icl_fingerprint claim) receipt"
proof -
  obtain c1 b where swap: "cm_compare_and_swap ops (icl_cache_key claim) (icl_pending_value claim) v (icl_ttl_seconds claim) (env 0 c) = (c1, b)"
    by fastforce
  obtain c2 found where get: "cm_get ops (icl_cache_key claim) (env 1 c1) = (c2, found)" by fastforce
  show ?thesis
    using assms swap get swap_law [OF swap] get_law [OF get]
    by (auto simp: commit_publish_def committed_at_def parse_record_def
        split: sum.splits bool.splits option.splits idempotency_record.splits if_splits)
qed

text \<open>A held claim keeps every other caller from acquiring.\<close>

lemma begin_wait_claimed:
  assumes "\<And>i c. (others_step codec (icl_cache_key claim) p)\<^sup>*\<^sup>* (view c) (view (env i c))"
    and "rc_from_str codec p = Inr (PendingRecord fp owner)"
  shows "claimed_at codec (view c) (icl_cache_key claim) p \<Longrightarrow>
    begin_wait n i env ops codec claim c = (c', res) \<Longrightarrow> res \<noteq> Inr (Acquired claim')"
proof (induction n arbitrary: i c)
  case (Suc n)
  let ?k = "icl_cache_key claim"
  obtain c1 found where get: "cm_get ops ?k (env i c) = (c1, found)" by fastforce
  have held: "claimed_at codec (view c1) ?k p"
    using claimed_stable [OF assms(2) assms(1) Suc.prems(1)] get_law [OF get] by simp
  then have "found \<noteq> Inr None" using get_law [OF get] by (auto simp: claimed_at_def split: option.splits)
  with Suc.prems(2) get Suc.IH [OF held, of "i + 2"] show ?case
    by (auto split: sum.splits option.splits idempotency_record.splits if_splits)
qed auto

lemma begin_publish_claimed:
  assumes "\<And>i c. (others_step codec k p)\<^sup>*\<^sup>* (view c) (view (env i c))"
    and "rc_from_str codec p = Inr (PendingRecord fp owner)"
    and "claimed_at codec (view c) k p" "begin_publish env ops codec owner' k fp' ttl c = (c', res)"
  shows "res \<noteq> Inr (Acquired claim')"
proof (cases "rc_to_string codec (PendingRecord fp' owner')")
  case (Inr p')
  let ?claim = "\<lparr>icl_cache_key = k, icl_pending_value = p', icl_fingerprint = fp', icl_ttl_seconds = max ttl 1\<rparr>"
  obtain c1 b where set: "cm_set_if_not_exists ops k p' (max ttl 1) (env 0 c) = (c1, b)" by fastforce
  have held: "claimed_at codec (view (env 0 c)) k p" using claimed_stable [OF assms(2) assms(1) assms(3)] .
  then have free: "view (env 0 c) k \<noteq> None" by (auto simp: claimed_at_def split: option.splits)
  have same: "view c1 = view (env 0 c)" and taken: "b \<noteq> Inr True" using set_taken [OF set free] by simp_all
  have held1: "claimed_at codec (view c1) (icl_cache_key ?claim) p" using held same by simp
  have "\<And>i c. (others_step codec (icl_cache_key ?claim) p)\<^sup>*\<^sup>* (view c) (view (env i c))"
    unfolding idempotency_claim.simps by (rule assms(1))
  note waits = begin_wait_claimed [of codec ?claim p env, OF this assms(2) held1, of 40 1 c' res]
  show ?thesis
    using assms(4) Inr set taken waits by (auto simp: begin_publish_def Let_def split: sum.splits bool.splits)
qed (use assms(4) in \<open>auto simp: begin_publish_def\<close>)

end

text \<open>A cache whose reads and claims never fail, as the in-memory one.\<close>

locale reliable_cache = atomic_cache +
  assumes get_total: "cm_get ops k c = (c', Inl e) \<Longrightarrow> False"
    and set_total: "cm_set_if_not_exists ops k v ttl c = (c', Inl e) \<Longrightarrow> False"
begin

lemma begin_publish_committed:
  assumes env: "\<And>i c. idem_steps codec (view c) (view (env i c))"
    and com: "committed_at codec (view c) k fp receipt"
    and "rc_to_string codec (PendingRecord fp' owner) = Inr p"
    and run: "begin_publish env ops codec owner k fp' ttl c = (c', res)"
  shows "res = (if fp' = fp then Inr (ReceiptReplay receipt) else Inl IdempotencyConflict)"
proof -
  let ?claim = "\<lparr>icl_cache_key = k, icl_pending_value = p, icl_fingerprint = fp', icl_ttl_seconds = max ttl 1\<rparr>"
  obtain c1 b where set: "cm_set_if_not_exists ops k p (max ttl 1) (env 0 c) = (c1, b)" by fastforce
  have com0: "committed_at codec (view (env 0 c)) k fp receipt" using committed_stable [OF env com] .
  then have taken: "view (env 0 c) k \<noteq> None" by (auto simp: committed_at_def split: option.splits)
  obtain b' where b': "b = Inr b'" using set set_total by (cases b) blast+
  with set_taken [OF set taken] have b: "b = Inr False" and same: "view c1 = view (env 0 c)" by simp_all
  have com1: "committed_at codec (view (env 1 c1)) k fp receipt"
    by (rule committed_stable [OF env]) (simp add: same com0)
  obtain c2 found where get: "cm_get ops k (env 1 c1) = (c2, found)" by fastforce
  then obtain e where e: "found = Inr e" using get_total by (cases found) blast+
  then obtain v where v: "found = Inr (Some v)" "rc_from_str codec v = Inr (CommittedRecord fp receipt)"
    using get_law [OF get] com1 by (auto simp: committed_at_def split: option.splits)
  have "begin_publish env ops codec owner k fp' ttl c = begin_wait 40 1 env ops codec ?claim c1"
    using assms(3) set b by (simp add: begin_publish_def Let_def)
  also have "\<dots> = begin_wait (Suc 39) 1 env ops codec ?claim c1" by simp
  also have "\<dots> = (c2, if fp' = fp then Inr (ReceiptReplay receipt) else Inl IdempotencyConflict)"
    unfolding begin_wait.simps using get v by (simp add: parse_record_def)
  finally show ?thesis using run by simp
qed

end

interpretation relc: reliable_cache memory_cache_ops cache_view
  by unfold_locales
    (auto simp: memory_cache_ops_def cache_get_def cache_set_if_not_exists_def split: prod.splits)

section \<open>Publishing through the in-memory cache\<close>


text \<open>C3: A claim is exclusive. While an acquired claim is neither committed nor given up by its owner nor expired, no other
  begin_publish for that key acquires one, however the calls of any number of callers interleave with its own.\<close>
theorem publish_claim_exclusive:
  assumes "begin_publish env memory_cache_ops codec owner k fp ttl c = (c1, Inr (Acquired claim))"
    and "rc_to_string codec (PendingRecord fp owner) = Inr p" "rc_from_str codec p = Inr (PendingRecord fp owner)"
    and "(others_step codec k p)\<^sup>*\<^sup>* (cache_view c1) (cache_view c2)"
    and "\<And>i c. (others_step codec k p)\<^sup>*\<^sup>* (cache_view c) (cache_view (env' i c))"
    and "begin_publish env' memory_cache_ops codec owner' k fp' ttl' c2 = (c3, res)"
  shows "res \<noteq> Inr (Acquired claim')"
proof -
  have "cache_view c1 k = Some p" using memc.begin_publish_acquired [OF assms(1,2)] by blast
  then have "claimed_at codec (cache_view c1) k p" by (simp add: claimed_at_def)
  from memc.begin_publish_claimed [OF assms(5,3) claimed_stable [OF assms(3,4) this] assms(6)] show ?thesis .
qed


section \<open>A concrete exchange\<close>

definition idem_demo_receipt :: idempotency_receipt where
  "idem_demo_receipt =
     \<lparr>irc_acknowledgement_id = ''ack'', irc_message_serial = None, irc_history_serial = Some 7, irc_delivery_serial = None,
      irc_version_serial = None\<rparr>"

definition idem_demo_codec :: record_codec where
  "idem_demo_codec =
     \<lparr>rc_to_string = (\<lambda>r. case r of
          PendingRecord fp owner \<Rightarrow> if fp = ''fp'' \<and> (owner = ''o'' \<or> owner = ''q'') then Inr owner else Inl ''unsupported''
        | CommittedRecord fp receipt \<Rightarrow> if fp = ''fp'' \<and> receipt = idem_demo_receipt then Inr ''done'' else Inl ''unsupported''),
      rc_from_str = (\<lambda>s. if s = ''o'' \<or> s = ''q'' then Inr (PendingRecord ''fp'' s)
        else if s = ''done'' then Inr (CommittedRecord ''fp'' idem_demo_receipt) else Inl ''invalid'')\<rparr>"

definition idem_demo_claim :: idempotency_claim where
  "idem_demo_claim = \<lparr>icl_cache_key = ''k'', icl_pending_value = ''o'', icl_fingerprint = ''fp'', icl_ttl_seconds = 60\<rparr>"

definition idem_demo_begun :: memory_cache where
  "idem_demo_begun = \<lparr>mc_cache = [(''p:k'', ''o'')], mc_ttl = 60, mc_prefix = ''p''\<rparr>"

definition idem_demo_done :: memory_cache where
  "idem_demo_done = \<lparr>mc_cache = [(''p:k'', ''done'')], mc_ttl = 60, mc_prefix = ''p''\<rparr>"

lemma idem_demo_run:
  "begin_publish (\<lambda>i c. c) memory_cache_ops idem_demo_codec ''o'' ''k'' ''fp'' 60 (memory_cache_new ''p'' 60) =
     (idem_demo_begun, Inr (Acquired idem_demo_claim))"
  "commit_publish (\<lambda>i c. c) memory_cache_ops idem_demo_codec idem_demo_claim idem_demo_receipt idem_demo_begun =
     (idem_demo_done, Inr ())"
  by (simp_all add: begin_publish_def commit_publish_def idem_demo_begun_def idem_demo_done_def idem_demo_codec_def
      idem_demo_claim_def memory_cache_ops_def cache_set_if_not_exists_def cache_compare_and_swap_def and_compute_with_def
      memory_cache_new_def prefixed_key_def Let_def)


lemma publish_claim_exclusive_witness:
  "snd (begin_publish (\<lambda>i c. c) memory_cache_ops idem_demo_codec ''q'' ''k'' ''fp'' 60 idem_demo_begun) \<noteq>
     Inr (Acquired (idem_demo_claim\<lparr>icl_pending_value := ''q''\<rparr>))"
  by (rule publish_claim_exclusive [OF idem_demo_run(1) _ _ _ _ surjective_pairing, where p = "''o''"])
    (simp_all add: idem_demo_codec_def)


end
