(* ===== verification/Versioned_Messages.thy ===== *)
theory Versioned_Messages
  imports Prelude
begin

text \<open>
  Mutable messages (\<^verbatim>\<open>sockudo-core/src/versioned_messages.rs\<close>): the version chain of one logical
  message, the creation of versions by update, delete and append, the selection of the visible
  version, and the validators of chains and of replays. A JSON value is its text.
\<close>

section \<open>Message data and extras\<close>

type_synonym json = string

datatype message_data =
    DString string
  | DBinary bytes
  | DStructured "string option" "string option" "string option" "(string \<times> json) list"
  | DJson json

datatype extras_value = XString string | XNumber json | XBool bool

record ai_extras =
  aix_transport :: "(string \<rightharpoonup> string) option"
  aix_codec :: "(string \<rightharpoonup> string) option"

record message_extras =
  mx_headers :: "(string \<rightharpoonup> extras_value) option"
  mx_ephemeral :: "bool option"
  mx_idempotency_key :: "string option"
  mx_push :: "json option"
  mx_echo :: "bool option"
  mx_ai :: "ai_extras option"
  mx_opaque :: "(string \<times> json) list"

definition ai_transport_headers :: "message_extras \<Rightarrow> (string \<rightharpoonup> string) option" where
  "ai_transport_headers extras =
     (case mx_ai extras of None \<Rightarrow> None | Some ai \<Rightarrow> aix_transport ai)"

text \<open>\<^verbatim>\<open>extras.and_then(ai_transport_headers).and_then(status)\<close>.\<close>

definition ai_status :: "message_extras option \<Rightarrow> string option" where
  "ai_status extras =
     (case extras of None \<Rightarrow> None
      | Some x \<Rightarrow> (case ai_transport_headers x of None \<Rightarrow> None | Some h \<Rightarrow> h ''status''))"

section \<open>Serials and versions\<close>

type_synonym message_serial = string
type_synonym version_serial = string

definition validate_serial :: "string \<Rightarrow> string \<Rightarrow> unit result" where
  "validate_serial label value =
     (if trim_is_empty value then Inl (InvalidMessageFormat (label @ '' must not be empty''))
      else if has_whitespace value then Inl (InvalidMessageFormat (label @ '' must not contain whitespace''))
      else if length value > 128 then Inl (InvalidMessageFormat (label @ '' must be at most 128 bytes''))
      else Inr ())"

definition message_serial_new :: "string \<Rightarrow> message_serial result" where
  "message_serial_new value =
     (case validate_serial ''message_serial'' value of Inl e \<Rightarrow> Inl e | Inr _ \<Rightarrow> Inr value)"

definition version_serial_new :: "string \<Rightarrow> version_serial result" where
  "version_serial_new value =
     (case validate_serial ''version_serial'' value of Inl e \<Rightarrow> Inl e | Inr _ \<Rightarrow> Inr value)"

datatype message_action = ACreate | AUpdate | ADelete | AAppend | ASummary

definition message_action_as_str :: "message_action \<Rightarrow> string" where
  "message_action_as_str a =
     (case a of ACreate \<Rightarrow> ''message.create'' | AUpdate \<Rightarrow> ''message.update'' | ADelete \<Rightarrow> ''message.delete''
      | AAppend \<Rightarrow> ''message.append'' | ASummary \<Rightarrow> ''message.summary'')"

record version_metadata =
  ver_serial :: version_serial
  ver_client_id :: "string option"
  ver_timestamp_ms :: i64
  ver_description :: "string option"
  ver_metadata :: "json option"

datatype 'a field_patch = Keep | Clear | Replace 'a

record message_field_delta =
  mfd_name :: "string field_patch"
  mfd_data :: "message_data field_patch"
  mfd_extras :: "message_extras field_patch"

record message_append =
  mapp_data_fragment :: string
  mapp_extras :: "message_extras option"

record versioned_message =
  vm_action :: message_action
  vm_message_serial :: message_serial
  vm_history_serial :: u64
  vm_delivery_serial :: u64
  vm_version :: version_metadata
  vm_name :: "string option"
  vm_data :: "message_data option"
  vm_extras :: "message_extras option"
  vm_append_fragment :: "string option"

abbreviation vm_version_serial :: "versioned_message \<Rightarrow> version_serial" where
  "vm_version_serial m \<equiv> ver_serial (vm_version m)"

definition vm_new_create ::
    "message_serial \<Rightarrow> version_metadata \<Rightarrow> u64 \<Rightarrow> u64 \<Rightarrow> string option \<Rightarrow> message_data option \<Rightarrow>
     message_extras option \<Rightarrow> versioned_message" where
  "vm_new_create message_serial version history_serial delivery_serial name data extras =
     \<lparr>vm_action = ACreate, vm_message_serial = message_serial, vm_history_serial = history_serial,
      vm_delivery_serial = delivery_serial, vm_version = version, vm_name = name, vm_data = data,
      vm_extras = extras, vm_append_fragment = None\<rparr>"

definition validate_next_version :: "versioned_message \<Rightarrow> version_metadata \<Rightarrow> u64 \<Rightarrow> unit result" where
  "validate_next_version m version delivery_serial =
     (if ver_serial version \<le> vm_version_serial m
      then Inl (InvalidMessageFormat (''next version_serial '' @ ver_serial version @
             '' must be greater than current '' @ vm_version_serial m))
      else if delivery_serial \<le> vm_delivery_serial m
      then Inl (InvalidMessageFormat (''next delivery_serial '' @ show_u64 delivery_serial @
             '' must be greater than current '' @ show_u64 (vm_delivery_serial m)))
      else Inr ())"

definition apply_field_patch :: "'a option \<Rightarrow> 'a field_patch \<Rightarrow> 'a option" where
  "apply_field_patch current patch =
     (case patch of Keep \<Rightarrow> current | Clear \<Rightarrow> None | Replace v \<Rightarrow> Some v)"

definition append_message_data :: "message_data option \<Rightarrow> string \<Rightarrow> message_data result" where
  "append_message_data current fragment =
     (case current of
        None \<Rightarrow> Inr (DString fragment)
      | Some (DString existing) \<Rightarrow> Inr (DString (existing @ fragment))
      | Some _ \<Rightarrow> Inl (InvalidMessageFormat
            ''append requires string message data in the release 4.3 core model''))"

definition vm_apply_mutation ::
    "versioned_message \<Rightarrow> message_action \<Rightarrow> version_metadata \<Rightarrow> u64 \<Rightarrow> message_field_delta \<Rightarrow> versioned_message result" where
  "vm_apply_mutation m action version delivery_serial delta =
     (if action \<noteq> AUpdate \<and> action \<noteq> ADelete
      then Inl (InvalidMessageFormat
             (message_action_as_str action @ '' does not use shallow-mixin mutation semantics''))
      else case validate_next_version m version delivery_serial of
             Inl e \<Rightarrow> Inl e
           | Inr _ \<Rightarrow>
               Inr (m\<lparr>vm_action := action, vm_delivery_serial := delivery_serial, vm_version := version,
                      vm_name := apply_field_patch (vm_name m) (mfd_name delta),
                      vm_data := apply_field_patch (vm_data m) (mfd_data delta),
                      vm_extras := apply_field_patch (vm_extras m) (mfd_extras delta),
                      vm_append_fragment := None\<rparr>))"

definition vm_apply_append ::
    "versioned_message \<Rightarrow> version_metadata \<Rightarrow> u64 \<Rightarrow> message_append \<Rightarrow> versioned_message result" where
  "vm_apply_append m version delivery_serial a =
     (case validate_next_version m version delivery_serial of
        Inl e \<Rightarrow> Inl e
      | Inr _ \<Rightarrow>
          (case append_message_data (vm_data m) (mapp_data_fragment a) of
             Inl e \<Rightarrow> Inl e
           | Inr data \<Rightarrow>
               Inr (m\<lparr>vm_action := AAppend, vm_delivery_serial := delivery_serial, vm_version := version,
                      vm_data := Some data,
                      vm_extras := (case mapp_extras a of None \<Rightarrow> vm_extras m | Some x \<Rightarrow> Some x),
                      vm_append_fragment := Some (mapp_data_fragment a)\<rparr>)))"

section \<open>Chains\<close>

definition ensure_same_chain :: "versioned_message \<Rightarrow> versioned_message \<Rightarrow> unit result" where
  "ensure_same_chain expected actual =
     (if vm_message_serial expected \<noteq> vm_message_serial actual
      then Inl (InvalidMessageFormat (''mixed message_serial values in one version chain: '' @
             vm_message_serial expected @ '' vs '' @ vm_message_serial actual))
      else if vm_history_serial expected \<noteq> vm_history_serial actual
      then Inl (InvalidMessageFormat (''mixed history_serial values in one version chain: '' @
             show_u64 (vm_history_serial expected) @ '' vs '' @ show_u64 (vm_history_serial actual)))
      else Inr ())"

fun select_latest_from :: "versioned_message \<Rightarrow> versioned_message \<Rightarrow> versioned_message list \<Rightarrow> versioned_message result" where
  "select_latest_from first winner [] = Inr winner"
| "select_latest_from first winner (c # cs) =
     (case ensure_same_chain first c of
        Inl e \<Rightarrow> Inl e
      | Inr _ \<Rightarrow> select_latest_from first (if vm_version_serial c > vm_version_serial winner then c else winner) cs)"

definition select_latest_visible :: "versioned_message list \<Rightarrow> versioned_message result" where
  "select_latest_visible versions =
     (case versions of
        [] \<Rightarrow> Inl (InvalidMessageFormat ''version chain must not be empty'')
      | first # rest \<Rightarrow> select_latest_from first first rest)"

fun validate_chain_from ::
    "versioned_message \<Rightarrow> string set \<Rightarrow> u64 set \<Rightarrow> versioned_message list \<Rightarrow> unit result" where
  "validate_chain_from first version_serials delivery_serials [] = Inr ()"
| "validate_chain_from first version_serials delivery_serials (v # vs) =
     (case ensure_same_chain first v of
        Inl e \<Rightarrow> Inl e
      | Inr _ \<Rightarrow>
          if vm_version_serial v \<in> version_serials
          then Inl (InvalidMessageFormat (''duplicate version_serial '' @ vm_version_serial v @ '' in version chain''))
          else if vm_delivery_serial v \<in> delivery_serials
          then Inl (InvalidMessageFormat (''duplicate delivery_serial '' @ show_u64 (vm_delivery_serial v) @
                 '' in version chain''))
          else validate_chain_from first (insert (vm_version_serial v) version_serials)
                 (insert (vm_delivery_serial v) delivery_serials) vs)"

definition validate_version_chain :: "versioned_message list \<Rightarrow> unit result" where
  "validate_version_chain versions =
     (case versions of
        [] \<Rightarrow> Inl (InvalidMessageFormat ''version chain must not be empty'')
      | first # rest \<Rightarrow> validate_chain_from first {vm_version_serial first} {vm_delivery_serial first} rest)"

fun validate_continuity_from :: "u64 \<Rightarrow> versioned_message list \<Rightarrow> unit result" where
  "validate_continuity_from expected [] = Inr ()"
| "validate_continuity_from expected (v # vs) =
     (if vm_delivery_serial v \<noteq> expected
      then Inl (InvalidMessageFormat (''replay gap detected: expected delivery_serial '' @ show_u64 expected @
             '', got '' @ show_u64 (vm_delivery_serial v)))
      else validate_continuity_from (sat_add expected 1) vs)"

definition validate_replay_continuity :: "versioned_message list \<Rightarrow> u64 \<Rightarrow> unit result" where
  "validate_replay_continuity replay requested_after_serial =
     validate_continuity_from (sat_add requested_after_serial 1) replay"

section \<open>Facts\<close>

lemma ensure_same_chain_Inr:
  "ensure_same_chain a b = Inr u \<longleftrightarrow>
     vm_message_serial a = vm_message_serial b \<and> vm_history_serial a = vm_history_serial b"
  by (auto simp: ensure_same_chain_def)

lemma ensure_same_chain_same [simp]:
  "vm_message_serial b = vm_message_serial a \<Longrightarrow> vm_history_serial b = vm_history_serial a \<Longrightarrow>
   ensure_same_chain a b = Inr ()"
  by (simp add: ensure_same_chain_def)

lemma validate_next_version_Inr:
  "validate_next_version m v d = Inr u \<longleftrightarrow> vm_version_serial m < ver_serial v \<and> vm_delivery_serial m < d"
  by (auto simp: validate_next_version_def)

lemma select_latest_from_Inr:
  assumes "select_latest_from first winner cs = Inr m"
  shows "m \<in> set (winner # cs) \<and> (\<forall>c \<in> set (winner # cs). vm_version_serial c \<le> vm_version_serial m) \<and>
    (\<forall>c \<in> set cs. vm_message_serial c = vm_message_serial first \<and> vm_history_serial c = vm_history_serial first)"
  using assms
proof (induction cs arbitrary: winner)
  case (Cons c cs)
  let ?w = "if vm_version_serial c > vm_version_serial winner then c else winner"
  from Cons.prems have same: "ensure_same_chain first c = Inr ()" and rec: "select_latest_from first ?w cs = Inr m"
    by (auto split: sum.splits)
  have "vm_version_serial winner \<le> vm_version_serial ?w" "vm_version_serial c \<le> vm_version_serial ?w" by auto
  with Cons.IH [OF rec] same [unfolded ensure_same_chain_Inr] show ?case
    by (auto split: if_splits intro: order_trans)
qed simp

lemma select_latest_from_total:
  "\<forall>c \<in> set cs. vm_message_serial c = vm_message_serial first \<and> vm_history_serial c = vm_history_serial first \<Longrightarrow>
   \<exists>m. select_latest_from first winner cs = Inr m"
proof (induction cs arbitrary: winner)
  case (Cons c cs)
  then show ?case by simp
qed simp

lemma validate_chain_from_Inr:
  "validate_chain_from first V D vs = Inr u \<longleftrightarrow>
     (\<forall>v \<in> set vs. vm_message_serial v = vm_message_serial first \<and> vm_history_serial v = vm_history_serial first) \<and>
     distinct (map vm_version_serial vs) \<and> set (map vm_version_serial vs) \<inter> V = {} \<and>
     distinct (map vm_delivery_serial vs) \<and> set (map vm_delivery_serial vs) \<inter> D = {}"
proof (induction vs arbitrary: V D)
  case (Cons v vs)
  show ?case
  proof (cases "ensure_same_chain first v")
    case (Inl e)
    then have "\<not> (vm_message_serial first = vm_message_serial v \<and> vm_history_serial first = vm_history_serial v)"
      by (metis Inl_Inr_False ensure_same_chain_Inr)
    with Inl show ?thesis by auto
  next
    case (Inr u')
    then have "vm_message_serial v = vm_message_serial first" "vm_history_serial v = vm_history_serial first"
      by (simp_all add: ensure_same_chain_Inr)
    with Cons show ?thesis by auto
  qed
qed simp

lemma validate_continuity_from_Inr:
  assumes "unat e + length vs \<le> 2 ^ 64 - 1"
  shows "validate_continuity_from e vs = Inr u \<longleftrightarrow>
    map (\<lambda>v. unat (vm_delivery_serial v)) vs = [unat e..<unat e + length vs]"
  using assms
proof (induction vs arbitrary: e)
  case (Cons v vs)
  then have "unat (sat_add e 1) = Suc (unat e)" by (simp add: unat_sat_add)
  with Cons.prems Cons.IH [of "sat_add e 1"] show ?case
    by (auto simp: u64_eq_iff upt_conv_Cons simp del: upt_Suc)
qed simp

section \<open>Properties\<close>

text \<open>The visible version. The selection succeeds exactly on non-empty lists of versions of one message,
  and then returns a version of the list with the greatest version serial.\<close>
theorem select_latest_visible_greatest:
  "case select_latest_visible vs of
     Inr m \<Rightarrow> m \<in> set vs \<and> (\<forall>v \<in> set vs. vm_version_serial v \<le> vm_version_serial m \<and>
       vm_message_serial v = vm_message_serial m \<and> vm_history_serial v = vm_history_serial m)
   | Inl _ \<Rightarrow> vs = [] \<or> (\<exists>v \<in> set vs. \<exists>w \<in> set vs.
       vm_message_serial v \<noteq> vm_message_serial w \<or> vm_history_serial v \<noteq> vm_history_serial w)"
proof (cases vs)
  case (Cons v vs')
  show ?thesis
  proof (cases "select_latest_from v v vs'")
    case (Inr m)
    with select_latest_from_Inr [OF Inr] Cons show ?thesis by (fastforce simp: select_latest_visible_def)
  next
    case (Inl e)
    have "\<not> (\<forall>c \<in> set vs'. vm_message_serial c = vm_message_serial v \<and> vm_history_serial c = vm_history_serial v)"
    proof
      assume "\<forall>c \<in> set vs'. vm_message_serial c = vm_message_serial v \<and> vm_history_serial c = vm_history_serial v"
      from select_latest_from_total [OF this, of v] Inl show False by simp
    qed
    with Inl Cons show ?thesis by (auto simp: select_latest_visible_def)
  qed
qed (simp add: select_latest_visible_def)

definition demo_message :: "string \<Rightarrow> versioned_message" where
  "demo_message v = vm_new_create ''m'' \<lparr>ver_serial = v, ver_client_id = None, ver_timestamp_ms = 0, ver_description = None,
     ver_metadata = None\<rparr> 1 (if v = ''1'' then 1 else 2) None None None"

theorem select_latest_visible_greatest_witness:
  "select_latest_visible [demo_message ''2'', demo_message ''1''] = Inr (demo_message ''2'') \<and>
   vm_version_serial (demo_message ''1'') \<le> vm_version_serial (demo_message ''2'')"
proof -
  have eq: "select_latest_visible [demo_message ''2'', demo_message ''1''] = Inr (demo_message ''2'')"
    by (simp add: select_latest_visible_def demo_message_def vm_new_create_def ensure_same_chain_def)
  with select_latest_visible_greatest [of "[demo_message ''2'', demo_message ''1'']"] show ?thesis by simp
qed

text \<open>The chain validator accepts exactly the non-empty lists of versions of one message with pairwise distinct
  version serials and pairwise distinct delivery serials.\<close>
theorem validate_version_chain_iff:
  "validate_version_chain vs = Inr u \<longleftrightarrow>
     vs \<noteq> [] \<and> distinct (map vm_version_serial vs) \<and> distinct (map vm_delivery_serial vs) \<and>
     (\<forall>v \<in> set vs. vm_message_serial v = vm_message_serial (hd vs) \<and> vm_history_serial v = vm_history_serial (hd vs))"
  by (cases vs) (auto simp: validate_version_chain_def validate_chain_from_Inr)

theorem validate_version_chain_iff_witness:
  "validate_version_chain [demo_message ''2'', demo_message ''1''] = Inr () \<and>
   validate_version_chain [demo_message ''2'', demo_message ''2''] \<noteq> Inr ()"
  by (simp add: validate_version_chain_iff, simp add: demo_message_def vm_new_create_def)

text \<open>The successive appends of a stream, each with its version and its delivery serial.\<close>

fun apply_appends ::
    "versioned_message \<Rightarrow> (version_metadata \<times> u64 \<times> message_append) list \<Rightarrow> versioned_message result" where
  "apply_appends m [] = Inr m"
| "apply_appends m ((version, delivery_serial, a) # rest) =
     (case vm_apply_append m version delivery_serial a of Inl e \<Rightarrow> Inl e | Inr m' \<Rightarrow> apply_appends m' rest)"

text \<open>Streaming appends. Appends with increasing versions and delivery serials to a message with string data all
  succeed, and the data of the result is the original text followed by the fragments in order;
  identity and name stay.\<close>
theorem appends_concatenate:
  assumes "sorted_wrt (<) (vm_version_serial m # map (\<lambda>(v, _, _). ver_serial v) as)"
    and "sorted_wrt (<) (vm_delivery_serial m # map (\<lambda>(_, d, _). d) as)" and "vm_data m = Some (DString s)"
  shows "\<exists>m'. apply_appends m as = Inr m' \<and>
    vm_data m' = Some (DString (s @ concat (map (\<lambda>(_, _, a). mapp_data_fragment a) as))) \<and>
    vm_message_serial m' = vm_message_serial m \<and> vm_history_serial m' = vm_history_serial m \<and>
    vm_name m' = vm_name m"
  using assms
proof (induction as arbitrary: m s)
  case (Cons x as)
  obtain v d a where x: "x = (v, d, a)" by (rule prod_cases3)
  have "validate_next_version m v d = Inr ()"
    using Cons.prems x by (simp add: validate_next_version_Inr)
  with Cons.prems(3) obtain m1 where m1: "vm_apply_append m v d a = Inr m1"
    "vm_data m1 = Some (DString (s @ mapp_data_fragment a))" "vm_version m1 = v" "vm_delivery_serial m1 = d"
    "vm_message_serial m1 = vm_message_serial m" "vm_history_serial m1 = vm_history_serial m" "vm_name m1 = vm_name m"
    by (simp add: vm_apply_append_def append_message_data_def)
  with Cons.IH [of m1 "s @ mapp_data_fragment a"] Cons.prems x show ?case by auto
qed simp

theorem appends_concatenate_witness:
  "\<exists>m'. apply_appends ((demo_message ''1'')\<lparr>vm_data := Some (DString ''ab'')\<rparr>)
      [(vm_version (demo_message ''2''), 2, \<lparr>mapp_data_fragment = ''cd'', mapp_extras = None\<rparr>),
       (vm_version (demo_message ''3''), 3, \<lparr>mapp_data_fragment = ''e'', mapp_extras = None\<rparr>)] = Inr m' \<and>
    vm_data m' = Some (DString ''abcde'')"
  using appends_concatenate [of "(demo_message ''1'')\<lparr>vm_data := Some (DString ''ab'')\<rparr>"
      "[(vm_version (demo_message ''2''), 2, \<lparr>mapp_data_fragment = ''cd'', mapp_extras = None\<rparr>),
        (vm_version (demo_message ''3''), 3, \<lparr>mapp_data_fragment = ''e'', mapp_extras = None\<rparr>)]" "''ab''"]
  by (auto simp: demo_message_def vm_new_create_def)

end
