(* ===== verification/Version_Types.thy ===== *)
theory Version_Types
  imports Versioned_Messages
begin

text \<open>
  The vocabulary of the version stores (\<^verbatim>\<open>sockudo-core/src/version_store/types.rs\<close> and the
  envelope of \<^verbatim>\<open>message_envelope.rs\<close>): stored records, read and replay requests, typed mutations
  with their preconditions and limits, and the pure evaluation of a mutation against its
  predecessor, which every backend runs inside its own transaction. The JSON encoders
  \<open>to_vec\<close> and \<open>to_value\<close> of a message's data are parameters. Limits, counts and sizes are
  natural numbers.
\<close>

section \<open>Envelope\<close>

datatype message_content = CText string | CStructured json | CBinary bytes

definition message_content_from_message_data ::
    "(message_data \<Rightarrow> string + json) \<Rightarrow> message_data \<Rightarrow> string + message_content" where
  "message_content_from_message_data to_value data =
     (case data of
        DString v \<Rightarrow> Inr (CText v)
      | DBinary v \<Rightarrow> Inr (CBinary v)
      | DStructured _ _ _ _ \<Rightarrow>
          (case to_value data of
             Inl e \<Rightarrow> Inl (''failed to encode structured message data: '' @ e)
           | Inr v \<Rightarrow> Inr (CStructured v))
      | DJson v \<Rightarrow> Inr (CStructured v))"

datatype version_projection = AppendFragment | Aggregate

record version_operation_metadata =
  vom_serial :: version_serial
  vom_timestamp_ms :: i64
  vom_client_id :: "string option"
  vom_description :: "string option"
  vom_metadata :: "json option"
  vom_projection :: version_projection

record publish_idempotency_metadata =
  pim_cache_key :: string
  pim_payload_fingerprint :: string

record message_envelope =
  env_message_id :: "string option"
  env_acknowledgement_id :: "string option"
  env_name :: "string option"
  env_data :: "message_content option"
  env_encoding :: "string option"
  env_publisher_client_id :: "string option"
  env_publisher_socket_id :: "string option"
  env_publisher_connection_id :: "string option"
  env_published_at_ms :: "i64 option"
  env_extras :: "message_extras option"
  env_stream_id :: "string option"
  env_history_serial :: "u64 option"
  env_delivery_serial :: "u64 option"
  env_action :: "message_action option"
  env_message_serial :: "message_serial option"
  env_version :: "version_operation_metadata option"
  env_idempotency :: "publish_idempotency_metadata option"

definition envelope_default :: message_envelope where
  "envelope_default =
     \<lparr>env_message_id = None, env_acknowledgement_id = None, env_name = None, env_data = None,
      env_encoding = None, env_publisher_client_id = None, env_publisher_socket_id = None,
      env_publisher_connection_id = None, env_published_at_ms = None, env_extras = None,
      env_stream_id = None, env_history_serial = None, env_delivery_serial = None, env_action = None,
      env_message_serial = None, env_version = None, env_idempotency = None\<rparr>"

section \<open>Requests and records\<close>

datatype version_direction = VNewestFirst | VOldestFirst

record version_cursor =
  vcur_version :: u8
  vcur_version_serial :: version_serial
  vcur_direction :: version_direction

record version_read_request =
  vrr_app_id :: string
  vrr_channel :: string
  vrr_message_serial :: message_serial
  vrr_direction :: version_direction
  vrr_limit :: usize
  vrr_cursor :: "version_cursor option"

definition version_read_validate :: "version_read_request \<Rightarrow> unit result" where
  "version_read_validate r =
     (if vrr_limit r = 0 then Inl (InvalidMessageFormat ''version-history limit must be greater than 0'')
      else case vrr_cursor r of
        None \<Rightarrow> Inr ()
      | Some c \<Rightarrow>
          if vcur_version c \<noteq> 1
          then Inl (InvalidMessageFormat
                 (''unsupported version-history cursor version: '' @ show_nat (unat (vcur_version c))))
          else if vcur_direction c \<noteq> vrr_direction r
          then Inl (InvalidMessageFormat ''version-history cursor direction does not match request'')
          else Inr ())"

record stored_version_record =
  svr_app_id :: string
  svr_channel :: string
  svr_original_client_id :: "string option"
  svr_envelope :: "message_envelope option"
  svr_message :: versioned_message

abbreviation svr_message_serial :: "stored_version_record \<Rightarrow> message_serial" where
  "svr_message_serial r \<equiv> vm_message_serial (svr_message r)"

abbreviation svr_version_serial :: "stored_version_record \<Rightarrow> version_serial" where
  "svr_version_serial r \<equiv> vm_version_serial (svr_message r)"

abbreviation svr_history_serial :: "stored_version_record \<Rightarrow> u64" where
  "svr_history_serial r \<equiv> vm_history_serial (svr_message r)"

abbreviation svr_delivery_serial :: "stored_version_record \<Rightarrow> u64" where
  "svr_delivery_serial r \<equiv> vm_delivery_serial (svr_message r)"

definition is_open_ai_stream :: "stored_version_record \<Rightarrow> bool" where
  "is_open_ai_stream r \<longleftrightarrow> ai_status (vm_extras (svr_message r)) = Some ''streaming''"

definition is_terminal :: "stored_version_record \<Rightarrow> bool" where
  "is_terminal r \<longleftrightarrow> ai_status (vm_extras (svr_message r)) \<in> {Some ''complete'', Some ''cancelled''}"

definition data_bytes :: "(message_data \<Rightarrow> string + bytes) \<Rightarrow> stored_version_record \<Rightarrow> nat result" where
  "data_bytes to_vec r =
     (case vm_data (svr_message r) of
        None \<Rightarrow> Inr 0
      | Some (DString v) \<Rightarrow> Inr (length v)
      | Some v \<Rightarrow> (case to_vec v of Inl e \<Rightarrow> Inl (Json e) | Inr bs \<Rightarrow> Inr (length bs)))"

definition with_delivery_position :: "stored_version_record \<Rightarrow> string \<Rightarrow> u64 \<Rightarrow> stored_version_record" where
  "with_delivery_position r stream_id delivery_serial =
     r\<lparr>svr_message := (svr_message r)\<lparr>vm_delivery_serial := delivery_serial\<rparr>,
       svr_envelope := map_option (\<lambda>e. e\<lparr>env_stream_id := Some stream_id,
                                        env_delivery_serial := Some delivery_serial\<rparr>) (svr_envelope r)\<rparr>"

record version_precondition =
  vpc_version_serial :: version_serial
  vpc_delivery_serial :: u64

definition precondition_from_record :: "stored_version_record \<Rightarrow> version_precondition" where
  "precondition_from_record r =
     \<lparr>vpc_version_serial = svr_version_serial r, vpc_delivery_serial = svr_delivery_serial r\<rparr>"

definition precondition_matches :: "version_precondition \<Rightarrow> stored_version_record \<Rightarrow> bool" where
  "precondition_matches p r \<longleftrightarrow>
     vpc_version_serial p = svr_version_serial r \<and> vpc_delivery_serial p = svr_delivery_serial r"

datatype version_mutation =
    MutUpdate message_field_delta
  | MutDelete message_field_delta
  | MutAppend message_append

definition version_mutation_action :: "version_mutation \<Rightarrow> message_action" where
  "version_mutation_action m = (case m of MutUpdate _ \<Rightarrow> AUpdate | MutDelete _ \<Rightarrow> ADelete | MutAppend _ \<Rightarrow> AAppend)"

record version_mutation_limits =
  vml_max_accumulated_message_bytes :: "nat option"
  vml_max_appends_per_message :: "nat option"
  vml_max_open_streaming_messages_per_channel :: "nat option"
  vml_reject_append_after_terminal :: bool

record version_create_limits =
  vcl_max_accumulated_message_bytes :: "nat option"
  vcl_max_open_streaming_messages_per_channel :: "nat option"

record version_create_request =
  vcr_record :: stored_version_record
  vcr_limits :: version_create_limits

datatype version_create_rejection = CreateAccumulatedMessageBytes nat | CreateOpenStreamingMessages nat

datatype version_create_result =
    CreateApplied stored_version_record string
  | CreateConflict "stored_version_record option"
  | CreateRejected version_create_rejection

record version_mutation_request =
  vmr_app_id :: string
  vmr_channel :: string
  vmr_message_serial :: message_serial
  vmr_expected :: version_precondition
  vmr_version :: version_metadata
  vmr_mutation :: version_mutation
  vmr_idempotency :: "publish_idempotency_metadata option"
  vmr_limits :: version_mutation_limits

datatype version_mutation_rejection =
    AccumulatedMessageBytes nat
  | AppendCount nat
  | OpenStreamingMessages nat
  | TerminalMessage

datatype version_mutation_result =
    MutApplied stored_version_record string
  | MutDuplicate stored_version_record string
  | MutConflict "stored_version_record option"
  | MutRejected version_mutation_rejection

text \<open>The next version of the message itself.\<close>

definition mutate_message ::
    "versioned_message \<Rightarrow> version_mutation_request \<Rightarrow> u64 \<Rightarrow> versioned_message result" where
  "mutate_message m request delivery_serial =
     (case vmr_mutation request of
        MutUpdate delta \<Rightarrow> vm_apply_mutation m AUpdate (vmr_version request) delivery_serial delta
      | MutDelete delta \<Rightarrow> vm_apply_mutation m ADelete (vmr_version request) delivery_serial delta
      | MutAppend a \<Rightarrow> vm_apply_append m (vmr_version request) delivery_serial a)"

definition mutation_envelope ::
    "message_envelope \<Rightarrow> version_mutation_request \<Rightarrow> string \<Rightarrow> u64 \<Rightarrow> message_content option \<Rightarrow> versioned_message \<Rightarrow>
     message_envelope" where
  "mutation_envelope env request stream_id delivery_serial content m =
     env\<lparr>env_acknowledgement_id := Some (vm_version_serial m),
         env_name := vm_name m,
         env_data := content,
         env_publisher_client_id :=
           (case ver_client_id (vm_version m) of None \<Rightarrow> env_publisher_client_id env | Some c \<Rightarrow> Some c),
         env_extras := vm_extras m,
         env_stream_id := Some stream_id,
         env_history_serial := Some (vm_history_serial m),
         env_delivery_serial := Some delivery_serial,
         env_action := Some (vm_action m),
         env_message_serial := Some (vm_message_serial m),
         env_version := Some \<lparr>vom_serial = vm_version_serial m, vom_timestamp_ms = ver_timestamp_ms (vm_version m),
            vom_client_id = ver_client_id (vm_version m), vom_description = ver_description (vm_version m),
            vom_metadata = ver_metadata (vm_version m),
            vom_projection = (if vm_action m = AAppend then AppendFragment else Aggregate)\<rparr>,
         env_idempotency := vmr_idempotency request\<rparr>"

definition svr_apply_mutation ::
    "(message_data \<Rightarrow> string + json) \<Rightarrow> stored_version_record \<Rightarrow> version_mutation_request \<Rightarrow> string \<Rightarrow> u64 \<Rightarrow>
     stored_version_record result" where
  "svr_apply_mutation to_value r request stream_id delivery_serial =
     (if svr_app_id r \<noteq> vmr_app_id request \<or> svr_channel r \<noteq> vmr_channel request \<or>
         svr_message_serial r \<noteq> vmr_message_serial request
      then Inl (InvalidMessageFormat ''version mutation target does not match its predecessor'')
      else case mutate_message (svr_message r) request delivery_serial of
        Inl e \<Rightarrow> Inl e
      | Inr m \<Rightarrow>
          (let env = (case svr_envelope r of None \<Rightarrow> envelope_default | Some env \<Rightarrow> env);
               done' = (\<lambda>content. Inr (r\<lparr>svr_envelope :=
                          Some (mutation_envelope env request stream_id delivery_serial content m),
                          svr_message := m\<rparr>))
           in case vm_data m of
                None \<Rightarrow> done' None
              | Some d \<Rightarrow>
                  (case message_content_from_message_data to_value d of
                     Inl e \<Rightarrow> Inl (InvalidMessageFormat e)
                   | Inr c \<Rightarrow> done' (Some c))))"

text \<open>
  The evaluation of a mutation against one snapshot that the backends with their own transactions
  share.
\<close>

definition mutation_apply_to ::
    "(message_data \<Rightarrow> string + bytes) \<Rightarrow> (message_data \<Rightarrow> string + json) \<Rightarrow> version_mutation_request \<Rightarrow>
     stored_version_record \<Rightarrow> string \<Rightarrow> u64 \<Rightarrow> nat \<Rightarrow> version_mutation_result result" where
  "mutation_apply_to to_vec to_value request current stream_id delivery_serial append_count =
     (let limits = vmr_limits request;
          is_append = (case vmr_mutation request of MutAppend _ \<Rightarrow> True | _ \<Rightarrow> False) in
      if \<not> precondition_matches (vmr_expected request) current then Inr (MutConflict (Some current))
      else if is_append \<and> vml_reject_append_after_terminal limits \<and>
              ai_status (vm_extras (svr_message current)) \<in> {Some ''complete'', Some ''cancelled''}
      then Inr (MutRejected TerminalMessage)
      else if is_append \<and> (case vml_max_appends_per_message limits of None \<Rightarrow> False | Some l \<Rightarrow> append_count \<ge> l)
      then Inr (MutRejected (AppendCount (the (vml_max_appends_per_message limits))))
      else case svr_apply_mutation to_value current request stream_id delivery_serial of
        Inl e \<Rightarrow> Inl e
      | Inr record' \<Rightarrow>
          (case vml_max_accumulated_message_bytes limits of
             None \<Rightarrow> Inr (MutApplied record' stream_id)
           | Some l \<Rightarrow>
               (case data_bytes to_vec record' of
                  Inl e \<Rightarrow> Inl e
                | Inr n \<Rightarrow> if n > l then Inr (MutRejected (AccumulatedMessageBytes l))
                           else Inr (MutApplied record' stream_id))))"

record version_write_reservation =
  vwr_stream_id :: string
  vwr_delivery_serial :: u64

record version_write_reservation_block =
  vwb_stream_id :: string
  vwb_start_delivery_serial :: u64
  vwb_len :: u64

definition reservation_block_validate :: "u64 \<Rightarrow> unit result" where
  "reservation_block_validate block_size =
     (if block_size = 0
      then Inl (InvalidMessageFormat ''version delivery reservation block size must be greater than 0'')
      else Inr ())"

record version_page =
  vpg_items :: "stored_version_record list"
  vpg_next_cursor :: "version_cursor option"
  vpg_has_more :: bool

record version_stream_state =
  vss_stream_id :: "string option"
  vss_next_delivery_serial :: "u64 option"
  vss_oldest_available_delivery_serial :: "u64 option"
  vss_newest_available_delivery_serial :: "u64 option"

record version_replay_request =
  vrp_app_id :: string
  vrp_channel :: string
  vrp_after_delivery_serial :: u64
  vrp_limit :: usize

definition version_replay_validate :: "version_replay_request \<Rightarrow> unit result" where
  "version_replay_validate r =
     (if vrp_limit r = 0 then Inl (InvalidMessageFormat ''replay limit must be greater than 0'') else Inr ())"

section \<open>Facts\<close>

lemma mutate_message_Inr:
  assumes "mutate_message m request d = Inr m'"
  shows "vm_message_serial m' = vm_message_serial m" "vm_history_serial m' = vm_history_serial m"
    "vm_delivery_serial m' = d" "vm_version m' = vmr_version request"
    "vm_action m' = version_mutation_action (vmr_mutation request)"
    "vm_version_serial m < vm_version_serial m'" "vm_delivery_serial m < d"
  using assms
  by (auto simp: mutate_message_def vm_apply_mutation_def vm_apply_append_def validate_next_version_Inr
      version_mutation_action_def split: version_mutation.splits sum.splits)

lemma svr_apply_mutation_Inr:
  assumes "svr_apply_mutation to_value r request sid d = Inr r'"
  shows "mutate_message (svr_message r) request d = Inr (svr_message r')"
    "svr_app_id r' = svr_app_id r" "svr_channel r' = svr_channel r"
    "\<exists>env. svr_envelope r' = Some env \<and> env_idempotency env = vmr_idempotency request \<and>
       env_stream_id env = Some sid \<and> env_delivery_serial env = Some d"
  using assms
  by (auto simp: svr_apply_mutation_def mutation_envelope_def Let_def split: if_splits sum.splits option.splits)

lemmas svr_apply_mutation_message = mutate_message_Inr [OF svr_apply_mutation_Inr(1)]

end
