(* ===== verification/Version_Store.thy ===== *)
theory Version_Store
  imports BTree Paging Version_Types
begin

text \<open>
  The in-memory version store (\<^verbatim>\<open>sockudo-core/src/version_store/memory.rs\<close>): per channel, the
  version chains of its messages (entries in commit order with indexes over them), the replay
  log ordered by delivery serial and the append times; and every operation of the store. One
  lock guards all channels, so an operation is one atomic step; clock readings and UUIDs are
  arguments. Indexes and counts are natural numbers, and \<open>ch_open_stream_count\<close> is an integer
  because the code subtracts from it.
\<close>

section \<open>Version chains\<close>

record version_chain =
  vc_entries :: "stored_version_record list"
  vc_versions :: "version_serial set"
  vc_operations :: "string \<rightharpoonup> nat"
  vc_latest :: "nat option"
  vc_append_count :: nat

definition chain_default :: version_chain where
  "chain_default =
     \<lparr>vc_entries = [], vc_versions = {}, vc_operations = Map.empty, vc_latest = None, vc_append_count = 0\<rparr>"

definition chain_latest :: "version_chain \<Rightarrow> stored_version_record option" where
  "chain_latest c = map_option (\<lambda>index. vc_entries c ! index) (vc_latest c)"

definition validate_incoming :: "version_chain \<Rightarrow> stored_version_record \<Rightarrow> unit result" where
  "validate_incoming c r =
     (case (case front_of (vc_entries c) of
              None \<Rightarrow> Inr ()
            | Some first \<Rightarrow> ensure_same_chain (svr_message first) (svr_message r)) of
        Inl e \<Rightarrow> Inl e
      | Inr _ \<Rightarrow>
          if svr_version_serial r \<in> vc_versions c
          then Inl (InvalidMessageFormat (''duplicate version_serial '' @ svr_version_serial r @ '' in version chain''))
          else Inr ())"

definition svr_operation :: "stored_version_record \<Rightarrow> publish_idempotency_metadata option" where
  "svr_operation r = (case svr_envelope r of None \<Rightarrow> None | Some env \<Rightarrow> env_idempotency env)"

definition chain_push :: "stored_version_record \<Rightarrow> version_chain \<Rightarrow> version_chain" where
  "chain_push r c =
     (let index = length (vc_entries c) in
      c\<lparr>vc_latest :=
          (case chain_latest c of
             None \<Rightarrow> Some index
           | Some lst \<Rightarrow> if svr_version_serial r > svr_version_serial lst then Some index else vc_latest c),
        vc_versions := insert (svr_version_serial r) (vc_versions c),
        vc_operations :=
          (case svr_operation r of
             None \<Rightarrow> vc_operations c
           | Some operation \<Rightarrow>
               (case vc_operations c (pim_cache_key operation) of
                  None \<Rightarrow> (vc_operations c)(pim_cache_key operation \<mapsto> index)
                | Some _ \<Rightarrow> vc_operations c)),
        vc_append_count := vc_append_count c + (if vm_action (svr_message r) = AAppend then 1 else 0),
        vc_entries := vc_entries c @ [r]\<rparr>)"

definition chain_remove :: "version_serial \<Rightarrow> version_chain \<Rightarrow> version_chain" where
  "chain_remove version c =
     fold (\<lambda>entry c. if svr_version_serial entry \<noteq> version then chain_push entry c else c)
       (vc_entries c)
       (c\<lparr>vc_entries := [], vc_versions := {}, vc_operations := Map.empty, vc_latest := None, vc_append_count := 0\<rparr>)"

definition chain_is_open :: "version_chain \<Rightarrow> bool" where
  "chain_is_open c = (case chain_latest c of None \<Rightarrow> False | Some entry \<Rightarrow> is_open_ai_stream entry)"

section \<open>Channels\<close>

record memory_version_channel =
  ch_stream_id :: string
  ch_next_delivery_serial :: u64
  ch_messages :: "(string, version_chain) btree"
  ch_open_stream_count :: int
  ch_replay :: "(u64, stored_version_record) btree"
  ch_created_at :: "(u64, i64) btree"

type_synonym memory_version_store = "(string, memory_version_channel) btree"

definition version_channel_default :: "string \<Rightarrow> memory_version_channel" where
  "version_channel_default uuid =
     \<lparr>ch_stream_id = uuid, ch_next_delivery_serial = 1, ch_messages = [], ch_open_stream_count = 0,
      ch_replay = [], ch_created_at = []\<rparr>"

definition version_channel_key :: "string \<Rightarrow> string \<Rightarrow> string" where
  "version_channel_key app_id channel = app_id @ CHR 0x00 # channel"

text \<open>\<^verbatim>\<open>channels.entry(key).or_default()\<close>.\<close>

definition version_channel_or_default :: "memory_version_store \<Rightarrow> string \<Rightarrow> string \<Rightarrow> memory_version_channel" where
  "version_channel_or_default s key uuid =
     (case bt_get s key of None \<Rightarrow> version_channel_default uuid | Some st \<Rightarrow> st)"

definition version_ensure_stream_id ::
    "memory_version_store \<Rightarrow> string \<Rightarrow> string \<Rightarrow> string \<Rightarrow> memory_version_store \<times> string result" where
  "version_ensure_stream_id s app_id channel uuid =
     (let key = version_channel_key app_id channel;
          st = version_channel_or_default s key uuid
      in (bt_insert key st s, Inr (ch_stream_id st)))"

definition reserve_delivery_position ::
    "memory_version_store \<Rightarrow> string \<Rightarrow> string \<Rightarrow> string \<Rightarrow> memory_version_store \<times> version_write_reservation result" where
  "reserve_delivery_position s app_id channel uuid =
     (let key = version_channel_key app_id channel;
          st = version_channel_or_default s key uuid
      in (bt_insert key (st\<lparr>ch_next_delivery_serial := sat_add (ch_next_delivery_serial st) 1\<rparr>) s,
          Inr \<lparr>vwr_stream_id = ch_stream_id st, vwr_delivery_serial = ch_next_delivery_serial st\<rparr>))"

definition reserve_delivery_positions ::
    "memory_version_store \<Rightarrow> string \<Rightarrow> string \<Rightarrow> u64 \<Rightarrow> string \<Rightarrow>
     memory_version_store \<times> version_write_reservation_block result" where
  "reserve_delivery_positions s app_id channel block_size uuid =
     (case reservation_block_validate block_size of
        Inl e \<Rightarrow> (s, Inl e)
      | Inr _ \<Rightarrow>
          (let key = version_channel_key app_id channel;
               st = version_channel_or_default s key uuid
           in (bt_insert key (st\<lparr>ch_next_delivery_serial := sat_add (ch_next_delivery_serial st) block_size\<rparr>) s,
               Inr \<lparr>vwb_stream_id = ch_stream_id st, vwb_start_delivery_serial = ch_next_delivery_serial st,
                    vwb_len = block_size\<rparr>)))"

section \<open>Writes\<close>

definition duplicate_delivery_text :: "stored_version_record \<Rightarrow> stored_version_record \<Rightarrow> string" where
  "duplicate_delivery_text existing r =
     ''duplicate delivery_serial '' @ show_u64 (svr_delivery_serial r) @ '' in version replay log for '' @
     svr_app_id r @ '':'' @ svr_channel r @ '' (existing message_serial '' @ svr_message_serial existing @
     '', incoming '' @ svr_message_serial r @ '')''"

definition of_flag :: "bool \<Rightarrow> int" where
  "of_flag b = (if b then 1 else 0)"

definition append_version_channel ::
    "memory_version_channel \<Rightarrow> stored_version_record \<Rightarrow> i64 \<Rightarrow> memory_version_channel \<times> unit result" where
  "append_version_channel st r now =
     (case bt_get (ch_replay st) (svr_delivery_serial r) of
        Some existing \<Rightarrow> (st, Inl (InvalidMessageFormat (duplicate_delivery_text existing r)))
      | None \<Rightarrow>
          (let message_serial = svr_message_serial r in
           case (case bt_get (ch_messages st) message_serial of
                   Some chain \<Rightarrow> validate_incoming chain r
                 | None \<Rightarrow> validate_version_chain [svr_message r]) of
             Inl e \<Rightarrow> (st, Inl e)
           | Inr _ \<Rightarrow>
               (let chain = (case bt_get (ch_messages st) message_serial of None \<Rightarrow> chain_default | Some c \<Rightarrow> c);
                    was_open = chain_is_open chain;
                    chain' = chain_push r chain;
                    is_open = chain_is_open chain'
                in (st\<lparr>ch_messages := bt_insert message_serial chain' (ch_messages st),
                       ch_open_stream_count := ch_open_stream_count st - of_flag was_open + of_flag is_open,
                       ch_created_at := bt_insert (svr_delivery_serial r) now (ch_created_at st),
                       ch_replay := bt_insert (svr_delivery_serial r) r (ch_replay st),
                       ch_next_delivery_serial :=
                         max (ch_next_delivery_serial st) (sat_add (svr_delivery_serial r) 1)\<rparr>, Inr ()))))"

definition append_version ::
    "memory_version_store \<Rightarrow> stored_version_record \<Rightarrow> string \<Rightarrow> i64 \<Rightarrow> memory_version_store \<times> unit result" where
  "append_version s r uuid now =
     (let key = version_channel_key (svr_app_id r) (svr_channel r);
          (st', res) = append_version_channel (version_channel_or_default s key uuid) r now
      in (bt_insert key st' s, res))"

text \<open>The part of \<^verbatim>\<open>commit_create\<close> after the admission checks.\<close>

definition commit_create_insert ::
    "memory_version_channel \<Rightarrow> stored_version_record \<Rightarrow> i64 \<Rightarrow>
     memory_version_channel \<times> version_create_result result" where
  "commit_create_insert st r now =
     (let delivery_serial = ch_next_delivery_serial st;
          record' = with_delivery_position r (ch_stream_id st) delivery_serial
      in case validate_version_chain [svr_message record'] of
           Inl e \<Rightarrow> (st, Inl e)
         | Inr _ \<Rightarrow>
             if bt_contains (ch_replay st) delivery_serial
             then (st, Inl (InvalidMessageFormat
                    (''duplicate delivery_serial '' @ show_u64 delivery_serial @ '' in version replay log'')))
             else (st\<lparr>ch_open_stream_count := ch_open_stream_count st + of_flag (is_open_ai_stream record'),
                      ch_messages := bt_insert (svr_message_serial record') (chain_push record' chain_default) (ch_messages st),
                      ch_created_at := bt_insert delivery_serial now (ch_created_at st),
                      ch_replay := bt_insert delivery_serial record' (ch_replay st),
                      ch_next_delivery_serial := sat_add delivery_serial 1\<rparr>,
                   Inr (CreateApplied record' (ch_stream_id st))))"

definition commit_create_channel ::
    "(message_data \<Rightarrow> string + bytes) \<Rightarrow> memory_version_channel \<Rightarrow> version_create_request \<Rightarrow> i64 \<Rightarrow>
     memory_version_channel \<times> version_create_result result" where
  "commit_create_channel to_vec st request now =
     (let r = vcr_record request; limits = vcr_limits request in
      case (case bt_get (ch_messages st) (svr_message_serial r) of None \<Rightarrow> None | Some c \<Rightarrow> chain_latest c) of
        Some current \<Rightarrow> (st, Inr (CreateConflict (Some current)))
      | None \<Rightarrow>
          (case (case vcl_max_accumulated_message_bytes limits of
                   None \<Rightarrow> Inr None
                 | Some l \<Rightarrow> (case data_bytes to_vec r of Inl e \<Rightarrow> Inl e | Inr n \<Rightarrow> Inr (if n > l then Some l else None))) of
             Inl e \<Rightarrow> (st, Inl e)
           | Inr (Some l) \<Rightarrow> (st, Inr (CreateRejected (CreateAccumulatedMessageBytes l)))
           | Inr None \<Rightarrow>
               (case (if is_open_ai_stream r then vcl_max_open_streaming_messages_per_channel limits else None) of
                  Some l \<Rightarrow>
                    if ch_open_stream_count st \<ge> int l
                    then (st, Inr (CreateRejected (CreateOpenStreamingMessages l)))
                    else commit_create_insert st r now
                | None \<Rightarrow> commit_create_insert st r now)))"

definition commit_create ::
    "(message_data \<Rightarrow> string + bytes) \<Rightarrow> memory_version_store \<Rightarrow> version_create_request \<Rightarrow> string \<Rightarrow> i64 \<Rightarrow>
     memory_version_store \<times> version_create_result result" where
  "commit_create to_vec s request uuid now =
     (let key = version_channel_key (svr_app_id (vcr_record request)) (svr_channel (vcr_record request));
          (st', res) = commit_create_channel to_vec (version_channel_or_default s key uuid) request now
      in (bt_insert key st' s, res))"

text \<open>
  \<^verbatim>\<open>compare_and_apply\<close>, in the order of the code: the idempotency receipt, the precondition and the
  limits on appends, then the new record, its limits, and the insertion.
\<close>

definition compare_and_apply_insert ::
    "memory_version_channel \<Rightarrow> version_chain \<Rightarrow> stored_version_record \<Rightarrow> stored_version_record \<Rightarrow>
     string \<Rightarrow> u64 \<Rightarrow> i64 \<Rightarrow> memory_version_channel \<times> version_mutation_result result" where
  "compare_and_apply_insert st chain current record' message_serial delivery_serial now =
     (case validate_incoming chain record' of
        Inl e \<Rightarrow> (st, Inl e)
      | Inr _ \<Rightarrow>
          if bt_contains (ch_replay st) delivery_serial
          then (st, Inl (InvalidMessageFormat
                 (''duplicate delivery_serial '' @ show_u64 delivery_serial @ '' in version replay log'')))
          else (st\<lparr>ch_open_stream_count := ch_open_stream_count st - of_flag (is_open_ai_stream current) +
                     of_flag (is_open_ai_stream record'),
                   ch_messages := bt_insert message_serial (chain_push record' chain) (ch_messages st),
                   ch_created_at := bt_insert delivery_serial now (ch_created_at st),
                   ch_replay := bt_insert delivery_serial record' (ch_replay st),
                   ch_next_delivery_serial := sat_add delivery_serial 1\<rparr>,
                Inr (MutApplied record' (ch_stream_id st))))"

definition compare_and_apply_record ::
    "(message_data \<Rightarrow> string + bytes) \<Rightarrow> (message_data \<Rightarrow> string + json) \<Rightarrow> memory_version_channel \<Rightarrow>
     version_chain \<Rightarrow> stored_version_record \<Rightarrow> version_mutation_request \<Rightarrow> u64 \<Rightarrow> i64 \<Rightarrow>
     memory_version_channel \<times> version_mutation_result result" where
  "compare_and_apply_record to_vec to_value st chain current request delivery_serial now =
     (let limits = vmr_limits request in
      case svr_apply_mutation to_value current request (ch_stream_id st) delivery_serial of
        Inl e \<Rightarrow> (st, Inl e)
      | Inr record' \<Rightarrow>
          (case (case vml_max_accumulated_message_bytes limits of
                   None \<Rightarrow> Inr None
                 | Some l \<Rightarrow>
                     (case data_bytes to_vec record' of Inl e \<Rightarrow> Inl e | Inr n \<Rightarrow> Inr (if n > l then Some l else None))) of
             Inl e \<Rightarrow> (st, Inl e)
           | Inr (Some l) \<Rightarrow> (st, Inr (MutRejected (AccumulatedMessageBytes l)))
           | Inr None \<Rightarrow>
               (case (if \<not> is_open_ai_stream current \<and> is_open_ai_stream record'
                      then vml_max_open_streaming_messages_per_channel limits else None) of
                  Some l \<Rightarrow>
                    if ch_open_stream_count st \<ge> int l then (st, Inr (MutRejected (OpenStreamingMessages l)))
                    else compare_and_apply_insert st chain current record' (vmr_message_serial request) delivery_serial now
                | None \<Rightarrow>
                    compare_and_apply_insert st chain current record' (vmr_message_serial request) delivery_serial now)))"

definition compare_and_apply_current ::
    "(message_data \<Rightarrow> string + bytes) \<Rightarrow> (message_data \<Rightarrow> string + json) \<Rightarrow> memory_version_channel \<Rightarrow>
     version_chain \<Rightarrow> stored_version_record \<Rightarrow> version_mutation_request \<Rightarrow> i64 \<Rightarrow>
     memory_version_channel \<times> version_mutation_result result" where
  "compare_and_apply_current to_vec to_value st chain current request now =
     (let limits = vmr_limits request;
          is_append = (case vmr_mutation request of MutAppend _ \<Rightarrow> True | _ \<Rightarrow> False);
          delivery_serial = max (ch_next_delivery_serial st) (sat_add (svr_delivery_serial current) 1) in
      if \<not> precondition_matches (vmr_expected request) current then (st, Inr (MutConflict (Some current)))
      else if is_append \<and> vml_reject_append_after_terminal limits \<and> is_terminal current
      then (st, Inr (MutRejected TerminalMessage))
      else case (if is_append then vml_max_appends_per_message limits else None) of
        Some l \<Rightarrow>
          if vc_append_count chain \<ge> l then (st, Inr (MutRejected (AppendCount l)))
          else compare_and_apply_record to_vec to_value st chain current request delivery_serial now
      | None \<Rightarrow> compare_and_apply_record to_vec to_value st chain current request delivery_serial now)"

definition compare_and_apply_channel ::
    "(message_data \<Rightarrow> string + bytes) \<Rightarrow> (message_data \<Rightarrow> string + json) \<Rightarrow> memory_version_channel \<Rightarrow>
     version_mutation_request \<Rightarrow> i64 \<Rightarrow> memory_version_channel \<times> version_mutation_result result" where
  "compare_and_apply_channel to_vec to_value st request now =
     (case bt_get (ch_messages st) (vmr_message_serial request) of
        None \<Rightarrow> (st, Inr (MutConflict None))
      | Some chain \<Rightarrow>
          (case (case vmr_idempotency request of
                   None \<Rightarrow> None
                 | Some incoming \<Rightarrow>
                     map_option (\<lambda>index. (incoming, vc_entries chain ! index))
                       (vc_operations chain (pim_cache_key incoming))) of
             Some (incoming, existing) \<Rightarrow>
               (case svr_operation existing of
                  None \<Rightarrow> (st, Inl (Internal ''matched mutation idempotency record disappeared during lookup''))
                | Some existing_idempotency \<Rightarrow>
                    if pim_payload_fingerprint existing_idempotency \<noteq> pim_payload_fingerprint incoming
                    then (st, Inl IdempotencyConflict)
                    else (st, Inr (MutDuplicate existing (ch_stream_id st))))
           | None \<Rightarrow>
               (case chain_latest chain of
                  None \<Rightarrow> (st, Inl (InvalidMessageFormat ''version chain must not be empty''))
                | Some current \<Rightarrow> compare_and_apply_current to_vec to_value st chain current request now)))"

definition compare_and_apply ::
    "(message_data \<Rightarrow> string + bytes) \<Rightarrow> (message_data \<Rightarrow> string + json) \<Rightarrow> memory_version_store \<Rightarrow>
     version_mutation_request \<Rightarrow> i64 \<Rightarrow> memory_version_store \<times> version_mutation_result result" where
  "compare_and_apply to_vec to_value s request now =
     (let key = version_channel_key (vmr_app_id request) (vmr_channel request) in
      case bt_get s key of
        None \<Rightarrow> (s, Inr (MutConflict None))
      | Some st \<Rightarrow>
          (case compare_and_apply_channel to_vec to_value st request now of
             (st', res) \<Rightarrow> (bt_insert key st' s, res)))"

section \<open>Reads\<close>

definition version_get_latest ::
    "memory_version_store \<Rightarrow> string \<Rightarrow> string \<Rightarrow> message_serial \<Rightarrow> stored_version_record option result" where
  "version_get_latest s app_id channel message_serial =
     (case bt_get s (version_channel_key app_id channel) of
        None \<Rightarrow> Inr None
      | Some st \<Rightarrow>
          (case bt_get (ch_messages st) message_serial of
             None \<Rightarrow> Inr None
           | Some chain \<Rightarrow>
               (case chain_latest chain of
                  None \<Rightarrow> Inl (InvalidMessageFormat ''version chain must not be empty'')
                | Some r \<Rightarrow> Inr (Some r))))"

text \<open>
  \<^verbatim>\<open>get_latest_batch\<close>: the requested serials form a \<^verbatim>\<open>BTreeSet\<close>, those with a chain are read in
  its order, and the first error ends the collection.
\<close>

fun collect_latest :: "(message_serial \<times> version_chain) list \<Rightarrow> (message_serial, stored_version_record) btree result" where
  "collect_latest [] = Inr []"
| "collect_latest ((message_serial, chain) # rest) =
     (case chain_latest chain of
        None \<Rightarrow> Inl (InvalidMessageFormat ''version chain must not be empty'')
      | Some r \<Rightarrow>
          (case collect_latest rest of Inl e \<Rightarrow> Inl e | Inr m \<Rightarrow> Inr (bt_insert message_serial r m)))"

definition version_get_latest_batch ::
    "memory_version_store \<Rightarrow> string \<Rightarrow> string \<Rightarrow> message_serial list \<Rightarrow>
     (message_serial, stored_version_record) btree result" where
  "version_get_latest_batch s app_id channel message_serials =
     (if message_serials = [] then Inr []
      else case bt_get s (version_channel_key app_id channel) of
        None \<Rightarrow> Inr []
      | Some st \<Rightarrow>
          collect_latest (List.map_filter (\<lambda>m. map_option (Pair m) (bt_get (ch_messages st) m))
            (sort (remdups message_serials))))"

definition version_items :: "version_chain \<Rightarrow> version_direction \<Rightarrow> stored_version_record list" where
  "version_items chain direction =
     (let items = sort_key svr_version_serial (vc_entries chain)
      in case direction of VNewestFirst \<Rightarrow> rev items | VOldestFirst \<Rightarrow> items)"

definition version_beyond :: "version_direction \<Rightarrow> version_cursor option \<Rightarrow> stored_version_record \<Rightarrow> bool" where
  "version_beyond direction cursor item =
     (case cursor of
        None \<Rightarrow> True
      | Some c \<Rightarrow>
          (case direction of
             VNewestFirst \<Rightarrow> svr_version_serial item < vcur_version_serial c
           | VOldestFirst \<Rightarrow> svr_version_serial item > vcur_version_serial c))"

definition version_page_of :: "version_chain \<Rightarrow> version_read_request \<Rightarrow> version_page" where
  "version_page_of chain request =
     (let filtered = take (unat (vrr_limit request + 1))
            (filter (version_beyond (vrr_direction request) (vrr_cursor request))
              (version_items chain (vrr_direction request)));
          has_more = length filtered > unat (vrr_limit request);
          items = take (unat (vrr_limit request)) filtered
      in \<lparr>vpg_items = items,
          vpg_next_cursor =
            (if has_more
             then map_option (\<lambda>item. \<lparr>vcur_version = 1, vcur_version_serial = svr_version_serial item,
                                     vcur_direction = vrr_direction request\<rparr>) (back_of items)
             else None),
          vpg_has_more = has_more\<rparr>)"

definition get_versions :: "memory_version_store \<Rightarrow> version_read_request \<Rightarrow> version_page result" where
  "get_versions s request =
     (case version_read_validate request of
        Inl e \<Rightarrow> Inl e
      | Inr _ \<Rightarrow>
          (case (case bt_get s (version_channel_key (vrr_app_id request) (vrr_channel request)) of
                   None \<Rightarrow> None
                 | Some st \<Rightarrow> bt_get (ch_messages st) (vrr_message_serial request)) of
             None \<Rightarrow> Inr \<lparr>vpg_items = [], vpg_next_cursor = None, vpg_has_more = False\<rparr>
           | Some chain \<Rightarrow> Inr (version_page_of chain request)))"

definition version_replay_after ::
    "memory_version_store \<Rightarrow> version_replay_request \<Rightarrow> stored_version_record list result" where
  "version_replay_after s request =
     (case version_replay_validate request of
        Inl e \<Rightarrow> Inl e
      | Inr _ \<Rightarrow>
          (case bt_get s (version_channel_key (vrp_app_id request) (vrp_channel request)) of
             None \<Rightarrow> Inr []
           | Some st \<Rightarrow>
               (let stored_items = take (unat (vrp_limit request))
                      (bt_values (bt_from (sat_add (vrp_after_delivery_serial request) 1) (ch_replay st)))
                in case validate_replay_continuity (map svr_message stored_items) (vrp_after_delivery_serial request) of
                     Inl e \<Rightarrow> Inl e
                   | Inr _ \<Rightarrow> Inr stored_items)))"

definition latest_by_history ::
    "memory_version_store \<Rightarrow> string \<Rightarrow> string \<Rightarrow> stored_version_record list result" where
  "latest_by_history s app_id channel =
     (case bt_get s (version_channel_key app_id channel) of
        None \<Rightarrow> Inr []
      | Some st \<Rightarrow> Inr (sort_key svr_history_serial (List.map_filter chain_latest (bt_values (ch_messages st)))))"

definition version_stream_state_of ::
    "memory_version_store \<Rightarrow> string \<Rightarrow> string \<Rightarrow> version_stream_state result" where
  "version_stream_state_of s app_id channel =
     (case bt_get s (version_channel_key app_id channel) of
        None \<Rightarrow> Inr \<lparr>vss_stream_id = None, vss_next_delivery_serial = None,
                     vss_oldest_available_delivery_serial = None, vss_newest_available_delivery_serial = None\<rparr>
      | Some st \<Rightarrow>
          Inr \<lparr>vss_stream_id = Some (ch_stream_id st),
               vss_next_delivery_serial = Some (ch_next_delivery_serial st),
               vss_oldest_available_delivery_serial = map_option fst (front_of (ch_replay st)),
               vss_newest_available_delivery_serial = map_option fst (back_of (ch_replay st))\<rparr>)"

section \<open>Purge\<close>

text \<open>The loop that picks the serials to remove, with its \<^verbatim>\<open>has_more\<close> flag.\<close>

fun purge_select :: "i64 \<Rightarrow> nat \<Rightarrow> u64 list \<Rightarrow> (u64, i64) btree \<Rightarrow> u64 list \<times> bool" where
  "purge_select before_ms remaining to_remove [] = (to_remove, False)"
| "purge_select before_ms remaining to_remove ((delivery_serial, created_ms) # rest) =
     (if created_ms \<ge> before_ms then (to_remove, False)
      else if length to_remove \<ge> remaining then (to_remove, True)
      else purge_select before_ms remaining (to_remove @ [delivery_serial]) rest)"

definition purge_record :: "memory_version_channel \<Rightarrow> stored_version_record \<Rightarrow> memory_version_channel" where
  "purge_record st r =
     (case bt_get (ch_messages st) (svr_message_serial r) of
        None \<Rightarrow> st
      | Some chain \<Rightarrow>
          (let chain' = chain_remove (svr_version_serial r) chain in
           st\<lparr>ch_open_stream_count :=
                 ch_open_stream_count st - of_flag (chain_is_open chain) + of_flag (chain_is_open chain'),
              ch_messages :=
                 (if vc_entries chain' = [] then bt_remove (svr_message_serial r) (ch_messages st)
                  else bt_insert (svr_message_serial r) chain' (ch_messages st))\<rparr>))"

definition purge_one :: "u64 \<Rightarrow> memory_version_channel \<times> nat \<Rightarrow> memory_version_channel \<times> nat" where
  "purge_one delivery_serial std =
     (let (st, deleted) = std;
          st1 = st\<lparr>ch_created_at := bt_remove delivery_serial (ch_created_at st)\<rparr>
      in case bt_get (ch_replay st1) delivery_serial of
           None \<Rightarrow> (st1, deleted)
         | Some r \<Rightarrow>
             (purge_record (st1\<lparr>ch_replay := bt_remove delivery_serial (ch_replay st1)\<rparr>) r, Suc deleted))"

fun purge_channels ::
    "i64 \<Rightarrow> nat \<Rightarrow> nat \<Rightarrow> bool \<Rightarrow> memory_version_store \<Rightarrow> memory_version_store \<times> nat \<times> bool" where
  "purge_channels before_ms batch_size deleted has_more [] = ([], deleted, has_more)"
| "purge_channels before_ms batch_size deleted has_more ((key, st) # rest) =
     (let remaining = batch_size - deleted in
      if remaining = 0 then ((key, st) # rest, deleted, True)
      else
        (let (to_remove, over) = purge_select before_ms remaining [] (ch_created_at st);
             (st', deleted') = fold purge_one to_remove (st, deleted);
             has_more' = (has_more \<or> over \<or>
               (case front_of (ch_created_at st') of None \<Rightarrow> False | Some (_, ts) \<Rightarrow> ts < before_ms));
             (rest', result) = purge_channels before_ms batch_size deleted' has_more' rest
         in ((key, st') # rest', result)))"

definition version_purge_before ::
    "memory_version_store \<Rightarrow> i64 \<Rightarrow> nat \<Rightarrow> memory_version_store \<times> (nat \<times> bool) result" where
  "version_purge_before s before_ms batch_size =
     (if batch_size = 0 then (s, Inr (0, False))
      else case purge_channels before_ms batch_size 0 False s of (s', result) \<Rightarrow> (s', Inr result))"

section \<open>Chains are rebuilt from their entries\<close>

text \<open>
  The specification of the indexes: whatever sequence of pushes and removals made a chain, it is
  the chain that pushing its entries in order builds, and each index is what it indexes.
\<close>

definition chain_of :: "stored_version_record list \<Rightarrow> version_chain" where
  "chain_of es = fold chain_push es chain_default"

definition operation_key :: "stored_version_record \<Rightarrow> string option" where
  "operation_key r = map_option pim_cache_key (svr_operation r)"

lemma chain_push_entries [simp]: "vc_entries (chain_push r c) = vc_entries c @ [r]"
  by (simp add: chain_push_def Let_def)

lemma chain_of_Nil [simp]: "chain_of [] = chain_default"
  by (simp add: chain_of_def)

lemma chain_of_snoc: "chain_of (es @ [r]) = chain_push r (chain_of es)"
  by (simp add: chain_of_def)

lemma chain_default_simps [simp]:
  "vc_entries chain_default = []" "vc_versions chain_default = {}" "vc_operations chain_default = Map.empty"
  "vc_latest chain_default = None" "vc_append_count chain_default = 0" "chain_latest chain_default = None"
  "chain_is_open chain_default = False"
  by (simp_all add: chain_default_def chain_latest_def chain_is_open_def)

lemma chain_of_entries [simp]: "vc_entries (chain_of es) = es"
  by (induction es rule: rev_induct) (simp_all add: chain_of_snoc)

lemma fold_push_filter:
  "fold (\<lambda>e c. if P e then chain_push e c else c) es c = fold chain_push (filter P es) c"
  by (induction es arbitrary: c) simp_all

lemma chain_remove_eq:
  "chain_remove v c = chain_of (filter (\<lambda>e. svr_version_serial e \<noteq> v) (vc_entries c))"
proof -
  have "c\<lparr>vc_entries := [], vc_versions := {}, vc_operations := Map.empty, vc_latest := None, vc_append_count := 0\<rparr>
    = chain_default"
    by (simp add: chain_default_def)
  then show ?thesis
    unfolding chain_remove_def chain_of_def fold_push_filter by (rule arg_cong)
qed

lemma chain_of_versions [simp]: "vc_versions (chain_of es) = svr_version_serial ` set es"
  by (induction es rule: rev_induct) (simp_all add: chain_of_snoc chain_push_def Let_def)

lemma chain_of_append_count:
  "vc_append_count (chain_of es) = length (filter (\<lambda>e. vm_action (svr_message e) = AAppend) es)"
  by (induction es rule: rev_induct) (simp_all add: chain_of_snoc chain_push_def Let_def)

lemma chain_of_latest_index:
  "case vc_latest (chain_of es) of
     None \<Rightarrow> es = []
   | Some i \<Rightarrow> i < length es \<and> (\<forall>e \<in> set es. svr_version_serial e \<le> svr_version_serial (es ! i))"
proof (induction es rule: rev_induct)
  case (snoc r es)
  then show ?case
    by (auto simp: chain_of_snoc chain_push_def chain_latest_def Let_def nth_append
        split: option.splits if_splits intro: order_trans less_imp_le)
qed simp

lemma chain_of_latest:
  assumes "distinct (map svr_version_serial es)"
  shows "chain_latest (chain_of es) = Some r \<longleftrightarrow>
    r \<in> set es \<and> (\<forall>e \<in> set es. svr_version_serial e \<le> svr_version_serial r)"
proof (cases "vc_latest (chain_of es)")
  case None
  then show ?thesis using chain_of_latest_index [of es] by (simp add: chain_latest_def)
next
  case (Some i)
  with chain_of_latest_index [of es] have i: "i < length es"
    "\<forall>e \<in> set es. svr_version_serial e \<le> svr_version_serial (es ! i)" by simp_all
  have "r = es ! i" if r: "r \<in> set es" "\<forall>e \<in> set es. svr_version_serial e \<le> svr_version_serial r"
  proof -
    have "svr_version_serial r = svr_version_serial (es ! i)" using i r by (metis nth_mem order_antisym)
    then show ?thesis using assms r(1) i(1) by (metis distinct_map inj_on_eq_iff nth_mem)
  qed
  with i Some show ?thesis by (auto simp: chain_latest_def)
qed

lemma chain_of_latest_None [simp]: "chain_latest (chain_of es) = None \<longleftrightarrow> es = []"
  using chain_of_latest_index [of es] by (auto simp: chain_latest_def split: option.splits)

text \<open>The receipt index holds, for each key, the first entry that carries it.\<close>

lemma chain_of_operations_index:
  "case vc_operations (chain_of es) k of
     None \<Rightarrow> \<forall>e \<in> set es. operation_key e \<noteq> Some k
   | Some i \<Rightarrow> i < length es \<and> operation_key (es ! i) = Some k \<and> (\<forall>j < i. operation_key (es ! j) \<noteq> Some k)"
proof (induction es rule: rev_induct)
  case (snoc r es)
  have "vc_operations (chain_of (es @ [r])) k =
    (case vc_operations (chain_of es) k of
       Some i \<Rightarrow> Some i | None \<Rightarrow> if operation_key r = Some k then Some (length es) else None)"
    by (auto simp: chain_of_snoc chain_push_def Let_def operation_key_def split: option.splits)
  with snoc.IH show ?case by (auto simp: nth_append split: option.splits)
qed simp

lemma chain_of_operations_None:
  "vc_operations (chain_of es) k = None \<longleftrightarrow> (\<forall>e \<in> set es. operation_key e \<noteq> Some k)"
  using chain_of_operations_index [of es k] by (auto split: option.splits)

lemma chain_of_operations_Some:
  assumes "vc_operations (chain_of es) k = Some i"
  shows "i < length es" "operation_key (es ! i) = Some k" "\<And>j. j < i \<Longrightarrow> operation_key (es ! j) \<noteq> Some k"
  using assms chain_of_operations_index [of es k] by simp_all

lemma chain_of_operations_append:
  assumes "vc_operations (chain_of es) k = Some i"
  shows "vc_operations (chain_of (es @ es')) k = Some i"
proof -
  note i = chain_of_operations_Some [OF assms]
  then have "es ! i \<in> set (es @ es')" by simp
  with i(2) obtain j where j: "vc_operations (chain_of (es @ es')) k = Some j"
    using chain_of_operations_None [of "es @ es'" k] by fastforce
  note j' = chain_of_operations_Some [OF j]
  have "j = i"
  proof (cases i j rule: linorder_cases)
    case less
    with j'(3) [OF less] i show ?thesis by (simp add: nth_append)
  next
    case greater
    with i(3) [OF greater] i(1) j'(2) show ?thesis by (simp add: nth_append)
  qed simp
  with j show ?thesis by simp
qed

text \<open>The latest entry is the version that the selection over the whole chain makes visible.\<close>

lemma chain_of_latest_visible:
  assumes "distinct (map svr_version_serial es)" and "es \<noteq> []"
    and "\<forall>e \<in> set es. svr_message_serial e = svr_message_serial (hd es) \<and> svr_history_serial e = svr_history_serial (hd es)"
  shows "\<exists>r. chain_latest (chain_of es) = Some r \<and> select_latest_visible (map svr_message es) = Inr (svr_message r)"
proof -
  from assms(2) obtain e0 es0 where es: "es = e0 # es0" by (cases es) auto
  with assms(3) select_latest_from_total [of "map svr_message es0" "svr_message e0"]
  obtain m where m: "select_latest_from (svr_message e0) (svr_message e0) (map svr_message es0) = Inr m"
    by auto
  with select_latest_from_Inr [OF m] es obtain r where
    "r \<in> set es" "m = svr_message r" "\<forall>e \<in> set es. svr_version_serial e \<le> svr_version_serial r"
    by auto
  with chain_of_latest [OF assms(1), of r] m es show ?thesis
    by (auto simp: select_latest_visible_def)
qed

end
