(* ===== verification/Version_Invariant.thy ===== *)
theory Version_Invariant
  imports Version_Store
begin

text \<open>
  The invariant of the in-memory version store and its preservation: every chain is the one its
  entries build, has pairwise distinct versions of one message, and is never empty; the replay
  log holds exactly the entries of the chains under their delivery serials; the next serial is
  above all of them; and the counter of open streams counts the open chains.
\<close>

section \<open>Counting in sorted maps\<close>

definition bt_count :: "('v \<Rightarrow> bool) \<Rightarrow> ('k, 'v) btree \<Rightarrow> int" where
  "bt_count P m = int (length (filter (\<lambda>p. P (snd p)) m))"

lemma of_flag_simps [simp]: "of_flag True = 1" "of_flag False = 0"
  by (simp_all add: of_flag_def)

lemma bt_count_nonneg [simp]: "0 \<le> bt_count P m"
  by (simp add: bt_count_def)

lemma bt_count_insert:
  "bt_wf m \<Longrightarrow> bt_count P (bt_insert k v m) =
     bt_count P m - (case bt_get m k of None \<Rightarrow> 0 | Some v' \<Rightarrow> of_flag (P v')) + of_flag (P v)"
proof (induction m)
  case (Cons p m)
  have "k < fst p \<Longrightarrow> bt_get m k = None"
    using Cons.prems by (auto simp: bt_wf_Cons bt_get_None_iff)
  with Cons show ?case
    by (auto simp: bt_count_def of_flag_def bt_wf_Cons split: option.splits)
qed (simp add: bt_count_def of_flag_def)

lemma bt_count_remove:
  "bt_wf m \<Longrightarrow> bt_count P (bt_remove k m) =
     bt_count P m - (case bt_get m k of None \<Rightarrow> 0 | Some v' \<Rightarrow> of_flag (P v'))"
proof (induction m)
  case (Cons p m)
  have "bt_remove k m = m \<and> bt_get m k = None" if "fst p = k"
    using Cons.prems that by (fastforce simp: bt_wf_Cons bt_get_None_iff bt_remove_def filter_id_conv)
  with Cons show ?case
    by (auto simp: bt_count_def of_flag_def bt_wf_Cons bt_remove_def split: option.splits)
qed (simp add: bt_count_def bt_remove_def)

lemma bt_insert_same_keys:
  "map fst a = map fst b \<Longrightarrow> map fst (bt_insert k v a) = map fst (bt_insert k w b)"
proof (induction a arbitrary: b)
  case (Cons p a)
  then obtain q b' where "b = q # b'" "fst q = fst p" "map fst a = map fst b'" by (cases b) auto
  with Cons.IH [of b'] show ?case by simp
qed simp

lemma bt_remove_keys: "map fst (bt_remove k m) = filter (\<lambda>x. x \<noteq> k) (map fst m)"
  by (simp add: bt_remove_def filter_map comp_def)

section \<open>The invariant\<close>

definition chain_ok :: "version_chain \<Rightarrow> bool" where
  "chain_ok c \<longleftrightarrow>
     chain_of (vc_entries c) = c \<and> vc_entries c \<noteq> [] \<and> distinct (map svr_version_serial (vc_entries c)) \<and>
     (\<forall>e \<in> set (vc_entries c). svr_message_serial e = svr_message_serial (hd (vc_entries c)) \<and>
        svr_history_serial e = svr_history_serial (hd (vc_entries c)))"

definition replay_entries_ok :: "memory_version_channel \<Rightarrow> bool" where
  "replay_entries_ok st \<longleftrightarrow>
     (\<forall>d r. bt_get (ch_replay st) d = Some r \<longrightarrow>
        svr_delivery_serial r = d \<and> sat_add d 1 \<le> ch_next_delivery_serial st \<and>
        (\<exists>c. bt_get (ch_messages st) (svr_message_serial r) = Some c \<and> r \<in> set (vc_entries c)))"

definition chains_ok :: "memory_version_channel \<Rightarrow> bool" where
  "chains_ok st \<longleftrightarrow>
     (\<forall>m c. bt_get (ch_messages st) m = Some c \<longrightarrow>
        chain_ok c \<and> (\<forall>e \<in> set (vc_entries c).
          svr_message_serial e = m \<and> bt_get (ch_replay st) (svr_delivery_serial e) = Some e))"

definition version_channel_ok :: "memory_version_channel \<Rightarrow> bool" where
  "version_channel_ok st \<longleftrightarrow>
     bt_wf (ch_messages st) \<and> bt_wf (ch_replay st) \<and> bt_wf (ch_created_at st) \<and>
     map fst (ch_created_at st) = map fst (ch_replay st) \<and>
     chains_ok st \<and> replay_entries_ok st \<and>
     ch_open_stream_count st = bt_count chain_is_open (ch_messages st)"

definition version_store_ok :: "memory_version_store \<Rightarrow> bool" where
  "version_store_ok s \<longleftrightarrow> bt_wf s \<and> (\<forall>k st. bt_get s k = Some st \<longrightarrow> version_channel_ok st)"

lemma chain_ok_latest:
  assumes "chain_ok c"
  shows "chain_latest c = Some r \<longleftrightarrow>
    r \<in> set (vc_entries c) \<and> (\<forall>e \<in> set (vc_entries c). svr_version_serial e \<le> svr_version_serial r)"
  using assms chain_of_latest [of "vc_entries c" r] by (simp add: chain_ok_def)

lemma chain_ok_latest_ex: "chain_ok c \<Longrightarrow> \<exists>r. chain_latest c = Some r"
  using chain_of_latest_None [of "vc_entries c"] by (simp add: chain_ok_def)

lemma chain_ok_push:
  assumes "c = chain_default \<or> chain_ok c" and "validate_incoming c r = Inr u"
  shows "chain_ok (chain_push r c)"
proof (cases "vc_entries c")
  case Nil
  with assms(1) have "c = chain_default" by (auto simp: chain_ok_def)
  moreover have "chain_push r chain_default = chain_of [r]" by (simp add: chain_of_def)
  ultimately show ?thesis by (simp add: chain_ok_def)
next
  case (Cons e es)
  with assms(1) have ok: "chain_ok c" by (auto simp: chain_ok_def)
  then have "chain_of (vc_entries c @ [r]) = chain_push r c"
    by (simp add: chain_ok_def chain_of_snoc)
  moreover have "vc_versions c = svr_version_serial ` set (vc_entries c)"
    using ok chain_of_versions [of "vc_entries c"] by (simp add: chain_ok_def)
  moreover have "svr_message_serial r = svr_message_serial e \<and> svr_history_serial r = svr_history_serial e"
    "svr_version_serial r \<notin> vc_versions c"
    using assms(2) Cons ensure_same_chain_Inr [of "svr_message e" "svr_message r"]
    by (auto simp: validate_incoming_def split: sum.splits if_splits)
  ultimately show ?thesis
    using ok Cons by (simp add: chain_ok_def eq_commute [of "svr_version_serial e" "svr_version_serial r"])
qed

lemma validate_incoming_default [simp]: "validate_incoming chain_default r = Inr ()"
  by (simp add: validate_incoming_def)

lemma validate_version_chain_single [simp]: "validate_version_chain [m] = Inr ()"
  by (simp add: validate_version_chain_def)

text \<open>The update that every write ends with.\<close>

lemma version_channel_ok_push:
  assumes ok: "version_channel_ok st"
    and c: "c = (case bt_get (ch_messages st) (svr_message_serial r) of None \<Rightarrow> chain_default | Some c \<Rightarrow> c)"
    and valid: "validate_incoming c r = Inr u"
    and fresh: "bt_get (ch_replay st) (svr_delivery_serial r) = None"
    and next_serial: "sat_add (svr_delivery_serial r) 1 \<le> n" "ch_next_delivery_serial st \<le> n"
    and st': "ch_messages st' = bt_insert (svr_message_serial r) (chain_push r c) (ch_messages st)"
      "ch_open_stream_count st' =
         ch_open_stream_count st - of_flag (chain_is_open c) + of_flag (chain_is_open (chain_push r c))"
      "ch_created_at st' = bt_insert (svr_delivery_serial r) now (ch_created_at st)"
      "ch_replay st' = bt_insert (svr_delivery_serial r) r (ch_replay st)"
      "ch_next_delivery_serial st' = n"
  shows "version_channel_ok st'"
proof -
  let ?m = "svr_message_serial r" and ?d = "svr_delivery_serial r"
  have chains: "chains_ok st" and replay: "replay_entries_ok st" and wf: "bt_wf (ch_messages st)"
    using ok by (simp_all add: version_channel_ok_def)
  have old: "c = chain_default \<or> chain_ok c"
    using c chains by (auto simp: chains_ok_def split: option.splits)
  have entries: "svr_message_serial e = ?m \<and> bt_get (ch_replay st) (svr_delivery_serial e) = Some e"
    if "e \<in> set (vc_entries c)" for e
    using that c chains by (auto simp: chains_ok_def split: option.splits)
  have "chains_ok st'"
    unfolding chains_ok_def
  proof (intro allI impI)
    fix m c' assume get: "bt_get (ch_messages st') m = Some c'"
    show "chain_ok c' \<and> (\<forall>e \<in> set (vc_entries c').
      svr_message_serial e = m \<and> bt_get (ch_replay st') (svr_delivery_serial e) = Some e)"
    proof (cases "m = ?m")
      case True
      with get have "c' = chain_push r c" by (simp add: bt_get_insert st')
      moreover have "svr_delivery_serial e \<noteq> ?d" if "e \<in> set (vc_entries c)" for e
        using entries [OF that] fresh by force
      ultimately show ?thesis
        using True chain_ok_push [OF old valid] entries by (simp add: bt_get_insert st')
    next
      case False
      with get chains have "chain_ok c'" and e: "\<And>e. e \<in> set (vc_entries c') \<Longrightarrow>
          svr_message_serial e = m \<and> bt_get (ch_replay st) (svr_delivery_serial e) = Some e"
        by (simp_all add: chains_ok_def bt_get_insert st')
      moreover have "svr_delivery_serial e \<noteq> ?d" if "e \<in> set (vc_entries c')" for e
        using e [OF that] fresh by force
      ultimately show ?thesis by (simp add: bt_get_insert st')
    qed
  qed
  moreover have "replay_entries_ok st'"
    unfolding replay_entries_ok_def
  proof (intro allI impI)
    fix d r' assume get: "bt_get (ch_replay st') d = Some r'"
    show "svr_delivery_serial r' = d \<and> sat_add d 1 \<le> ch_next_delivery_serial st' \<and>
      (\<exists>c. bt_get (ch_messages st') (svr_message_serial r') = Some c \<and> r' \<in> set (vc_entries c))"
    proof (cases "d = ?d")
      case True
      with get next_serial show ?thesis by (simp add: bt_get_insert st')
    next
      case False
      with get have "bt_get (ch_replay st) d = Some r'" by (simp add: bt_get_insert st')
      with replay obtain c' where c': "svr_delivery_serial r' = d" "sat_add d 1 \<le> ch_next_delivery_serial st"
        "bt_get (ch_messages st) (svr_message_serial r') = Some c'" "r' \<in> set (vc_entries c')"
        unfolding replay_entries_ok_def by blast
      have "\<exists>c. bt_get (ch_messages st') (svr_message_serial r') = Some c \<and> r' \<in> set (vc_entries c)"
        using c c' by (cases "svr_message_serial r' = ?m") (simp_all add: bt_get_insert st')
      with c' next_serial order_trans show ?thesis by (simp add: st')
    qed
  qed
  moreover have "ch_open_stream_count st' = bt_count chain_is_open (ch_messages st')"
    using ok c by (simp add: st' version_channel_ok_def bt_count_insert split: option.splits)
  moreover have "map fst (ch_created_at st') = map fst (ch_replay st')"
    using ok by (simp add: st' version_channel_ok_def bt_insert_same_keys [of "ch_created_at st" "ch_replay st" _ _ r])
  ultimately show ?thesis
    using ok by (simp add: st' version_channel_ok_def)
qed

section \<open>Writes keep the invariant\<close>

lemma version_channel_ok_default [simp]: "version_channel_ok (version_channel_default uuid)"
  by (simp add: version_channel_ok_def version_channel_default_def chains_ok_def replay_entries_ok_def bt_count_def)

lemma version_channel_ok_raise:
  assumes "version_channel_ok st" and "ch_next_delivery_serial st \<le> n"
  shows "version_channel_ok (st\<lparr>ch_next_delivery_serial := n\<rparr>)"
proof -
  have "replay_entries_ok (st\<lparr>ch_next_delivery_serial := n\<rparr>)"
    using assms by (fastforce simp: version_channel_ok_def replay_entries_ok_def intro: order_trans)
  with assms show ?thesis by (simp add: version_channel_ok_def chains_ok_def)
qed

lemma append_version_channel_ok:
  assumes ok: "version_channel_ok st" and step: "append_version_channel st r now = (st', res)"
  shows "version_channel_ok st'"
proof -
  let ?c = "case bt_get (ch_messages st) (svr_message_serial r) of None \<Rightarrow> chain_default | Some c \<Rightarrow> c"
  show ?thesis
  proof (cases "bt_get (ch_replay st) (svr_delivery_serial r) = None \<and> validate_incoming ?c r = Inr ()")
    case True
    then have "st' = st\<lparr>ch_messages := bt_insert (svr_message_serial r) (chain_push r ?c) (ch_messages st),
      ch_open_stream_count := ch_open_stream_count st - of_flag (chain_is_open ?c) + of_flag (chain_is_open (chain_push r ?c)),
      ch_created_at := bt_insert (svr_delivery_serial r) now (ch_created_at st),
      ch_replay := bt_insert (svr_delivery_serial r) r (ch_replay st),
      ch_next_delivery_serial := max (ch_next_delivery_serial st) (sat_add (svr_delivery_serial r) 1)\<rparr>"
      using step by (auto simp: append_version_channel_def Let_def split: option.splits)
    with True show ?thesis
      by (intro version_channel_ok_push [OF ok refl, of r]) simp_all
  next
    case False
    then have "st' = st"
      using step by (auto simp: append_version_channel_def Let_def split: option.splits sum.splits)
    with ok show ?thesis by simp
  qed
qed

lemma with_delivery_position_simps [simp]:
  "svr_message_serial (with_delivery_position r sid d) = svr_message_serial r"
  "svr_history_serial (with_delivery_position r sid d) = svr_history_serial r"
  "svr_version_serial (with_delivery_position r sid d) = svr_version_serial r"
  "svr_delivery_serial (with_delivery_position r sid d) = d"
  "is_open_ai_stream (with_delivery_position r sid d) = is_open_ai_stream r"
  "svr_app_id (with_delivery_position r sid d) = svr_app_id r"
  "svr_channel (with_delivery_position r sid d) = svr_channel r"
  by (simp_all add: with_delivery_position_def is_open_ai_stream_def)

lemma chain_is_open_single: "chain_is_open (chain_push r chain_default) = is_open_ai_stream r"
  by (simp add: chain_is_open_def chain_latest_def chain_push_def Let_def)

lemma commit_create_insert_ok:
  assumes ok: "version_channel_ok st" and new: "bt_get (ch_messages st) (svr_message_serial r) = None"
    and step: "commit_create_insert st r now = (st', res)"
  shows "version_channel_ok st'"
proof (cases "bt_contains (ch_replay st) (ch_next_delivery_serial st)")
  case True
  with step ok show ?thesis by (simp add: commit_create_insert_def Let_def)
next
  case False
  let ?r = "with_delivery_position r (ch_stream_id st) (ch_next_delivery_serial st)"
  have "fst (commit_create_insert st r now) = st'" by (simp add: step)
  with False new show ?thesis
    by (intro version_channel_ok_push [OF ok, of chain_default ?r _ _ st' now])
      (auto simp: commit_create_insert_def Let_def bt_contains_def chain_is_open_single)
qed

lemma commit_create_channel_cases:
  assumes ok: "version_channel_ok st" and step: "commit_create_channel to_vec st request now = (st', res)"
  shows "st' = st \<or> bt_get (ch_messages st) (svr_message_serial (vcr_record request)) = None \<and>
    commit_create_insert st (vcr_record request) now = (st', res)"
proof (cases "bt_get (ch_messages st) (svr_message_serial (vcr_record request))")
  case None
  with step show ?thesis
    by (auto simp: commit_create_channel_def Let_def split: sum.splits option.splits if_splits)
next
  case (Some c)
  with ok have "chain_ok c" by (auto simp: version_channel_ok_def chains_ok_def)
  with Some step chain_ok_latest_ex [of c] show ?thesis
    by (auto simp: commit_create_channel_def Let_def)
qed

lemma commit_create_channel_ok:
  "version_channel_ok st \<Longrightarrow> commit_create_channel to_vec st request now = (st', res) \<Longrightarrow> version_channel_ok st'"
  by (metis commit_create_channel_cases commit_create_insert_ok)

text \<open>When \<^verbatim>\<open>compare_and_apply\<close> changes the channel, and how.\<close>

definition mutation_position :: "memory_version_channel \<Rightarrow> stored_version_record \<Rightarrow> u64" where
  "mutation_position st current = max (ch_next_delivery_serial st) (sat_add (svr_delivery_serial current) 1)"

definition mutation_applied ::
    "memory_version_channel \<Rightarrow> version_chain \<Rightarrow> stored_version_record \<Rightarrow> stored_version_record \<Rightarrow> i64 \<Rightarrow>
     memory_version_channel" where
  "mutation_applied st c current r now =
     st\<lparr>ch_messages := bt_insert (svr_message_serial r) (chain_push r c) (ch_messages st),
        ch_open_stream_count := ch_open_stream_count st - of_flag (is_open_ai_stream current) + of_flag (is_open_ai_stream r),
        ch_created_at := bt_insert (svr_delivery_serial r) now (ch_created_at st),
        ch_replay := bt_insert (svr_delivery_serial r) r (ch_replay st),
        ch_next_delivery_serial := sat_add (svr_delivery_serial r) 1\<rparr>"

lemma compare_and_apply_insert_cases:
  assumes "compare_and_apply_insert st c current r m d now = (st', res)"
    and "svr_message_serial r = m" and "svr_delivery_serial r = d"
  shows "st' = st \<and> (\<exists>e. res = Inl e) \<or>
    st' = mutation_applied st c current r now \<and> res = Inr (MutApplied r (ch_stream_id st)) \<and>
    validate_incoming c r = Inr () \<and> bt_get (ch_replay st) d = None"
  using assms
  by (auto simp: compare_and_apply_insert_def mutation_applied_def bt_contains_def split: sum.splits if_splits)

definition mut_applied :: "version_mutation_result result \<Rightarrow> bool" where
  "mut_applied res = (case res of Inr (MutApplied _ _) \<Rightarrow> True | _ \<Rightarrow> False)"

lemma compare_and_apply_record_cases:
  assumes step: "compare_and_apply_record to_vec to_value st c current request d now = (st', res)"
  shows "st' = st \<and> \<not> mut_applied res \<or>
    (\<exists>r. svr_apply_mutation to_value current request (ch_stream_id st) d = Inr r \<and>
       compare_and_apply_insert st c current r (vmr_message_serial request) d now = (st', res))"
proof (cases "svr_apply_mutation to_value current request (ch_stream_id st) d")
  case (Inl e)
  with step show ?thesis by (auto simp: compare_and_apply_record_def mut_applied_def)
next
  case (Inr r)
  with step show ?thesis
    by (auto simp: compare_and_apply_record_def mut_applied_def Let_def split: sum.splits option.splits if_splits)
qed

lemma compare_and_apply_current_cases:
  assumes step: "compare_and_apply_current to_vec to_value st c current request now = (st', res)"
  shows "st' = st \<and> \<not> mut_applied res \<or> precondition_matches (vmr_expected request) current \<and>
    compare_and_apply_record to_vec to_value st c current request (mutation_position st current) now = (st', res)"
  using step
  by (auto simp: compare_and_apply_current_def mut_applied_def mutation_position_def Let_def
      split: option.splits if_splits)

lemma svr_apply_mutation_target:
  "svr_apply_mutation to_value r request sid d = Inr r' \<Longrightarrow> svr_message_serial r = vmr_message_serial request"
  by (simp add: svr_apply_mutation_def split: if_splits)

lemma chain_is_open_push_newest:
  assumes "chain_ok c" and "chain_latest c = Some current" and "svr_version_serial current < svr_version_serial r"
    and "validate_incoming c r = Inr u"
  shows "chain_latest (chain_push r c) = Some r" "chain_is_open (chain_push r c) = is_open_ai_stream r"
proof -
  have "chain_ok (chain_push r c)" using chain_ok_push [OF _ assms(4)] assms(1) by blast
  moreover have "svr_version_serial e \<le> svr_version_serial r" if "e \<in> set (vc_entries c)" for e
    using chain_ok_latest [OF assms(1), of current] assms(2,3) that by fastforce
  ultimately show latest: "chain_latest (chain_push r c) = Some r"
    by (simp add: chain_ok_latest)
  then show "chain_is_open (chain_push r c) = is_open_ai_stream r" by (simp add: chain_is_open_def)
qed

text \<open>An applied mutation: the channel's chain, its latest version, and what the channel becomes.\<close>

definition mutation_step ::
    "(message_data \<Rightarrow> string + json) \<Rightarrow> memory_version_channel \<Rightarrow> version_mutation_request \<Rightarrow> i64 \<Rightarrow>
     memory_version_channel \<Rightarrow> stored_version_record \<Rightarrow> bool" where
  "mutation_step to_value st request now st' r \<longleftrightarrow>
     (\<exists>c current. bt_get (ch_messages st) (vmr_message_serial request) = Some c \<and>
        chain_latest c = Some current \<and> precondition_matches (vmr_expected request) current \<and>
        svr_apply_mutation to_value current request (ch_stream_id st) (mutation_position st current) = Inr r \<and>
        validate_incoming c r = Inr () \<and> bt_get (ch_replay st) (svr_delivery_serial r) = None \<and>
        (\<forall>i. vmr_idempotency request = Some i \<longrightarrow> vc_operations c (pim_cache_key i) = None) \<and>
        st' = mutation_applied st c current r now)"

lemma compare_and_apply_channel_cases:
  assumes step: "compare_and_apply_channel to_vec to_value st request now = (st', res)"
  shows "st' = st \<and> \<not> mut_applied res \<or>
    (\<exists>r. mutation_step to_value st request now st' r \<and> res = Inr (MutApplied r (ch_stream_id st)))"
proof (cases "bt_get (ch_messages st) (vmr_message_serial request)")
  case None
  with step show ?thesis by (auto simp: compare_and_apply_channel_def mut_applied_def)
next
  case (Some c)
  show ?thesis
  proof (cases "(\<exists>i j. vmr_idempotency request = Some i \<and> vc_operations c (pim_cache_key i) = Some j) \<or> chain_latest c = None")
    case True
    with Some step show ?thesis
      by (auto simp: compare_and_apply_channel_def mut_applied_def split: option.splits if_splits)
  next
    case False
    then obtain current where current: "chain_latest c = Some current" by auto
    from False have idem: "\<forall>i. vmr_idempotency request = Some i \<longrightarrow> vc_operations c (pim_cache_key i) = None" by auto
    from False Some step current
    have cur: "compare_and_apply_current to_vec to_value st c current request now = (st', res)"
      by (auto simp: compare_and_apply_channel_def split: option.splits)
    let ?d = "mutation_position st current"
    consider "st' = st \<and> \<not> mut_applied res"
      | r where "precondition_matches (vmr_expected request) current"
        "svr_apply_mutation to_value current request (ch_stream_id st) ?d = Inr r"
        "compare_and_apply_insert st c current r (vmr_message_serial request) ?d now = (st', res)"
      using compare_and_apply_current_cases [OF cur] compare_and_apply_record_cases by metis
    then show ?thesis
    proof cases
      case (2 r)
      have serials: "svr_message_serial r = vmr_message_serial request" "svr_delivery_serial r = ?d"
        using svr_apply_mutation_message [OF 2(2)] svr_apply_mutation_target [OF 2(2)] by simp_all
      from compare_and_apply_insert_cases [OF 2(3) serials]
      show ?thesis
      proof (elim disjE)
        assume "st' = st \<and> (\<exists>e. res = Inl e)"
        then show ?thesis by (auto simp: mut_applied_def)
      next
        assume "st' = mutation_applied st c current r now \<and> res = Inr (MutApplied r (ch_stream_id st)) \<and>
          validate_incoming c r = Inr () \<and> bt_get (ch_replay st) ?d = None"
        with Some current idem 2(1,2) serials show ?thesis
          unfolding mutation_step_def by metis
      qed
    qed simp
  qed
qed

lemma mutation_step_facts:
  assumes ok: "version_channel_ok st" and step: "mutation_step to_value st request now st' r"
  obtains c current where "bt_get (ch_messages st) (vmr_message_serial request) = Some c" "chain_ok c"
    "chain_latest c = Some current" "precondition_matches (vmr_expected request) current"
    "svr_apply_mutation to_value current request (ch_stream_id st) (mutation_position st current) = Inr r"
    "svr_message_serial r = vmr_message_serial request" "svr_delivery_serial r = mutation_position st current"
    "svr_version_serial current < svr_version_serial r" "validate_incoming c r = Inr ()"
    "bt_get (ch_replay st) (svr_delivery_serial r) = None"
    "\<forall>i. vmr_idempotency request = Some i \<longrightarrow> vc_operations c (pim_cache_key i) = None"
    "st' = mutation_applied st c current r now"
proof -
  from step obtain c current where c: "bt_get (ch_messages st) (vmr_message_serial request) = Some c"
    "chain_latest c = Some current" "precondition_matches (vmr_expected request) current"
    "svr_apply_mutation to_value current request (ch_stream_id st) (mutation_position st current) = Inr r"
    "validate_incoming c r = Inr ()" "bt_get (ch_replay st) (svr_delivery_serial r) = None"
    "\<forall>i. vmr_idempotency request = Some i \<longrightarrow> vc_operations c (pim_cache_key i) = None"
    "st' = mutation_applied st c current r now"
    unfolding mutation_step_def by blast
  have "chain_ok c" using ok c(1) by (simp add: version_channel_ok_def chains_ok_def)
  with c svr_apply_mutation_message [OF c(4)] svr_apply_mutation_target [OF c(4)] show thesis
    by (intro that [of c current]) simp_all
qed

lemma mutation_step_ok:
  assumes ok: "version_channel_ok st" and step: "mutation_step to_value st request now st' r"
  shows "version_channel_ok st'"
proof -
  from mutation_step_facts [OF ok step] obtain c current where
    c: "bt_get (ch_messages st) (vmr_message_serial request) = Some c" "chain_ok c"
    "chain_latest c = Some current" "svr_message_serial r = vmr_message_serial request"
    "svr_delivery_serial r = mutation_position st current"
    "svr_version_serial current < svr_version_serial r" "validate_incoming c r = Inr ()"
    "bt_get (ch_replay st) (svr_delivery_serial r) = None" "st' = mutation_applied st c current r now"
    by metis
  have "ch_next_delivery_serial st \<le> sat_add (svr_delivery_serial r) 1"
    unfolding c(5) mutation_position_def using order_trans [OF max.cobounded1 sat_add_ge] .
  with c chain_is_open_push_newest(2) [OF c(2,3,6,7)] show ?thesis
    by (intro version_channel_ok_push [OF ok, of c r _ "sat_add (svr_delivery_serial r) 1"])
      (simp_all add: mutation_applied_def chain_is_open_def)
qed

lemma compare_and_apply_channel_ok:
  assumes "version_channel_ok st" and "compare_and_apply_channel to_vec to_value st request now = (st', res)"
  shows "version_channel_ok st'"
  using compare_and_apply_channel_cases [OF assms(2)] mutation_step_ok [OF assms(1)] assms(1) by metis

section \<open>Purging keeps the invariant\<close>

lemma chain_remove_entries:
  "vc_entries (chain_remove v c) = filter (\<lambda>e. svr_version_serial e \<noteq> v) (vc_entries c)"
  by (simp add: chain_remove_eq)

lemma chain_ok_remove:
  assumes "chain_ok c" and "vc_entries (chain_remove v c) \<noteq> []"
  shows "chain_ok (chain_remove v c)"
proof -
  let ?es = "filter (\<lambda>e. svr_version_serial e \<noteq> v) (vc_entries c)"
  have ne: "?es \<noteq> []" using assms(2) by (simp add: chain_remove_entries)
  then have hd: "hd ?es \<in> set (vc_entries c)" using hd_in_set [OF ne] by simp
  have same: "svr_message_serial e = svr_message_serial (hd (vc_entries c)) \<and>
      svr_history_serial e = svr_history_serial (hd (vc_entries c))" if "e \<in> set (vc_entries c)" for e
    using assms(1) that unfolding chain_ok_def by blast
  have "svr_message_serial e = svr_message_serial (hd ?es) \<and> svr_history_serial e = svr_history_serial (hd ?es)"
    if "e \<in> set ?es" for e
    using same [OF hd] same [of e] that by simp
  moreover have "distinct (map svr_version_serial ?es)"
    using assms(1) unfolding chain_ok_def by (metis distinct_map_filter)
  ultimately show ?thesis
    using ne unfolding chain_ok_def chain_remove_eq chain_of_entries by blast
qed

lemma chain_remove_set:
  assumes "chain_ok c" and "r \<in> set (vc_entries c)"
  shows "set (vc_entries (chain_remove (svr_version_serial r) c)) = set (vc_entries c) - {r}"
proof -
  have "inj_on svr_version_serial (set (vc_entries c))"
    using assms(1) unfolding chain_ok_def by (metis distinct_map)
  with assms(2) show ?thesis by (auto simp: chain_remove_entries dest: inj_onD)
qed

lemma chain_is_open_empty: "vc_entries (chain_remove v c) = [] \<Longrightarrow> \<not> chain_is_open (chain_remove v c)"
  by (simp add: chain_remove_eq)

lemma purge_record_get:
  assumes "bt_get (ch_messages st) (svr_message_serial r) = Some c"
  shows "bt_get (ch_messages (purge_record st r)) m =
    (if m = svr_message_serial r
     then if vc_entries (chain_remove (svr_version_serial r) c) = [] then None
          else Some (chain_remove (svr_version_serial r) c)
     else bt_get (ch_messages st) m)"
  using assms by (simp add: purge_record_def Let_def bt_get_insert bt_get_remove)

lemma purge_record_simps [simp]:
  "ch_replay (purge_record st r) = ch_replay st" "ch_created_at (purge_record st r) = ch_created_at st"
  "ch_next_delivery_serial (purge_record st r) = ch_next_delivery_serial st"
  "ch_stream_id (purge_record st r) = ch_stream_id st"
  by (simp_all add: purge_record_def Let_def split: option.splits)

lemma purge_record_count:
  assumes "bt_wf (ch_messages st)" and "ch_open_stream_count st = bt_count chain_is_open (ch_messages st)"
    and "bt_get (ch_messages st) (svr_message_serial r) = Some c"
  shows "ch_open_stream_count (purge_record st r) = bt_count chain_is_open (ch_messages (purge_record st r))"
proof (cases "vc_entries (chain_remove (svr_version_serial r) c) = []")
  case True
  with chain_is_open_empty [OF True] assms show ?thesis
    by (simp add: purge_record_def Let_def bt_count_remove)
next
  case False
  with assms show ?thesis
    by (simp add: purge_record_def Let_def bt_count_insert)
qed

text \<open>
  Removing one record: \<open>st'\<close> is \<open>st\<close> without \<open>r\<close> in the replay log and in the chain \<open>c\<close> of its message.
\<close>

lemma purge_chains_ok:
  assumes chains: "chains_ok st" and c: "bt_get (ch_messages st) (svr_message_serial r) = Some c"
    and r: "r \<in> set (vc_entries c)" "bt_get (ch_replay st) (svr_delivery_serial r) = Some r"
    and replay: "ch_replay st' = bt_remove (svr_delivery_serial r) (ch_replay st)"
    and get: "\<And>m. bt_get (ch_messages st') m = (if m = svr_message_serial r
        then if vc_entries (chain_remove (svr_version_serial r) c) = [] then None
             else Some (chain_remove (svr_version_serial r) c)
        else bt_get (ch_messages st) m)"
  shows "chains_ok st'"
  unfolding chains_ok_def
proof (intro allI impI)
  fix m c0 assume m: "bt_get (ch_messages st') m = Some c0"
  let ?c' = "chain_remove (svr_version_serial r) c"
  have old: "svr_message_serial e = m \<and> bt_get (ch_replay st) (svr_delivery_serial e) = Some e"
    if "bt_get (ch_messages st) m = Some c0" "e \<in> set (vc_entries c0)" for m c0 e
    using chains that by (simp add: chains_ok_def)
  have cok: "chain_ok c" using chains c by (simp add: chains_ok_def)
  have "chain_ok c0 \<and> (\<exists>c1. bt_get (ch_messages st) m = Some c1 \<and> set (vc_entries c0) \<subseteq> set (vc_entries c1) - {r})"
  proof (cases "m = svr_message_serial r")
    case True
    with m get have c0: "c0 = ?c'" "vc_entries ?c' \<noteq> []" by (simp_all split: if_splits)
    with True c chain_ok_remove [OF cok c0(2)] chain_remove_set [OF cok r(1)] show ?thesis by auto
  next
    case False
    with m get have m': "bt_get (ch_messages st) m = Some c0" by simp
    with False old [OF m', of r] chains show ?thesis by (auto simp: chains_ok_def)
  qed
  then obtain c1 where c1: "chain_ok c0" "bt_get (ch_messages st) m = Some c1"
    "set (vc_entries c0) \<subseteq> set (vc_entries c1) - {r}" by blast
  have "svr_message_serial e = m \<and> bt_get (ch_replay st') (svr_delivery_serial e) = Some e"
    if "e \<in> set (vc_entries c0)" for e
  proof -
    from that c1 have e: "e \<in> set (vc_entries c1)" "e \<noteq> r" by auto
    from old [OF c1(2) e(1)] r(2) e(2) have "svr_delivery_serial e \<noteq> svr_delivery_serial r" by auto
    with old [OF c1(2) e(1)] show ?thesis by (simp add: replay bt_get_remove)
  qed
  with c1 show "chain_ok c0 \<and> (\<forall>e \<in> set (vc_entries c0). svr_message_serial e = m \<and>
    bt_get (ch_replay st') (svr_delivery_serial e) = Some e)" by blast
qed

lemma purge_replay_ok:
  assumes chains: "chains_ok st" and entries: "replay_entries_ok st"
    and c: "bt_get (ch_messages st) (svr_message_serial r) = Some c" and r: "r \<in> set (vc_entries c)"
    and replay: "ch_replay st' = bt_remove (svr_delivery_serial r) (ch_replay st)"
    and same: "ch_next_delivery_serial st' = ch_next_delivery_serial st"
    and get: "\<And>m. bt_get (ch_messages st') m = (if m = svr_message_serial r
        then if vc_entries (chain_remove (svr_version_serial r) c) = [] then None
             else Some (chain_remove (svr_version_serial r) c)
        else bt_get (ch_messages st) m)"
  shows "replay_entries_ok st'"
  unfolding replay_entries_ok_def
proof (intro allI impI)
  fix d' r' assume "bt_get (ch_replay st') d' = Some r'"
  then have d': "d' \<noteq> svr_delivery_serial r" "bt_get (ch_replay st) d' = Some r'"
    by (simp_all add: replay bt_get_remove split: if_splits)
  with entries obtain c1 where c1: "svr_delivery_serial r' = d'" "sat_add d' 1 \<le> ch_next_delivery_serial st"
    "bt_get (ch_messages st) (svr_message_serial r') = Some c1" "r' \<in> set (vc_entries c1)"
    unfolding replay_entries_ok_def by blast
  let ?c' = "chain_remove (svr_version_serial r) c"
  have cok: "chain_ok c" using chains c by (simp add: chains_ok_def)
  have "r' \<noteq> r" using d' c1 by auto
  have "\<exists>c. bt_get (ch_messages st') (svr_message_serial r') = Some c \<and> r' \<in> set (vc_entries c)"
  proof (cases "svr_message_serial r' = svr_message_serial r")
    case True
    with c1 c \<open>r' \<noteq> r\<close> chain_remove_set [OF cok r] have r': "r' \<in> set (vc_entries ?c')" by auto
    then have "vc_entries ?c' \<noteq> []" by (cases "vc_entries ?c'") simp_all
    with r' True get show ?thesis by simp
  next
    case False
    with get c1 show ?thesis by simp
  qed
  with c1 show "svr_delivery_serial r' = d' \<and> sat_add d' 1 \<le> ch_next_delivery_serial st' \<and>
    (\<exists>c. bt_get (ch_messages st') (svr_message_serial r') = Some c \<and> r' \<in> set (vc_entries c))" by (simp add: same)
qed

lemma purge_one_ok:
  assumes ok: "version_channel_ok st"
  shows "version_channel_ok (fst (purge_one d (st, n)))"
proof (cases "bt_get (ch_replay st) d")
  case None
  have keys: "map fst (ch_created_at st) = map fst (ch_replay st)"
    using ok by (simp add: version_channel_ok_def)
  from None have "d \<notin> set (map fst (ch_replay st))" by (simp add: bt_get_None_iff)
  then have "d \<notin> set (map fst (ch_created_at st))" unfolding keys .
  then have "bt_remove d (ch_created_at st) = ch_created_at st"
    by (force simp: bt_remove_def filter_id_conv)
  with None ok show ?thesis by (simp add: purge_one_def Let_def)
next
  case (Some r)
  have parts: "chains_ok st" "replay_entries_ok st" "map fst (ch_created_at st) = map fst (ch_replay st)"
    using ok by (simp_all add: version_channel_ok_def)
  from parts(2) Some obtain c where d: "svr_delivery_serial r = d"
    and c: "bt_get (ch_messages st) (svr_message_serial r) = Some c" and r: "r \<in> set (vc_entries c)"
    unfolding replay_entries_ok_def by blast
  let ?st2 = "st\<lparr>ch_created_at := bt_remove d (ch_created_at st), ch_replay := bt_remove d (ch_replay st)\<rparr>"
  let ?st' = "purge_record ?st2 r"
  note get = purge_record_get [of ?st2 r c]
  have "chains_ok ?st'"
    by (rule purge_chains_ok [OF parts(1) c r]) (use Some d c get in simp_all)
  moreover have "replay_entries_ok ?st'"
    by (rule purge_replay_ok [OF parts(1,2) c r]) (use d c get in simp_all)
  moreover have "ch_open_stream_count ?st' = bt_count chain_is_open (ch_messages ?st')"
    using ok c by (intro purge_record_count) (simp_all add: version_channel_ok_def)
  moreover have "bt_wf (ch_messages ?st')"
    using ok c by (simp add: purge_record_def Let_def version_channel_ok_def)
  moreover have "map fst (bt_remove d (ch_created_at st)) = map fst (bt_remove d (ch_replay st))"
    unfolding bt_remove_keys parts(3) ..
  ultimately have "version_channel_ok ?st'"
    using ok by (simp add: version_channel_ok_def)
  with Some show ?thesis by (simp add: purge_one_def Let_def)
qed

text \<open>The selection loop takes a prefix of expired entries, as long as the batch allows.\<close>

lemma purge_select_spec:
  assumes "length acc \<le> remaining"
  shows "\<exists>n over. purge_select before remaining acc m = (acc @ map fst (take n m), over) \<and> n \<le> length m \<and>
    length acc + n \<le> remaining \<and> (\<forall>p \<in> set (take n m). snd p < before) \<and>
    (\<not> over \<longrightarrow> (case front_of (drop n m) of None \<Rightarrow> True | Some p \<Rightarrow> before \<le> snd p)) \<and>
    (over \<longrightarrow> length acc + n = remaining \<and> (case front_of (drop n m) of None \<Rightarrow> False | Some p \<Rightarrow> snd p < before))"
  using assms
proof (induction m arbitrary: acc)
  case (Cons p m)
  obtain d t where p: "p = (d, t)" by (rule prod.exhaust)
  consider "before \<le> t" | "t < before" "remaining \<le> length acc" | "t < before" "length acc < remaining" by linarith
  then show ?case
  proof cases
    case 3
    then have "length (acc @ [d]) \<le> remaining" by simp
    from Cons.IH [OF this] obtain n over where
      "purge_select before remaining (acc @ [d]) m = ((acc @ [d]) @ map fst (take n m), over)" "n \<le> length m"
      "length (acc @ [d]) + n \<le> remaining" "\<forall>p \<in> set (take n m). snd p < before"
      "\<not> over \<longrightarrow> (case front_of (drop n m) of None \<Rightarrow> True | Some p \<Rightarrow> before \<le> snd p)"
      "over \<longrightarrow> length (acc @ [d]) + n = remaining \<and> (case front_of (drop n m) of None \<Rightarrow> False | Some p \<Rightarrow> snd p < before)"
      by blast
    with 3 p show ?thesis by (intro exI [of _ "Suc n"] exI [of _ over]) auto
  qed (use p Cons.prems in \<open>auto intro!: exI [of _ 0]\<close>)
qed auto

lemma bt_remove_hd: "bt_wf (p # m) \<Longrightarrow> bt_remove (fst p) (p # m) = m"
  by (force simp: bt_wf_Cons bt_remove_def filter_id_conv)

lemma purge_one_front:
  assumes ok: "version_channel_ok st" and p: "ch_created_at st = p # m"
  shows "\<exists>st'. purge_one (fst p) (st, k) = (st', Suc k) \<and> version_channel_ok st' \<and>
    ch_created_at st' = m \<and> ch_replay st' = drop 1 (ch_replay st) \<and> ch_stream_id st' = ch_stream_id st \<and>
    ch_next_delivery_serial st' = ch_next_delivery_serial st"
proof -
  from ok p obtain r rs where rs: "ch_replay st = (fst p, r) # rs"
    by (cases "ch_replay st") (auto simp: version_channel_ok_def)
  have wf: "bt_wf (p # m)" "bt_wf ((fst p, r) # rs)"
    using ok p rs by (simp_all add: version_channel_ok_def)
  have "ch_created_at (fst (purge_one (fst p) (st, k))) = m" "snd (purge_one (fst p) (st, k)) = Suc k"
    "ch_replay (fst (purge_one (fst p) (st, k))) = rs"
    "ch_stream_id (fst (purge_one (fst p) (st, k))) = ch_stream_id st"
    "ch_next_delivery_serial (fst (purge_one (fst p) (st, k))) = ch_next_delivery_serial st"
    using bt_remove_hd [OF wf(1)] bt_remove_hd [OF wf(2)] by (simp_all add: purge_one_def p rs)
  with purge_one_ok [OF ok, of "fst p" k] rs show ?thesis
    by (cases "purge_one (fst p) (st, k)") simp
qed

lemma purge_fold:
  assumes "version_channel_ok st" and "n \<le> length (ch_created_at st)"
  shows "\<exists>st'. fold purge_one (map fst (take n (ch_created_at st))) (st, k) = (st', k + n) \<and> version_channel_ok st' \<and>
    ch_created_at st' = drop n (ch_created_at st) \<and> ch_replay st' = drop n (ch_replay st) \<and>
    ch_stream_id st' = ch_stream_id st \<and> ch_next_delivery_serial st' = ch_next_delivery_serial st"
  using assms
proof (induction n arbitrary: st k)
  case (Suc n)
  then obtain p m where p: "ch_created_at st = p # m" by (cases "ch_created_at st") auto
  from purge_one_front [OF Suc.prems(1) p, of k] obtain st1 where
    st1: "purge_one (fst p) (st, k) = (st1, Suc k)" "version_channel_ok st1" "ch_created_at st1 = m"
    "ch_replay st1 = drop 1 (ch_replay st)" "ch_stream_id st1 = ch_stream_id st"
    "ch_next_delivery_serial st1 = ch_next_delivery_serial st" by blast
  with Suc.prems p have "n \<le> length (ch_created_at st1)" by simp
  from Suc.IH [OF st1(2) this, of "Suc k"] st1 p show ?case by simp
qed simp

text \<open>What a purge leaves of one channel.\<close>

definition purged_channel :: "i64 \<Rightarrow> memory_version_channel \<Rightarrow> memory_version_channel \<Rightarrow> bool" where
  "purged_channel before st st' \<longleftrightarrow>
     (\<exists>n \<le> length (ch_created_at st). ch_created_at st' = drop n (ch_created_at st) \<and>
        ch_replay st' = drop n (ch_replay st) \<and> (\<forall>p \<in> set (take n (ch_created_at st)). snd p < before)) \<and>
     ch_stream_id st' = ch_stream_id st \<and> ch_next_delivery_serial st' = ch_next_delivery_serial st"

definition purge_pending :: "i64 \<Rightarrow> memory_version_channel \<Rightarrow> bool" where
  "purge_pending before st \<longleftrightarrow> (case front_of (ch_created_at st) of None \<Rightarrow> False | Some p \<Rightarrow> snd p < before)"

definition stored_rows :: "memory_version_store \<Rightarrow> nat" where
  "stored_rows s = sum_list (map (\<lambda>p. length (ch_replay (snd p))) s)"

lemma purged_channel_refl [simp]: "purged_channel before st st"
  by (auto simp: purged_channel_def intro: exI [of _ 0])

lemma version_channel_ok_length: "version_channel_ok st \<Longrightarrow> length (ch_created_at st) = length (ch_replay st)"
  by (metis length_map version_channel_ok_def)

lemma purge_channels_spec:
  assumes "\<forall>p \<in> set s. version_channel_ok (snd p)" and "deleted \<le> batch"
    and "purge_channels before batch deleted hm s = (s', deleted', hm')"
  shows "list_all2 (\<lambda>p p'. fst p' = fst p \<and> version_channel_ok (snd p') \<and> purged_channel before (snd p) (snd p')) s s' \<and>
    deleted' \<le> batch \<and> deleted' + stored_rows s' = deleted + stored_rows s \<and>
    (hm \<longrightarrow> hm') \<and> deleted \<le> deleted' \<and> (hm' \<longrightarrow> hm \<or> deleted' = batch) \<and> (\<not> hm' \<longrightarrow> (\<forall>p \<in> set s'. \<not> purge_pending before (snd p)))"
  using assms
proof (induction s arbitrary: deleted hm s' deleted' hm')
  case (Cons p s)
  obtain key st where p: "p = (key, st)" by (rule prod.exhaust)
  from Cons.prems p have ok: "version_channel_ok st" and rest: "\<forall>p \<in> set s. version_channel_ok (snd p)" by auto
  show ?case
  proof (cases "batch - deleted = 0")
    case True
    with Cons.prems p show ?thesis by (auto simp: list_all2_same)
  next
    case False
    obtain n over where sel: "purge_select before (batch - deleted) [] (ch_created_at st) =
        (map fst (take n (ch_created_at st)), over)" "n \<le> length (ch_created_at st)" "n \<le> batch - deleted"
      "\<forall>p \<in> set (take n (ch_created_at st)). snd p < before"
      "\<not> over \<longrightarrow> (case front_of (drop n (ch_created_at st)) of None \<Rightarrow> True | Some p \<Rightarrow> before \<le> snd p)"
      "over \<longrightarrow> n = batch - deleted"
      using purge_select_spec [of "[]" "batch - deleted" before "ch_created_at st"] by auto
    obtain st1 where st1: "fold purge_one (map fst (take n (ch_created_at st))) (st, deleted) = (st1, deleted + n)"
      "version_channel_ok st1" "ch_created_at st1 = drop n (ch_created_at st)" "ch_replay st1 = drop n (ch_replay st)"
      "ch_stream_id st1 = ch_stream_id st" "ch_next_delivery_serial st1 = ch_next_delivery_serial st"
      using purge_fold [OF ok sel(2), of deleted] by blast
    let ?hm = "hm \<or> over \<or> purge_pending before st1"
    have pend: "purge_pending before st1 = (case front_of (ch_created_at st1) of None \<Rightarrow> False | Some (_, ts) \<Rightarrow> ts < before)"
      by (simp add: purge_pending_def split: option.splits prod.splits)
    obtain rest' where rec: "purge_channels before batch (deleted + n) ?hm s = (rest', deleted', hm')"
      and s': "s' = (key, st1) # rest'"
      using Cons.prems(3) False by (auto simp: p sel st1 pend Let_def split: prod.splits)
    have le: "deleted + n \<le> batch" using sel(3) False by simp
    have over: "over \<or> purge_pending before st1 \<Longrightarrow> deleted + n = batch"
      using sel(5,6) False by (auto simp: purge_pending_def st1 split: option.splits)
    have "purged_channel before st st1"
      unfolding purged_channel_def using sel st1 by blast
    with Cons.IH [OF rest le rec] over st1(2) sel(2) version_channel_ok_length [OF ok] show ?thesis
      by (auto simp: s' p st1(4) stored_rows_def)
  qed
qed simp

section \<open>Reachable stores\<close>

lemma version_store_ok_put:
  "version_store_ok s \<Longrightarrow> version_channel_ok st \<Longrightarrow> version_store_ok (bt_insert k st s)"
  by (simp add: version_store_ok_def bt_get_insert)

lemma version_store_ok_or_default [simp]:
  "version_store_ok s \<Longrightarrow> version_channel_ok (version_channel_or_default s k uuid)"
  by (simp add: version_store_ok_def version_channel_or_default_def split: option.splits)

lemma version_store_ok_Ball:
  "version_store_ok s \<longleftrightarrow> bt_wf s \<and> (\<forall>p \<in> set s. version_channel_ok (snd p))"
  by (force simp: version_store_ok_def bt_get_iff)

lemma bt_wf_same_keys: "list_all2 (\<lambda>p p'. fst p' = fst p \<and> Q p p') m m' \<Longrightarrow> bt_wf m \<Longrightarrow> bt_wf m'"
proof -
  assume "list_all2 (\<lambda>p p'. fst p' = fst p \<and> Q p p') m m'"
  then have "map fst m' = map fst m" by (induction rule: list_all2_induct) simp_all
  then show "bt_wf m \<Longrightarrow> bt_wf m'" by (simp add: bt_wf_def)
qed

lemma version_purge_before_ok:
  assumes ok: "version_store_ok s" and step: "version_purge_before s before batch = (s', res)"
  shows "version_store_ok s'"
proof (cases "batch = 0")
  case False
  obtain d h where "purge_channels before batch 0 False s = (s', d, h)"
    using step False by (auto simp: version_purge_before_def split: prod.splits)
  with ok purge_channels_spec [of s 0 batch before False s' d h]
  have all: "list_all2 (\<lambda>p p'. fst p' = fst p \<and> version_channel_ok (snd p') \<and>
      purged_channel before (snd p) (snd p')) s s'"
    by (simp add: version_store_ok_Ball)
  then have "\<forall>p' \<in> set s'. version_channel_ok (snd p')"
    by (induction rule: list_all2_induct) simp_all
  with ok bt_wf_same_keys [OF all] show ?thesis by (simp add: version_store_ok_Ball)
qed (use assms in \<open>simp add: version_purge_before_def\<close>)

text \<open>
  Every call a client can make; reads do not change the store. \<open>version_write\<close> leaves out the purge.
\<close>

inductive version_write ::
    "(message_data \<Rightarrow> string + bytes) \<Rightarrow> (message_data \<Rightarrow> string + json) \<Rightarrow>
     memory_version_store \<Rightarrow> memory_version_store \<Rightarrow> bool"
  for to_vec to_value where
  ensure: "version_ensure_stream_id s app_id channel uuid = (s', res) \<Longrightarrow> version_write to_vec to_value s s'"
| reserve: "reserve_delivery_position s app_id channel uuid = (s', res) \<Longrightarrow> version_write to_vec to_value s s'"
| reserve_block:
    "reserve_delivery_positions s app_id channel block uuid = (s', res) \<Longrightarrow> version_write to_vec to_value s s'"
| app: "append_version s r uuid now = (s', res) \<Longrightarrow> version_write to_vec to_value s s'"
| create: "commit_create to_vec s create_request uuid now = (s', res) \<Longrightarrow> version_write to_vec to_value s s'"
| mutate: "compare_and_apply to_vec to_value s request now = (s', res) \<Longrightarrow> version_write to_vec to_value s s'"

inductive version_reachable ::
    "(message_data \<Rightarrow> string + bytes) \<Rightarrow> (message_data \<Rightarrow> string + json) \<Rightarrow> memory_version_store \<Rightarrow> bool"
  for to_vec to_value where
  init: "version_reachable to_vec to_value []"
| wr: "version_reachable to_vec to_value s \<Longrightarrow> version_write to_vec to_value s s' \<Longrightarrow>
    version_reachable to_vec to_value s'"
| purge: "version_reachable to_vec to_value s \<Longrightarrow> version_purge_before s before batch = (s', res) \<Longrightarrow>
    version_reachable to_vec to_value s'"

lemma version_write_ok:
  assumes "version_write to_vec to_value s s'" and ok: "version_store_ok s"
  shows "version_store_ok s'"
  using assms(1)
proof cases
  case ensure
  then show ?thesis using ok by (auto simp: version_ensure_stream_id_def Let_def intro: version_store_ok_put)
next
  case reserve
  then show ?thesis
    using ok by (auto simp: reserve_delivery_position_def Let_def intro!: version_store_ok_put version_channel_ok_raise)
next
  case reserve_block
  then show ?thesis
    using ok by (auto simp: reserve_delivery_positions_def Let_def split: sum.splits
        intro!: version_store_ok_put version_channel_ok_raise)
next
  case (app r uuid now res)
  then show ?thesis
    using ok by (auto simp: append_version_def Let_def split: prod.splits
        intro!: version_store_ok_put elim!: append_version_channel_ok [rotated])
next
  case (create create_request uuid now res)
  then show ?thesis
    using ok by (auto simp: commit_create_def Let_def split: prod.splits
        intro!: version_store_ok_put elim!: commit_create_channel_ok [rotated])
next
  case (mutate request now res)
  let ?key = "version_channel_key (vmr_app_id request) (vmr_channel request)"
  show ?thesis
  proof (cases "bt_get s ?key")
    case None
    with mutate ok show ?thesis by (simp add: compare_and_apply_def)
  next
    case (Some st)
    with ok have "version_channel_ok st" by (simp add: version_store_ok_def)
    moreover obtain st' where "compare_and_apply_channel to_vec to_value st request now = (st', res)" "s' = bt_insert ?key st' s"
      using mutate Some by (auto simp: compare_and_apply_def Let_def split: prod.splits)
    ultimately show ?thesis using ok compare_and_apply_channel_ok version_store_ok_put by metis
  qed
qed

lemma version_reachable_ok: "version_reachable to_vec to_value s \<Longrightarrow> version_store_ok s"
proof (induction rule: version_reachable.induct)
  case init
  show ?case by (simp add: version_store_ok_def)
qed (auto intro: version_write_ok version_purge_before_ok)

end
