(* ===== verification/Version_Properties.thy ===== *)
theory Version_Properties
  imports Version_Invariant
begin

text \<open>
  What clients of the in-memory version store rely on: retries are applied exactly once, updates
  are not lost, the latest version is the greatest one, version history is paged completely,
  replays are contiguous, purging is exact and its loop ends, and the store agrees with the
  mutation rules that the other backends share.
\<close>

section \<open>Chains only grow until they are purged\<close>

lemma bt_insert_same [simp]: "bt_wf m \<Longrightarrow> bt_get m k = Some v \<Longrightarrow> bt_insert k v m = m"
  by (induction m) (auto simp: bt_wf_Cons split: if_splits dest!: bt_get_SomeD)

definition channel_grows :: "memory_version_channel \<Rightarrow> memory_version_channel \<Rightarrow> bool" where
  "channel_grows st st' \<longleftrightarrow> ch_stream_id st' = ch_stream_id st \<and>
     (\<forall>m c. bt_get (ch_messages st) m = Some c \<longrightarrow>
        (\<exists>c' es. bt_get (ch_messages st') m = Some c' \<and> vc_entries c' = vc_entries c @ es))"

definition store_grows :: "memory_version_store \<Rightarrow> memory_version_store \<Rightarrow> bool" where
  "store_grows s s' \<longleftrightarrow>
     (\<forall>k st. bt_get s k = Some st \<longrightarrow> (\<exists>st'. bt_get s' k = Some st' \<and> channel_grows st st'))"

lemma channel_grows_refl [simp]: "channel_grows st st"
  by (auto simp: channel_grows_def)

lemma channel_grows_trans: "channel_grows a b \<Longrightarrow> channel_grows b c \<Longrightarrow> channel_grows a c"
  unfolding channel_grows_def by (metis append.assoc)

lemma store_grows_refl [simp]: "store_grows s s"
  by (auto simp: store_grows_def)

lemma store_grows_trans: "store_grows a b \<Longrightarrow> store_grows b c \<Longrightarrow> store_grows a c"
  unfolding store_grows_def by (metis channel_grows_trans)

lemma channel_grows_push:
  assumes "ch_stream_id st' = ch_stream_id st"
    and "ch_messages st' = bt_insert m (chain_push r c) (ch_messages st)"
    and "bt_get (ch_messages st) m = None \<or> bt_get (ch_messages st) m = Some c"
  shows "channel_grows st st'"
  using assms by (auto simp: channel_grows_def bt_get_insert)

lemma append_version_channel_grows:
  "append_version_channel st r now = (st', res) \<Longrightarrow> channel_grows st st'"
  by (auto simp: append_version_channel_def Let_def split: option.splits sum.splits intro: channel_grows_push)

lemma commit_create_channel_grows:
  assumes "version_channel_ok st" and "commit_create_channel to_vec st request now = (st', res)"
  shows "channel_grows st st'"
  using commit_create_channel_cases [OF assms]
  by (auto simp: commit_create_insert_def Let_def split: if_splits intro: channel_grows_push)

lemma mutation_step_grows:
  assumes "version_channel_ok st" and "mutation_step to_value st request now st' r"
  shows "channel_grows st st'"
  by (rule mutation_step_facts [OF assms]) (auto simp: mutation_applied_def intro: channel_grows_push)

lemma compare_and_apply_channel_grows:
  assumes "version_channel_ok st" and "compare_and_apply_channel to_vec to_value st request now = (st', res)"
  shows "channel_grows st st'"
  using compare_and_apply_channel_cases [OF assms(2)] mutation_step_grows [OF assms(1)] by auto

lemma store_grows_put:
  "channel_grows (version_channel_or_default s k uuid) st' \<Longrightarrow> store_grows s (bt_insert k st' s)"
  by (auto simp: store_grows_def bt_get_insert version_channel_or_default_def)

lemma compare_and_apply_split:
  assumes "compare_and_apply to_vec to_value s request now = (s', res)"
    and key: "key = version_channel_key (vmr_app_id request) (vmr_channel request)"
  obtains "bt_get s key = None" "s' = s" "res = Inr (MutConflict None)"
  | st st' where "bt_get s key = Some st" "compare_and_apply_channel to_vec to_value st request now = (st', res)"
      "s' = bt_insert key st' s"
  using assms by (auto simp: compare_and_apply_def Let_def split: option.splits prod.splits)

lemma version_write_grows:
  assumes "version_write to_vec to_value s s'" and ok: "version_store_ok s"
  shows "store_grows s s'"
  using assms(1)
proof cases
  case (mutate request now res)
  then show ?thesis
  proof (rule compare_and_apply_split [OF _ refl])
    fix st st' assume get: "bt_get s (version_channel_key (vmr_app_id request) (vmr_channel request)) = Some st"
      and step: "compare_and_apply_channel to_vec to_value st request now = (st', res)"
      and s': "s' = bt_insert (version_channel_key (vmr_app_id request) (vmr_channel request)) st' s"
    from get ok have "version_channel_ok st" by (simp add: version_store_ok_def)
    with step have "channel_grows st st'" by (rule compare_and_apply_channel_grows [rotated])
    with get show ?thesis unfolding s' by (intro store_grows_put) (simp add: version_channel_or_default_def)
  qed simp
next
  case create
  then show ?thesis
    using ok by (auto simp: commit_create_def Let_def split: prod.splits
        intro!: store_grows_put elim!: commit_create_channel_grows [rotated])
qed (auto simp: version_ensure_stream_id_def reserve_delivery_position_def reserve_delivery_positions_def
      append_version_def Let_def channel_grows_def split: sum.splits prod.splits
      intro!: store_grows_put dest: append_version_channel_grows)

lemma version_writes:
  assumes "(version_write to_vec to_value)\<^sup>*\<^sup>* s s'" and "version_store_ok s"
  shows "version_store_ok s' \<and> store_grows s s'"
  using assms
proof (induction rule: rtranclp_induct)
  case (step s1 s2)
  then show ?case using version_write_ok version_write_grows store_grows_trans by metis
qed simp

section \<open>Retries and lost updates\<close>

text \<open>An applied mutation at store level.\<close>

lemma compare_and_apply_applied:
  assumes ok: "version_store_ok s"
    and step: "compare_and_apply to_vec to_value s request now = (s', Inr (MutApplied r sid))"
  obtains st st' where "bt_get s (version_channel_key (vmr_app_id request) (vmr_channel request)) = Some st"
    "version_channel_ok st" "mutation_step to_value st request now st' r" "sid = ch_stream_id st"
    "s' = bt_insert (version_channel_key (vmr_app_id request) (vmr_channel request)) st' s"
proof (rule compare_and_apply_split [OF step refl])
  fix st st'
  assume st: "bt_get s (version_channel_key (vmr_app_id request) (vmr_channel request)) = Some st"
    "compare_and_apply_channel to_vec to_value st request now = (st', Inr (MutApplied r sid))"
    "s' = bt_insert (version_channel_key (vmr_app_id request) (vmr_channel request)) st' s"
  moreover from st(1) ok have "version_channel_ok st" by (simp add: version_store_ok_def)
  moreover from compare_and_apply_channel_cases [OF st(2)]
  have "mutation_step to_value st request now st' r" "sid = ch_stream_id st" by (auto simp: mut_applied_def)
  ultimately show thesis using that by blast
qed simp

lemma chain_ok_operations:
  "chain_ok c \<Longrightarrow> vc_operations c k = vc_operations (chain_of (vc_entries c)) k"
  by (simp add: chain_ok_def)

lemma mutation_step_receipt:
  assumes ok: "version_channel_ok st" and step: "mutation_step to_value st request now st' r"
    and i: "vmr_idempotency request = Some i"
  shows "svr_operation r = Some i" "ch_stream_id st' = ch_stream_id st"
    "\<exists>c. bt_get (ch_messages st') (vmr_message_serial request) = Some c \<and> chain_ok c \<and> chain_latest c = Some r \<and>
       vc_operations c (pim_cache_key i) = Some (length (vc_entries c) - 1) \<and>
       vc_entries c ! (length (vc_entries c) - 1) = r"
proof -
  obtain c current where c: "bt_get (ch_messages st) (vmr_message_serial request) = Some c" "chain_ok c"
    "chain_latest c = Some current"
    "svr_apply_mutation to_value current request (ch_stream_id st) (mutation_position st current) = Inr r"
    "svr_message_serial r = vmr_message_serial request"
    "svr_version_serial current < svr_version_serial r" "validate_incoming c r = Inr ()"
    "\<forall>i. vmr_idempotency request = Some i \<longrightarrow> vc_operations c (pim_cache_key i) = None"
    "st' = mutation_applied st c current r now"
    by (rule mutation_step_facts [OF ok step]) (rule that)
  show op: "svr_operation r = Some i"
    using svr_apply_mutation_Inr(4) [OF c(4)] i by (auto simp: svr_operation_def)
  show "ch_stream_id st' = ch_stream_id st" by (simp add: c(9) mutation_applied_def)
  have "bt_get (ch_messages st') (vmr_message_serial request) = Some (chain_push r c)"
    by (simp add: c(5,9) mutation_applied_def bt_get_insert)
  moreover have "chain_ok (chain_push r c)" using chain_ok_push [OF _ c(7)] c(2) by blast
  moreover have "vc_operations (chain_push r c) (pim_cache_key i) = Some (length (vc_entries c))"
    using c(8) i op by (simp add: chain_push_def Let_def)
  ultimately show "\<exists>c. bt_get (ch_messages st') (vmr_message_serial request) = Some c \<and> chain_ok c \<and>
      chain_latest c = Some r \<and>
      vc_operations c (pim_cache_key i) = Some (length (vc_entries c) - 1) \<and>
      vc_entries c ! (length (vc_entries c) - 1) = r"
    using chain_is_open_push_newest(1) [OF c(2,3,6,7)] by (intro exI [of _ "chain_push r c"]) simp
qed

lemma channel_receipt_duplicate:
  assumes ok: "version_channel_ok st2" and grows: "channel_grows st1 st2"
    and c: "bt_get (ch_messages st1) m = Some c" "chain_ok c" "vc_operations c k = Some j" "svr_operation (vc_entries c ! j) = Some i"
    and again: "vmr_message_serial request = m" "vmr_idempotency request = Some i'" "pim_cache_key i' = k"
  shows "compare_and_apply_channel to_vec to_value st2 request now =
    (st2, if pim_payload_fingerprint i' = pim_payload_fingerprint i
          then Inr (MutDuplicate (vc_entries c ! j) (ch_stream_id st2)) else Inl IdempotencyConflict)"
proof -
  from grows c(1) obtain c2 es where c2: "bt_get (ch_messages st2) m = Some c2" "vc_entries c2 = vc_entries c @ es"
    unfolding channel_grows_def by blast
  with ok have "chain_ok c2" by (simp add: version_channel_ok_def chains_ok_def)
  have j: "vc_operations (chain_of (vc_entries c)) k = Some j" using chain_ok_operations [OF c(2)] c(3) by simp
  have "vc_operations c2 k = Some j"
    using chain_of_operations_append [OF j, of es] chain_ok_operations [OF \<open>chain_ok c2\<close>] c2(2) by simp
  moreover have "vc_entries c2 ! j = vc_entries c ! j"
    using chain_of_operations_Some(1) [OF j] c2(2) by (simp add: nth_append)
  ultimately show ?thesis
    using c2(1) c(4) again by (simp add: compare_and_apply_channel_def)
qed

text \<open>C1: Exactly once. After a mutation with an idempotency key was applied, and after any further
  writes to the store by anybody (no purge), a request for the same message with the same key is
  answered with the record that was committed the first time if its payload fingerprint is the
  same, and with an idempotency conflict otherwise; the store does not change.\<close>
theorem version_retry_exactly_once:
  assumes reach: "version_reachable to_vec to_value s"
    and step: "compare_and_apply to_vec to_value s request now = (s1, Inr (MutApplied r stream_id))"
    and i: "vmr_idempotency request = Some i"
    and writes: "(version_write to_vec to_value)\<^sup>*\<^sup>* s1 s2"
    and again: "vmr_app_id again = vmr_app_id request" "vmr_channel again = vmr_channel request"
      "vmr_message_serial again = vmr_message_serial request"
      "vmr_idempotency again = Some i'" "pim_cache_key i' = pim_cache_key i"
  shows "compare_and_apply to_vec to_value s2 again now' =
    (s2, if pim_payload_fingerprint i' = pim_payload_fingerprint i
         then Inr (MutDuplicate r stream_id) else Inl IdempotencyConflict)"
proof -
  let ?key = "version_channel_key (vmr_app_id request) (vmr_channel request)"
  have ok: "version_store_ok s" using reach by (rule version_reachable_ok)
  obtain st st1 where st: "version_channel_ok st" "mutation_step to_value st request now st1 r"
    "stream_id = ch_stream_id st" "s1 = bt_insert ?key st1 s"
    by (rule compare_and_apply_applied [OF ok step]) (rule that)
  have "version_store_ok s1"
    using version_write_ok [OF version_write.mutate [OF step] ok] .
  from version_writes [OF writes this] have ok2: "version_store_ok s2" and grows: "store_grows s1 s2" by auto
  have "bt_get s1 ?key = Some st1" by (simp add: st(4) bt_get_insert)
  with grows obtain st2 where st2: "bt_get s2 ?key = Some st2" "channel_grows st1 st2"
    unfolding store_grows_def by blast
  with ok2 have ok2': "version_channel_ok st2" "bt_wf s2" by (auto simp: version_store_ok_def)
  note receipt = mutation_step_receipt [OF st(1,2) i]
  from receipt(3) obtain c where c: "bt_get (ch_messages st1) (vmr_message_serial request) = Some c" "chain_ok c"
    "vc_operations c (pim_cache_key i) = Some (length (vc_entries c) - 1)" "vc_entries c ! (length (vc_entries c) - 1) = r"
    by blast
  have "ch_stream_id st2 = stream_id" using st2(2) receipt(2) st(3) by (simp add: channel_grows_def)
  with channel_receipt_duplicate [OF ok2'(1) st2(2) c(1-3) _ again(3,4,5), of i] c(4) receipt(1) st2(1) ok2'(2)
  show ?thesis by (simp add: compare_and_apply_def again)
qed

lemma channel_stale_conflict:
  assumes "bt_get (ch_messages st) (vmr_message_serial request) = Some c" and "chain_latest c = Some r"
    and "vmr_idempotency request = None" and "\<not> precondition_matches (vmr_expected request) r"
  shows "compare_and_apply_channel to_vec to_value st request now = (st, Inr (MutConflict (Some r)))"
  using assms by (simp add: compare_and_apply_channel_def compare_and_apply_current_def)

lemma mutation_step_latest:
  assumes ok: "version_channel_ok st" and step: "mutation_step to_value st request now st' r"
  shows "\<not> precondition_matches (vmr_expected request) r"
    "\<exists>c. bt_get (ch_messages st') (vmr_message_serial request) = Some c \<and> chain_latest c = Some r"
proof -
  obtain c current where c: "chain_ok c" "chain_latest c = Some current"
    "precondition_matches (vmr_expected request) current" "svr_message_serial r = vmr_message_serial request"
    "svr_version_serial current < svr_version_serial r" "validate_incoming c r = Inr ()"
    "st' = mutation_applied st c current r now"
    by (rule mutation_step_facts [OF ok step]) (rule that)
  show "\<not> precondition_matches (vmr_expected request) r"
    using c(3,5) by (auto simp: precondition_matches_def)
  show "\<exists>c. bt_get (ch_messages st') (vmr_message_serial request) = Some c \<and> chain_latest c = Some r"
    using chain_is_open_push_newest(1) [OF c(1,2,5,6)] c(4)
    by (simp add: c(7) mutation_applied_def bt_get_insert)
qed


section \<open>Agreement with the shared mutation rules\<close>

lemma chain_ok_next_incoming:
  assumes c: "chain_ok c" "chain_latest c = Some current" and m: "svr_message r = m"
    and r: "vm_message_serial m = svr_message_serial current" "vm_history_serial m = svr_history_serial current"
      "svr_version_serial current < vm_version_serial m"
  shows "validate_incoming c r = Inr ()"
proof -
  from chain_ok_latest [OF c(1), of current] c(2) have cur: "current \<in> set (vc_entries c)"
    "\<forall>e \<in> set (vc_entries c). svr_version_serial e \<le> svr_version_serial current" by simp_all
  from c(1) obtain e es where es: "vc_entries c = e # es" by (cases "vc_entries c") (auto simp: chain_ok_def)
  have "svr_message_serial current = svr_message_serial (hd (vc_entries c)) \<and>
      svr_history_serial current = svr_history_serial (hd (vc_entries c))"
    using c(1) cur(1) unfolding chain_ok_def by blast
  with es have "svr_message_serial current = svr_message_serial e" "svr_history_serial current = svr_history_serial e" by simp_all
  moreover have "vc_versions c = svr_version_serial ` set (vc_entries c)"
    using c(1) chain_of_versions [of "vc_entries c"] unfolding chain_ok_def by argo
  with cur(2) r(3) have "vm_version_serial m \<notin> vc_versions c" by fastforce
  ultimately show ?thesis
    using r(1,2) m by (simp add: validate_incoming_def es)
qed

lemma channel_next_fresh:
  assumes ok: "version_channel_ok st" and next_serial: "ch_next_delivery_serial st \<noteq> - 1"
    and c: "bt_get (ch_messages st) m = Some c" "chain_latest c = Some current"
  shows "mutation_position st current = ch_next_delivery_serial st"
    "bt_get (ch_replay st) (ch_next_delivery_serial st) = None"
proof -
  have entries: "replay_entries_ok st" and chains: "chains_ok st" using ok by (simp_all add: version_channel_ok_def)
  have "chain_ok c" using chains c(1) by (simp add: chains_ok_def)
  with c(2) have "current \<in> set (vc_entries c)" by (simp add: chain_ok_latest)
  with chains c(1) have "bt_get (ch_replay st) (svr_delivery_serial current) = Some current" by (simp add: chains_ok_def)
  with entries have "sat_add (svr_delivery_serial current) 1 \<le> ch_next_delivery_serial st"
    unfolding replay_entries_ok_def by blast
  then show "mutation_position st current = ch_next_delivery_serial st"
    by (simp add: mutation_position_def max_def)
  show "bt_get (ch_replay st) (ch_next_delivery_serial st) = None"
  proof (rule ccontr)
    assume "\<not> ?thesis"
    with entries have "sat_add (ch_next_delivery_serial st) 1 \<le> ch_next_delivery_serial st"
      unfolding replay_entries_ok_def by blast
    with less_sat_add_1 [OF next_serial] show False by simp
  qed
qed

lemma channel_mutation_rules:
  assumes ok: "version_channel_ok st" and next_serial: "ch_next_delivery_serial st \<noteq> - 1"
    and c: "bt_get (ch_messages st) (vmr_message_serial request) = Some c" "chain_latest c = Some current"
    and plain: "vmr_idempotency request = None" "vml_max_open_streaming_messages_per_channel (vmr_limits request) = None"
  shows "snd (compare_and_apply_channel to_vec to_value st request now) =
    mutation_apply_to to_vec to_value request current (ch_stream_id st) (ch_next_delivery_serial st) (vc_append_count c)"
proof -
  note pos = channel_next_fresh [OF ok next_serial c]
  have cok: "chain_ok c" using ok c(1) by (simp add: version_channel_ok_def chains_ok_def)
  have ins: "snd (compare_and_apply_insert st c current r (vmr_message_serial request) (ch_next_delivery_serial st) now) =
      Inr (MutApplied r (ch_stream_id st))"
    if r: "svr_apply_mutation to_value current request (ch_stream_id st) (ch_next_delivery_serial st) = Inr r" for r
    using chain_ok_next_incoming [OF cok c(2) refl, of r] svr_apply_mutation_message [OF r] pos(2)
    by (simp add: compare_and_apply_insert_def bt_contains_def)
  have record': "snd (compare_and_apply_record to_vec to_value st c current request (ch_next_delivery_serial st) now) =
      (case svr_apply_mutation to_value current request (ch_stream_id st) (ch_next_delivery_serial st) of
        Inl e \<Rightarrow> Inl e
      | Inr r \<Rightarrow> (case vml_max_accumulated_message_bytes (vmr_limits request) of
             None \<Rightarrow> Inr (MutApplied r (ch_stream_id st))
           | Some l \<Rightarrow> (case data_bytes to_vec r of Inl e \<Rightarrow> Inl e
                | Inr n \<Rightarrow> if n > l then Inr (MutRejected (AccumulatedMessageBytes l)) else Inr (MutApplied r (ch_stream_id st)))))"
    using plain(2) ins by (auto simp: compare_and_apply_record_def Let_def split: sum.splits option.splits)
  have "snd (compare_and_apply_channel to_vec to_value st request now) =
      snd (compare_and_apply_current to_vec to_value st c current request now)"
    using c plain(1) by (simp add: compare_and_apply_channel_def)
  also have "\<dots> = mutation_apply_to to_vec to_value request current (ch_stream_id st) (ch_next_delivery_serial st) (vc_append_count c)"
    using pos(1) [unfolded mutation_position_def] record'
    by (auto simp: compare_and_apply_current_def mutation_apply_to_def is_terminal_def Let_def
        split: version_mutation.splits option.splits)
  finally show ?thesis .
qed

text \<open>C17: The in-memory store decides mutations as the rules shared by the other backends do: without an
  idempotency key and a limit on open streams, its outcome is \<open>apply_to\<close> evaluated on the latest
  version with the channel's stream id and next delivery serial and the number of appends in
  the chain, until the serials of a channel are used up.\<close>
theorem version_mutation_rules_shared:
  assumes reach: "version_reachable to_vec to_value s"
    and st: "bt_get s (version_channel_key (vmr_app_id request) (vmr_channel request)) = Some st"
    and serials: "ch_next_delivery_serial st \<noteq> - 1"
    and c: "bt_get (ch_messages st) (vmr_message_serial request) = Some c"
    and current: "version_get_latest s (vmr_app_id request) (vmr_channel request) (vmr_message_serial request) =
      Inr (Some current)"
    and plain: "vmr_idempotency request = None" "vml_max_open_streaming_messages_per_channel (vmr_limits request) = None"
  shows "snd (compare_and_apply to_vec to_value s request now) =
    mutation_apply_to to_vec to_value request current (ch_stream_id st) (ch_next_delivery_serial st)
      (length (filter (\<lambda>e. vm_action (svr_message e) = AAppend) (vc_entries c)))"
proof -
  have ok: "version_channel_ok st" using version_reachable_ok [OF reach] st by (simp add: version_store_ok_def)
  then have cok: "chain_ok c" using c by (simp add: version_channel_ok_def chains_ok_def)
  have "chain_latest c = Some current"
    using current st c by (simp add: version_get_latest_def split: option.splits)
  moreover have "vc_append_count c = length (filter (\<lambda>e. vm_action (svr_message e) = AAppend) (vc_entries c))"
    using cok chain_of_append_count [of "vc_entries c"] unfolding chain_ok_def by argo
  ultimately show ?thesis
    using channel_mutation_rules [OF ok serials c _ plain, of current to_vec to_value now] st
    by (simp add: compare_and_apply_def Let_def case_prod_beta)
qed

text \<open>What a reader sees is the specified selection: the latest version of a message is the one that
  \<open>select_latest_visible\<close> picks from all retained versions, and a message with a chain always has one.\<close>
theorem version_latest_is_visible:
  assumes reach: "version_reachable to_vec to_value s"
    and st: "bt_get s (version_channel_key app_id channel) = Some st"
    and c: "bt_get (ch_messages st) m = Some c"
  shows "\<exists>r. version_get_latest s app_id channel m = Inr (Some r) \<and> r \<in> set (vc_entries c) \<and>
    select_latest_visible (map svr_message (vc_entries c)) = Inr (svr_message r)"
proof -
  have "version_channel_ok st" using version_reachable_ok [OF reach] st by (simp add: version_store_ok_def)
  with c have cok: "chain_ok c" by (simp add: version_channel_ok_def chains_ok_def)
  have es: "distinct (map svr_version_serial (vc_entries c))" "vc_entries c \<noteq> []" "chain_of (vc_entries c) = c"
    "\<forall>e \<in> set (vc_entries c). svr_message_serial e = svr_message_serial (hd (vc_entries c)) \<and>
       svr_history_serial e = svr_history_serial (hd (vc_entries c))"
    using cok unfolding chain_ok_def by argo+
  obtain r where r: "chain_latest c = Some r" "select_latest_visible (map svr_message (vc_entries c)) = Inr (svr_message r)"
    using chain_of_latest_visible [OF es(1,2,4)] es(3) by auto
  with chain_ok_latest [OF cok, of r] st c show ?thesis by (simp add: version_get_latest_def)
qed

text \<open>Admission of open streams. A create that opens a stream under a limit leaves at most that many
  messages of the channel whose latest version is an open stream.\<close>
theorem version_open_streams_bounded:
  assumes reach: "version_reachable to_vec to_value s"
    and step: "commit_create to_vec s request uuid now = (s', Inr (CreateApplied r sid))"
    and opens: "is_open_ai_stream (vcr_record request)"
    and limit: "vcl_max_open_streaming_messages_per_channel (vcr_limits request) = Some l"
  shows "\<exists>st. bt_get s' (version_channel_key (svr_app_id r) (svr_channel r)) = Some st \<and>
    length (filter (\<lambda>p. chain_is_open (snd p)) (ch_messages st)) \<le> l"
proof -
  let ?key = "version_channel_key (svr_app_id (vcr_record request)) (svr_channel (vcr_record request))"
  let ?st = "version_channel_or_default s ?key uuid"
  have ok: "version_channel_ok ?st" using version_reachable_ok [OF reach] by simp
  obtain st where st: "commit_create_channel to_vec ?st request now = (st, Inr (CreateApplied r sid))"
    and s': "s' = bt_insert ?key st s"
    using step by (auto simp: commit_create_def Let_def split: prod.splits)
  have "version_channel_ok st" using commit_create_channel_ok [OF ok st] .
  then have "ch_open_stream_count st = int (length (filter (\<lambda>p. chain_is_open (snd p)) (ch_messages st)))"
    by (simp add: version_channel_ok_def bt_count_def)
  moreover have "ch_open_stream_count st \<le> int l \<and> svr_app_id r = svr_app_id (vcr_record request) \<and>
      svr_channel r = svr_channel (vcr_record request)"
    using st opens limit
    by (auto simp: commit_create_channel_def commit_create_insert_def Let_def split: option.splits sum.splits if_splits)
  ultimately show ?thesis by (auto simp: s' bt_get_insert)
qed

section \<open>Paging through the versions of a message\<close>

definition version_read_cursor ::
    "version_read_request \<Rightarrow> memory_version_store \<Rightarrow> version_cursor option \<Rightarrow>
     memory_version_store \<times> (error + stored_version_record list \<times> version_cursor option)" where
  "version_read_cursor q s c =
     (s, case get_versions s (q\<lparr>vrr_cursor := c\<rparr>) of
           Inl e \<Rightarrow> Inl e | Inr page \<Rightarrow> Inr (vpg_items page, vpg_next_cursor page))"

definition version_request_chain :: "version_read_request \<Rightarrow> memory_version_store \<Rightarrow> version_chain option" where
  "version_request_chain q s =
     (case bt_get s (version_channel_key (vrr_app_id q) (vrr_channel q)) of
        None \<Rightarrow> None | Some st \<Rightarrow> bt_get (ch_messages st) (vrr_message_serial q))"

definition version_ready :: "version_read_request \<Rightarrow> memory_version_store \<Rightarrow> bool" where
  "version_ready q s \<longleftrightarrow> version_store_ok s \<and> vrr_limit q \<noteq> 0 \<and> vrr_limit q \<noteq> - 1"

definition version_live :: "version_read_request \<Rightarrow> memory_version_store \<Rightarrow> version_cursor option \<Rightarrow> bool" where
  "version_live q s c \<longleftrightarrow> version_read_validate (q\<lparr>vrr_cursor := c\<rparr>) = Inr ()"

definition version_rest ::
    "version_read_request \<Rightarrow> memory_version_store \<Rightarrow> version_cursor option \<Rightarrow> stored_version_record list" where
  "version_rest q s c =
     (case version_request_chain q s of
        None \<Rightarrow> []
      | Some chain \<Rightarrow> filter (version_beyond (vrr_direction q) c) (version_items chain (vrr_direction q)))"

definition version_page_size :: "version_read_request \<Rightarrow> nat" where
  "version_page_size q = unat (vrr_limit q)"

definition version_before :: "version_direction \<Rightarrow> version_serial \<Rightarrow> version_serial \<Rightarrow> bool" where
  "version_before d a b = (case d of VNewestFirst \<Rightarrow> b < a | VOldestFirst \<Rightarrow> a < b)"

lemma version_items_sorted:
  assumes "chain_ok c"
  shows "sorted_wrt (\<lambda>x y. version_before d (svr_version_serial x) (svr_version_serial y)) (version_items c d)"
proof -
  let ?xs = "sort_key svr_version_serial (vc_entries c)"
  have "distinct (map svr_version_serial (vc_entries c))" using assms unfolding chain_ok_def by argo
  then have "distinct (map svr_version_serial ?xs)"
    by (simp add: distinct_map)
  moreover have "sorted (map svr_version_serial ?xs)" by simp
  ultimately have "sorted_wrt (<) (map svr_version_serial ?xs)" by (simp add: strict_sorted_iff)
  then show ?thesis
    by (cases d) (simp_all add: version_items_def version_before_def sorted_wrt_map sorted_wrt_rev)
qed

lemma version_beyond_before:
  "version_beyond d c item \<longleftrightarrow>
     (case c of None \<Rightarrow> True | Some cur \<Rightarrow> version_before d (vcur_version_serial cur) (svr_version_serial item))"
  by (simp add: version_beyond_def version_before_def split: option.splits version_direction.splits)

lemma version_before_order: "transp (version_before d)" "asymp (version_before d)"
  by (cases d; auto simp: version_before_def transp_def asymp_on_def)+

lemma version_page_of_rest:
  assumes "vrr_limit q \<noteq> - 1" and c: "version_request_chain q s = Some chain"
  shows "vpg_items (version_page_of chain (q\<lparr>vrr_cursor := c\<rparr>)) = take (version_page_size q) (version_rest q s c)"
    "vpg_next_cursor (version_page_of chain (q\<lparr>vrr_cursor := c\<rparr>)) =
      (if version_page_size q < length (version_rest q s c)
       then map_option (\<lambda>item. \<lparr>vcur_version = 1, vcur_version_serial = svr_version_serial item,
              vcur_direction = vrr_direction q\<rparr>) (back_of (take (version_page_size q) (version_rest q s c)))
       else None)"
  using assms by (auto simp: version_page_of_def version_rest_def version_page_size_def Let_def unat_limit_plus_1 min_def)

lemma version_read_cursor_page:
  assumes "version_ready q s" and "version_live q s c"
  shows "version_read_cursor q s c = (s, Inr (take (version_page_size q) (version_rest q s c),
    if version_page_size q < length (version_rest q s c)
    then map_option (\<lambda>item. \<lparr>vcur_version = 1, vcur_version_serial = svr_version_serial item,
           vcur_direction = vrr_direction q\<rparr>) (back_of (take (version_page_size q) (version_rest q s c)))
    else None))"
proof (cases "version_request_chain q s")
  case None
  with assms show ?thesis
    by (auto simp: version_read_cursor_def get_versions_def version_live_def version_request_chain_def
        version_rest_def split: option.splits)
next
  case (Some chain)
  with assms have "get_versions s (q\<lparr>vrr_cursor := c\<rparr>) = Inr (version_page_of chain (q\<lparr>vrr_cursor := c\<rparr>))"
    by (auto simp: get_versions_def version_live_def version_request_chain_def split: option.splits)
  with assms(1) version_page_of_rest [OF _ Some] show ?thesis
    by (simp add: version_read_cursor_def version_ready_def)
qed

lemma version_inner_page:
  assumes rdy: "version_ready q s" and live: "version_live q s c"
    and n: "version_page_size q < length (version_rest q s c)"
  shows "\<exists>s' c'. version_read_cursor q s c = (s', Inr (take (version_page_size q) (version_rest q s c), Some c')) \<and>
    version_ready q s' \<and> version_live q s' (Some c') \<and>
    version_rest q s' (Some c') = drop (version_page_size q) (version_rest q s c)"
proof -
  let ?n = "version_page_size q" and ?d = "vrr_direction q"
  from n obtain chain where chain: "version_request_chain q s = Some chain"
    by (auto simp: version_rest_def split: option.splits)
  have pos: "0 < ?n" using rdy by (simp add: version_page_size_def version_ready_def unat_gt_0)
  define lst where "lst = version_rest q s c ! (?n - 1)"
  define c' where "c' = \<lparr>vcur_version = 1, vcur_version_serial = svr_version_serial lst, vcur_direction = ?d\<rparr>"
  have "back_of (map id (take ?n (version_rest q s c))) = Some (id lst)"
    unfolding lst_def using pos n by (intro back_of_map_take) simp_all
  then have rd: "version_read_cursor q s c = (s, Inr (take ?n (version_rest q s c), Some c'))"
    using version_read_cursor_page [OF rdy live] n by (simp add: c'_def)
  from chain rdy have "chain_ok chain"
    by (auto simp: version_request_chain_def version_ready_def version_store_ok_def version_channel_ok_def chains_ok_def
        split: option.splits)
  have rest: "version_rest q s c = filter (version_beyond ?d c) (version_items chain ?d)"
    by (simp add: version_rest_def chain)
  have "filter (\<lambda>x. True \<and> version_before ?d (svr_version_serial (filter (version_beyond ?d c) (version_items chain ?d) ! (?n - 1)))
      (svr_version_serial x)) (version_items chain ?d) = drop ?n (filter (version_beyond ?d c) (version_items chain ?d))"
    by (rule next_window [where c = "map_option vcur_version_serial c",
          OF version_items_sorted [OF \<open>chain_ok chain\<close>] version_before_order pos n [unfolded rest]])
      (simp add: version_beyond_before split: option.splits)
  then have "version_rest q s (Some c') = drop ?n (version_rest q s c)"
    unfolding version_rest_def [of q s "Some c'"] chain rest
    by (simp add: version_beyond_before [abs_def] c'_def lst_def rest)
  moreover have "version_live q s (Some c')"
    using rdy by (simp add: version_live_def version_read_validate_def version_ready_def c'_def)
  ultimately show ?thesis using rd rdy by blast
qed

interpretation vpg: cursor_reader version_read_cursor version_ready version_live version_rest version_page_size
proof (unfold_locales, goal_cases)
  case (1 q s)
  then show ?case by (simp add: version_ready_def version_page_size_def unat_gt_0)
next
  case (2 q s c)
  then show ?case by (simp add: version_read_cursor_page)
qed (rule version_inner_page)

text \<open>C16: Following the cursors of the version history returns every retained version of the message exactly
  once, in version order (or its reverse), whatever the page size below the largest \<open>usize\<close>.\<close>
theorem version_drain_complete:
  assumes reach: "version_reachable to_vec to_value s"
    and limit: "vrr_limit q \<noteq> 0" "vrr_limit q \<noteq> - 1"
    and chain: "version_request_chain q s = Some c"
  shows "\<exists>s' items. drain (Suc (length (vc_entries c))) (version_read_cursor q) s None = Some (s', Inr items) \<and>
    set items = set (vc_entries c) \<and> distinct items \<and>
    sorted_wrt (\<lambda>x y. version_before (vrr_direction q) (svr_version_serial x) (svr_version_serial y)) items"
proof -
  have rdy: "version_ready q s" using version_reachable_ok [OF reach] limit by (simp add: version_ready_def)
  have cok: "chain_ok c"
    using chain rdy by (auto simp: version_request_chain_def version_ready_def version_store_ok_def
        version_channel_ok_def chains_ok_def split: option.splits)
  have live: "version_live q s None" using limit by (simp add: version_live_def version_read_validate_def)
  have rest: "version_rest q s None = version_items c (vrr_direction q)"
    by (simp add: version_rest_def chain version_beyond_def)
  have items: "set (version_items c (vrr_direction q)) = set (vc_entries c)"
    "length (version_items c (vrr_direction q)) = length (vc_entries c)"
    by (simp_all add: version_items_def Let_def split: version_direction.splits)
  have "distinct (map svr_version_serial (vc_entries c))" using cok unfolding chain_ok_def by argo
  then have "distinct (version_items c (vrr_direction q))"
    by (simp add: version_items_def Let_def distinct_map split: version_direction.splits)
  with vpg.drain_all [OF rdy live, of "Suc (length (vc_entries c))"] version_items_sorted [OF cok] items
  show ?thesis by (auto simp: rest)
qed

section \<open>Replay\<close>

lemma gapless_upt:
  assumes "sorted_wrt (<) ks" and "\<forall>k \<in> set ks. a < k" and "\<forall>k \<in> set ks. \<forall>d. a < d \<and> d < k \<longrightarrow> d \<in> set ks"
  shows "[Suc a..<Suc a + length ks] = ks"
  using assms
proof (induction ks arbitrary: a)
  case (Cons k ks)
  have "k = Suc a"
  proof (rule ccontr)
    assume "k \<noteq> Suc a"
    with Cons.prems(2) have "Suc a < k" by auto
    with Cons.prems(3) have "Suc a \<in> set (k # ks)" by auto
    with \<open>Suc a < k\<close> Cons.prems(1) show False by auto
  qed
  have closed: "\<forall>x \<in> set ks. \<forall>d. k < d \<and> d < x \<longrightarrow> d \<in> set ks"
    using Cons.prems(3) unfolding \<open>k = Suc a\<close> by (metis Suc_lessD less_irrefl list.set_intros(2) set_ConsD)
  have "[Suc k..<Suc k + length ks] = ks"
    by (rule Cons.IH [OF _ _ closed]) (use Cons.prems(1) in simp_all)
  with \<open>k = Suc a\<close> show ?case by (simp add: upt_conv_Cons del: upt_Suc)
qed simp

definition replay_window :: "memory_version_channel \<Rightarrow> u64 \<Rightarrow> stored_version_record list" where
  "replay_window st after = bt_values (bt_from (sat_add after 1) (ch_replay st))"

lemma replay_window_facts:
  assumes ok: "version_channel_ok st" and after: "after \<noteq> - 1"
  shows "sorted_wrt (<) (map (\<lambda>r. unat (svr_delivery_serial r)) (replay_window st after))"
    "r \<in> set (replay_window st after) \<longleftrightarrow> bt_get (ch_replay st) (svr_delivery_serial r) = Some r \<and> after < svr_delivery_serial r"
proof -
  have wf: "bt_wf (ch_replay st)" and entries: "replay_entries_ok st" using ok by (simp_all add: version_channel_ok_def)
  have key: "svr_delivery_serial (snd p) = fst p" if "p \<in> set (ch_replay st)" for p
    using entries that bt_get_iff [OF wf] unfolding replay_entries_ok_def by (metis prod.collapse)
  have "sorted_wrt (\<lambda>p q. fst p < fst q) (bt_from (sat_add after 1) (ch_replay st))"
    using wf by (simp add: bt_wf_def bt_from_def sorted_wrt_map sorted_wrt_filter)
  then have "sorted_wrt (\<lambda>p q. unat (svr_delivery_serial (snd p)) < unat (svr_delivery_serial (snd q)))
      (bt_from (sat_add after 1) (ch_replay st))"
    by (rule sorted_wrt_mono_rel [rotated]) (auto simp: bt_from_def key u64_less_iff)
  then show "sorted_wrt (<) (map (\<lambda>r. unat (svr_delivery_serial r)) (replay_window st after))"
    by (simp add: replay_window_def bt_values_def sorted_wrt_map)
  have "r \<in> set (replay_window st after) \<longleftrightarrow> (\<exists>d. (d, r) \<in> set (ch_replay st) \<and> sat_add after 1 \<le> d)"
    by (force simp: replay_window_def bt_values_def bt_from_def)
  also have "\<dots> \<longleftrightarrow> (svr_delivery_serial r, r) \<in> set (ch_replay st) \<and> after < svr_delivery_serial r"
    using key [of "(_, r)", simplified] unfolding sat_add_1_le_iff [OF after] by blast
  finally show "r \<in> set (replay_window st after) \<longleftrightarrow>
      bt_get (ch_replay st) (svr_delivery_serial r) = Some r \<and> after < svr_delivery_serial r"
    by (simp add: bt_get_iff [OF wf])
qed

lemma replay_window_gapless:
  assumes ok: "version_channel_ok st" and after: "after \<noteq> - 1"
    and gapless: "\<And>d d'. after < d \<Longrightarrow> d < d' \<Longrightarrow> bt_contains (ch_replay st) d' \<Longrightarrow> bt_contains (ch_replay st) d"
  shows "map (\<lambda>r. unat (svr_delivery_serial r)) (replay_window st after) =
    [Suc (unat after)..<Suc (unat after) + length (replay_window st after)]"
proof -
  let ?ks = "map (\<lambda>r. unat (svr_delivery_serial r)) (replay_window st after)"
  note facts = replay_window_facts [OF ok after]
  have entries: "replay_entries_ok st" using ok by (simp add: version_channel_ok_def)
  have below: "d \<in> set ?ks" if k: "k \<in> set ?ks" and d: "unat after < d" "d < k" for k d
  proof -
    from k obtain r where r: "r \<in> set (replay_window st after)" "k = unat (svr_delivery_serial r)" by auto
    define w where "w = (of_nat d :: u64)"
    have w: "unat w = d"
      unfolding w_def using d(2) r(2) unat_u64_less [of "svr_delivery_serial r"] by (simp add: unat_of_nat)
    then have "bt_contains (ch_replay st) w"
      using gapless [of w "svr_delivery_serial r"] r d facts(2) [of r] by (simp add: u64_less_iff bt_contains_def)
    then obtain r' where "bt_get (ch_replay st) w = Some r'" by (auto simp: bt_contains_def)
    with entries w d facts(2) [of r'] have "r' \<in> set (replay_window st after)" "unat (svr_delivery_serial r') = d"
      by (auto simp: replay_entries_ok_def u64_less_iff)
    then show ?thesis by force
  qed
  have "[Suc (unat after)..<Suc (unat after) + length ?ks] = ?ks"
    using facts below by (intro gapless_upt) (auto simp: u64_less_iff)
  then show ?thesis by (metis length_map)
qed

lemma replay_window_all:
  assumes ok: "version_channel_ok st" and after: "after \<noteq> - 1" and r: "bt_get (ch_replay st) d = Some r" "after < d"
  shows "r \<in> set (replay_window st after)"
proof -
  have "svr_delivery_serial r = d" using ok r(1) by (simp add: version_channel_ok_def replay_entries_ok_def)
  with replay_window_facts(2) [OF ok after] r show ?thesis by simp
qed

lemma replay_window_gap:
  assumes ok: "version_channel_ok st" and after: "after \<noteq> - 1"
    and gap: "map (\<lambda>r. unat (svr_delivery_serial r)) (take n (replay_window st after)) \<noteq>
      [Suc (unat after)..<Suc (unat after) + length (take n (replay_window st after))]"
  shows "\<exists>d d'. after < d \<and> d < d' \<and> \<not> bt_contains (ch_replay st) d \<and> bt_contains (ch_replay st) d'"
proof (rule ccontr)
  assume "\<not> ?thesis"
  then have gapless: "\<And>d d'. after < d \<Longrightarrow> d < d' \<Longrightarrow> bt_contains (ch_replay st) d' \<Longrightarrow> bt_contains (ch_replay st) d"
    by blast
  have "map (\<lambda>r. unat (svr_delivery_serial r)) (replay_window st after) =
       [Suc (unat after)..<Suc (unat after) + length (replay_window st after)]"
    by (rule replay_window_gapless [OF ok after gapless])
  then have "take n (map (\<lambda>r. unat (svr_delivery_serial r)) (replay_window st after)) =
      take n [Suc (unat after)..<Suc (unat after) + length (replay_window st after)]" by simp
  then have "map (\<lambda>r. unat (svr_delivery_serial r)) (take n (replay_window st after)) =
      [Suc (unat after)..<Suc (unat after) + length (take n (replay_window st after))]"
    by (simp add: take_map take_upt min_def del: upt_Suc split: if_splits)
  with gap show False by simp
qed

text \<open>C13: A replay after a position is either exactly the next records, with consecutive delivery serials
  starting right after it and, when fewer than the limit, all there are; or an error, and then a
  delivery serial is really missing below a stored one.\<close>
theorem version_replay_contiguous:
  assumes reach: "version_reachable to_vec to_value s"
    and st: "bt_get s (version_channel_key (vrp_app_id q) (vrp_channel q)) = Some st"
    and limit: "vrp_limit q \<noteq> 0" "unat (vrp_after_delivery_serial q) + unat (vrp_limit q) < 2 ^ 64 - 1"
  shows "case version_replay_after s q of
      Inr items \<Rightarrow>
        map (\<lambda>r. unat (svr_delivery_serial r)) items =
          [Suc (unat (vrp_after_delivery_serial q))..<Suc (unat (vrp_after_delivery_serial q)) + length items] \<and>
        length items \<le> unat (vrp_limit q) \<and>
        (\<forall>r \<in> set items. bt_get (ch_replay st) (svr_delivery_serial r) = Some r) \<and>
        (length items < unat (vrp_limit q) \<longrightarrow>
          (\<forall>d r. bt_get (ch_replay st) d = Some r \<and> vrp_after_delivery_serial q < d \<longrightarrow> r \<in> set items))
    | Inl e \<Rightarrow> \<exists>d d'. vrp_after_delivery_serial q < d \<and> d < d' \<and> \<not> bt_contains (ch_replay st) d \<and> bt_contains (ch_replay st) d'"
proof -
  let ?a = "vrp_after_delivery_serial q" and ?n = "unat (vrp_limit q)"
  let ?items = "take ?n (replay_window st ?a)"
  have ok: "version_channel_ok st" using version_reachable_ok [OF reach] st by (simp add: version_store_ok_def)
  have after: "?a \<noteq> - 1" using limit(2) by (simp add: u64_neq_max_iff)
  note facts = replay_window_facts [OF ok after]
  have next_serial: "unat (sat_add ?a 1) = Suc (unat ?a)" using limit(2) by (simp add: unat_sat_add)
  have res: "version_replay_after s q =
      (case validate_continuity_from (sat_add ?a 1) (map svr_message ?items) of Inl e \<Rightarrow> Inl e | Inr _ \<Rightarrow> Inr ?items)"
    using st limit(1)
    unfolding version_replay_after_def version_replay_validate_def validate_replay_continuity_def replay_window_def Let_def
    by simp
  have valid: "validate_continuity_from (sat_add ?a 1) (map svr_message ?items) = Inr u \<longleftrightarrow>
      map (\<lambda>r. unat (svr_delivery_serial r)) ?items = [Suc (unat ?a)..<Suc (unat ?a) + length ?items]" for u
    using limit(2) validate_continuity_from_Inr [of "sat_add ?a 1" "map svr_message ?items" u]
    by (simp add: next_serial comp_def min_def split: if_splits)
  show ?thesis
  proof (cases "validate_continuity_from (sat_add ?a 1) (map svr_message ?items)")
    case (Inr u)
    have stored: "bt_get (ch_replay st) (svr_delivery_serial r) = Some r" if "r \<in> set ?items" for r
      using facts(2) in_set_takeD [OF that] by blast
    have all: "r \<in> set ?items" if "length ?items < ?n" "bt_get (ch_replay st) d = Some r" "?a < d" for d r
      using replay_window_all [OF ok after that(2,3)] that(1) by (simp add: min_def split: if_splits)
    have eq: "version_replay_after s q = Inr ?items" using Inr by (simp add: res)
    have "length ?items \<le> ?n" by simp
    with Inr valid stored all show ?thesis unfolding eq sum.case by blast
  next
    case (Inl e)
    with valid have "\<exists>d d'. ?a < d \<and> d < d' \<and> \<not> bt_contains (ch_replay st) d \<and> bt_contains (ch_replay st) d'"
      using replay_window_gap [OF ok after, of ?n] by simp
    with Inl show ?thesis by (simp add: res)
  qed
qed

section \<open>Purging\<close>

text \<open>C14: One purge call removes at most a batch of rows, in each channel the oldest ones and only
  expired ones, and reports how many; when it reports that nothing is left, no channel starts
  with an expired row, and when it reports more, it has used the whole batch.\<close>
theorem version_purge_exact:
  assumes reach: "version_reachable to_vec to_value s" and "0 < batch"
    and step: "version_purge_before s before batch = (s', Inr (deleted, has_more))"
  shows "list_all2 (\<lambda>p p'. fst p' = fst p \<and> purged_channel before (snd p) (snd p')) s s' \<and>
    deleted \<le> batch \<and> deleted + stored_rows s' = stored_rows s \<and>
    (\<not> has_more \<longrightarrow> (\<forall>p \<in> set s'. \<not> purge_pending before (snd p))) \<and> (has_more \<longrightarrow> deleted = batch)"
proof -
  have "\<forall>p \<in> set s. version_channel_ok (snd p)"
    using version_reachable_ok [OF reach] by (simp add: version_store_ok_Ball)
  moreover have "purge_channels before batch 0 False s = (s', deleted, has_more)"
    using step \<open>0 < batch\<close> by (auto simp: version_purge_before_def split: prod.splits)
  ultimately have spec: "list_all2 (\<lambda>p p'. fst p' = fst p \<and> version_channel_ok (snd p') \<and>
      purged_channel before (snd p) (snd p')) s s'" "deleted \<le> batch" "deleted + stored_rows s' = stored_rows s"
    "\<not> has_more \<longrightarrow> (\<forall>p \<in> set s'. \<not> purge_pending before (snd p))" "has_more \<longrightarrow> deleted = batch"
    using purge_channels_spec [of s 0 batch before False s' deleted has_more] by simp_all
  from spec(1) have "list_all2 (\<lambda>p p'. fst p' = fst p \<and> purged_channel before (snd p) (snd p')) s s'"
    by (rule list_all2_mono) simp
  with spec(2-5) show ?thesis by blast
qed

text \<open>The inner loop of the purge worker of \<^verbatim>\<open>bootstrap/server.rs\<close>.\<close>

partial_function (option) version_purge_tick ::
    "i64 \<Rightarrow> nat \<Rightarrow> u64 \<Rightarrow> u64 \<Rightarrow> memory_version_store \<Rightarrow> (memory_version_store \<times> u64) option" where
  "version_purge_tick cutoff batch_size max_per_tick purged s =
     (case version_purge_before s cutoff batch_size of
        (s', Inl _) \<Rightarrow> Some (s', purged)
      | (s', Inr (deleted, has_more)) \<Rightarrow>
          (let purged' = sat_add purged (of_nat deleted) in
           if \<not> has_more \<or> purged' \<ge> max_per_tick then Some (s', purged')
           else version_purge_tick cutoff batch_size max_per_tick purged' s'))"

lemma version_purge_before_result: "\<exists>s' d h. version_purge_before s before batch = (s', Inr (d, h))"
  by (auto simp: version_purge_before_def split: prod.splits)

lemma purge_progress:
  assumes ok: "version_store_ok s" and "0 < batch"
    and step: "version_purge_before s before batch = (s', Inr (deleted, h))"
  shows "h \<Longrightarrow> stored_rows s' < stored_rows s" "\<not> h \<Longrightarrow> \<forall>p \<in> set s'. \<not> purge_pending before (snd p)"
proof -
  have "purge_channels before batch 0 False s = (s', deleted, h)"
    using step \<open>0 < batch\<close> by (auto simp: version_purge_before_def split: prod.splits)
  with ok purge_channels_spec [of s 0 batch before False s' deleted h] \<open>0 < batch\<close>
  show "h \<Longrightarrow> stored_rows s' < stored_rows s" "\<not> h \<Longrightarrow> \<forall>p \<in> set s'. \<not> purge_pending before (snd p)"
    by (auto simp: version_store_ok_Ball)
qed

text \<open>The purge worker's loop ends: with a batch size of at least one it returns, and unless the budget
  of the tick is used up no channel is left that starts with an expired row.\<close>
theorem version_purge_tick_terminates:
  assumes "version_reachable to_vec to_value s" and "0 < batch_size"
  shows "\<exists>s' purged'. version_purge_tick cutoff batch_size max_per_tick purged s = Some (s', purged') \<and>
    (purged' < max_per_tick \<longrightarrow> (\<forall>p \<in> set s'. \<not> purge_pending cutoff (snd p)))"
proof -
  have "version_store_ok s" using assms(1) by (rule version_reachable_ok)
  then show ?thesis
  proof (induction "stored_rows s" arbitrary: s purged rule: less_induct)
    case less
    obtain s' d h where step: "version_purge_before s cutoff batch_size = (s', Inr (d, h))"
      using version_purge_before_result by blast
    have ok': "version_store_ok s'" using version_purge_before_ok [OF less.prems step] .
    note progress = purge_progress [OF less.prems assms(2) step]
    let ?purged = "sat_add purged (of_nat d)"
    show ?case
    proof (cases "\<not> h \<or> ?purged \<ge> max_per_tick")
      case True
      with step progress(2) show ?thesis
        by (subst version_purge_tick.simps) (auto simp: Let_def)
    next
      case False
      with progress(1) less.hyps [OF _ ok', of ?purged] step show ?thesis
        by (subst version_purge_tick.simps) (simp add: Let_def)
    qed
  qed
qed

section \<open>A channel with one message\<close>

text \<open>
  The concrete store the statements above are applied to: a message created in an empty store and
  an append to it with an idempotency key. The encoders are total here, as they are on such data.
\<close>

definition demo_to_vec :: "message_data \<Rightarrow> string + bytes" where
  "demo_to_vec d = Inr []"

definition demo_to_value :: "message_data \<Rightarrow> string + json" where
  "demo_to_value d = Inr []"

definition demo_version :: "string \<Rightarrow> version_metadata" where
  "demo_version v = \<lparr>ver_serial = v, ver_client_id = None, ver_timestamp_ms = 5, ver_description = None, ver_metadata = None\<rparr>"

definition demo_create :: "message_extras option \<Rightarrow> nat option \<Rightarrow> version_create_request" where
  "demo_create extras l =
     \<lparr>vcr_record = \<lparr>svr_app_id = ''a'', svr_channel = ''c'', svr_original_client_id = None, svr_envelope = None,
        svr_message = vm_new_create ''m'' (demo_version ''1'') 1 0 None (Some (DString ''hi'')) extras\<rparr>,
      vcr_limits = \<lparr>vcl_max_accumulated_message_bytes = Some 10, vcl_max_open_streaming_messages_per_channel = l\<rparr>\<rparr>"

definition demo_append :: "publish_idempotency_metadata option \<Rightarrow> version_mutation_request" where
  "demo_append i =
     \<lparr>vmr_app_id = ''a'', vmr_channel = ''c'', vmr_message_serial = ''m'',
      vmr_expected = \<lparr>vpc_version_serial = ''1'', vpc_delivery_serial = 1\<rparr>, vmr_version = demo_version ''2'',
      vmr_mutation = MutAppend \<lparr>mapp_data_fragment = ''!'', mapp_extras = None\<rparr>, vmr_idempotency = i,
      vmr_limits = \<lparr>vml_max_accumulated_message_bytes = Some 10, vml_max_appends_per_message = Some 3,
        vml_max_open_streaming_messages_per_channel = None, vml_reject_append_after_terminal = True\<rparr>\<rparr>"

definition demo_key :: publish_idempotency_metadata where
  "demo_key = \<lparr>pim_cache_key = ''k'', pim_payload_fingerprint = ''f''\<rparr>"

definition demo_s0 :: memory_version_store where
  "demo_s0 = fst (commit_create demo_to_vec [] (demo_create None None) ''s'' 5)"

definition demo_s1 :: memory_version_store where
  "demo_s1 = fst (compare_and_apply demo_to_vec demo_to_value demo_s0 (demo_append (Some demo_key)) 6)"

definition applied_record :: "version_mutation_result result \<Rightarrow> stored_version_record" where
  "applied_record res = (case res of Inr (MutApplied r _) \<Rightarrow> r | _ \<Rightarrow> vcr_record (demo_create None None))"

definition demo_r :: stored_version_record where
  "demo_r = applied_record (snd (compare_and_apply demo_to_vec demo_to_value demo_s0 (demo_append (Some demo_key)) 6))"

definition demo_channel :: "memory_version_store \<Rightarrow> memory_version_channel" where
  "demo_channel s = (case bt_get s (version_channel_key ''a'' ''c'') of None \<Rightarrow> version_channel_default [] | Some st \<Rightarrow> st)"

definition demo_chain :: "memory_version_store \<Rightarrow> version_chain" where
  "demo_chain s = (case bt_get (ch_messages (demo_channel s)) ''m'' of None \<Rightarrow> chain_default | Some c \<Rightarrow> c)"

definition demo_query :: version_read_request where
  "demo_query = \<lparr>vrr_app_id = ''a'', vrr_channel = ''c'', vrr_message_serial = ''m'', vrr_direction = VNewestFirst,
     vrr_limit = 1, vrr_cursor = None\<rparr>"

definition demo_replay :: version_replay_request where
  "demo_replay = \<lparr>vrp_app_id = ''a'', vrp_channel = ''c'', vrp_after_delivery_serial = 0, vrp_limit = 10\<rparr>"

lemma demo_s0_reachable: "version_reachable demo_to_vec demo_to_value demo_s0"
  unfolding demo_s0_def
  by (rule version_reachable.wr [OF version_reachable.init]) (rule version_write.create [OF surjective_pairing])

lemma demo_s1_reachable: "version_reachable demo_to_vec demo_to_value demo_s1"
  unfolding demo_s1_def
  by (rule version_reachable.wr [OF demo_s0_reachable]) (rule version_write.mutate [OF surjective_pairing])

lemma demo_applied:
  "compare_and_apply demo_to_vec demo_to_value demo_s0 (demo_append (Some demo_key)) 6 = (demo_s1, Inr (MutApplied demo_r ''s''))"
proof -
  let ?x = "compare_and_apply demo_to_vec demo_to_value demo_s0 (demo_append (Some demo_key)) 6"
  have "case snd ?x of Inr (MutApplied r sid) \<Rightarrow> sid = ''s'' | _ \<Rightarrow> False" by code_simp
  then have "snd ?x = Inr (MutApplied demo_r ''s'')"
    by (auto simp: demo_r_def applied_record_def split: sum.splits version_mutation_result.splits)
  then show ?thesis by (simp add: demo_s1_def prod_eq_iff)
qed

lemma demo_get: "bt_get demo_s1 (version_channel_key ''a'' ''c'') = Some (demo_channel demo_s1)"
proof -
  have "bt_get demo_s1 (version_channel_key ''a'' ''c'') \<noteq> None"
    unfolding demo_s1_def demo_s0_def bt_contains_def [symmetric] by code_simp
  then show ?thesis by (auto simp: demo_channel_def split: option.splits)
qed

lemma demo_get_chain: "bt_get (ch_messages (demo_channel demo_s1)) ''m'' = Some (demo_chain demo_s1)"
proof -
  have "bt_get (ch_messages (demo_channel demo_s1)) ''m'' \<noteq> None"
    unfolding demo_s1_def demo_s0_def bt_contains_def [symmetric] by code_simp
  then show ?thesis by (auto simp: demo_chain_def split: option.splits)
qed

theorem version_retry_exactly_once_witness:
  "compare_and_apply demo_to_vec demo_to_value demo_s1 (demo_append (Some demo_key)) 9 = (demo_s1, Inr (MutDuplicate demo_r ''s''))"
  using version_retry_exactly_once [OF demo_s0_reachable demo_applied, of demo_key demo_s1 "demo_append (Some demo_key)" demo_key 9]
  by (simp add: demo_append_def)


lemma demo_latest: "\<exists>r. version_get_latest demo_s1 ''a'' ''c'' ''m'' = Inr (Some r)"
proof -
  have "case version_get_latest demo_s1 ''a'' ''c'' ''m'' of Inr (Some r) \<Rightarrow> True | _ \<Rightarrow> False"
    unfolding demo_s1_def demo_s0_def by code_simp
  then show ?thesis by (auto split: sum.splits option.splits)
qed

theorem version_mutation_rules_shared_witness:
  "\<exists>current. snd (compare_and_apply demo_to_vec demo_to_value demo_s1 (demo_append None) 9) =
    mutation_apply_to demo_to_vec demo_to_value (demo_append None) current (ch_stream_id (demo_channel demo_s1))
      (ch_next_delivery_serial (demo_channel demo_s1))
      (length (filter (\<lambda>e. vm_action (svr_message e) = AAppend) (vc_entries (demo_chain demo_s1))))"
proof -
  obtain r where r: "version_get_latest demo_s1 ''a'' ''c'' ''m'' = Inr (Some r)" using demo_latest by blast
  have "ch_next_delivery_serial (demo_channel demo_s1) \<noteq> - 1"
    unfolding demo_s1_def demo_s0_def by code_simp
  with version_mutation_rules_shared [OF demo_s1_reachable, of "demo_append None" "demo_channel demo_s1" "demo_chain demo_s1" r 9]
    demo_get demo_get_chain r
  have "snd (compare_and_apply demo_to_vec demo_to_value demo_s1 (demo_append None) 9) =
    mutation_apply_to demo_to_vec demo_to_value (demo_append None) r (ch_stream_id (demo_channel demo_s1))
      (ch_next_delivery_serial (demo_channel demo_s1))
      (length (filter (\<lambda>e. vm_action (svr_message e) = AAppend) (vc_entries (demo_chain demo_s1))))"
    by (simp add: demo_append_def)
  then show ?thesis ..
qed

theorem version_latest_is_visible_witness:
  "\<exists>r. version_get_latest demo_s1 ''a'' ''c'' ''m'' = Inr (Some r) \<and> r \<in> set (vc_entries (demo_chain demo_s1)) \<and>
    select_latest_visible (map svr_message (vc_entries (demo_chain demo_s1))) = Inr (svr_message r)"
  by (rule version_latest_is_visible [OF demo_s1_reachable demo_get demo_get_chain])

definition demo_streaming :: message_extras where
  "demo_streaming = \<lparr>mx_headers = None, mx_ephemeral = None, mx_idempotency_key = None, mx_push = None, mx_echo = None,
     mx_ai = Some \<lparr>aix_transport = Some [''status'' \<mapsto> ''streaming''], aix_codec = None\<rparr>, mx_opaque = []\<rparr>"

definition created_record :: "version_create_result result \<Rightarrow> stored_version_record" where
  "created_record res = (case res of Inr (CreateApplied r _) \<Rightarrow> r | _ \<Rightarrow> vcr_record (demo_create None None))"

theorem version_open_streams_bounded_witness:
  "\<exists>s' r st. commit_create demo_to_vec demo_s1 (demo_create (Some demo_streaming) (Some 1)
      \<lparr>vcr_record := (vcr_record (demo_create (Some demo_streaming) (Some 1)))\<lparr>svr_channel := ''d''\<rparr>\<rparr>) ''t'' 7 =
      (s', Inr (CreateApplied r ''t'')) \<and>
    bt_get s' (version_channel_key (svr_app_id r) (svr_channel r)) = Some st \<and>
    length (filter (\<lambda>p. chain_is_open (snd p)) (ch_messages st)) \<le> 1"
proof -
  let ?q = "demo_create (Some demo_streaming) (Some 1)
      \<lparr>vcr_record := (vcr_record (demo_create (Some demo_streaming) (Some 1)))\<lparr>svr_channel := ''d''\<rparr>\<rparr>"
  let ?x = "commit_create demo_to_vec demo_s1 ?q ''t'' 7"
  have "case snd ?x of Inr (CreateApplied r sid) \<Rightarrow> sid = ''t'' | _ \<Rightarrow> False"
    unfolding demo_s1_def demo_s0_def by code_simp
  then obtain r where "snd ?x = Inr (CreateApplied r ''t'')"
    by (auto split: sum.splits version_create_result.splits)
  then have step: "?x = (fst ?x, Inr (CreateApplied r ''t''))" by (simp add: prod_eq_iff)
  have "is_open_ai_stream (vcr_record ?q)" by code_simp
  moreover have "vcl_max_open_streaming_messages_per_channel (vcr_limits ?q) = Some 1" by (simp add: demo_create_def)
  ultimately show ?thesis
    using version_open_streams_bounded [OF demo_s1_reachable step] step by blast
qed

theorem version_drain_complete_witness:
  "\<exists>s' items. drain (Suc (length (vc_entries (demo_chain demo_s1)))) (version_read_cursor demo_query) demo_s1 None =
      Some (s', Inr items) \<and> set items = set (vc_entries (demo_chain demo_s1)) \<and> distinct items \<and>
    sorted_wrt (\<lambda>x y. version_before (vrr_direction demo_query) (svr_version_serial x) (svr_version_serial y)) items"
proof (rule version_drain_complete [OF demo_s1_reachable])
  show "version_request_chain demo_query demo_s1 = Some (demo_chain demo_s1)"
    using demo_get demo_get_chain by (simp add: version_request_chain_def demo_query_def)
qed (simp_all add: demo_query_def)

theorem version_replay_contiguous_witness:
  "\<exists>items. version_replay_after demo_s1 demo_replay = Inr items \<and>
    map (\<lambda>r. unat (svr_delivery_serial r)) items = [Suc 0, Suc (Suc 0)]"
proof -
  have "case version_replay_after demo_s1 demo_replay of Inr items \<Rightarrow> length items = 2 | Inl _ \<Rightarrow> False"
    unfolding demo_s1_def demo_s0_def by code_simp
  then obtain items where items: "version_replay_after demo_s1 demo_replay = Inr items" "length items = 2"
    by (auto split: sum.splits)
  with version_replay_contiguous [OF demo_s1_reachable, of demo_replay "demo_channel demo_s1"] demo_get
  show ?thesis by (simp add: demo_replay_def)
qed

theorem version_purge_exact_witness:
  "\<exists>s'. version_purge_before demo_s1 6 5 = (s', Inr (1, False)) \<and> stored_rows s' = 1 \<and> stored_rows demo_s1 = 2"
proof -
  have "snd (version_purge_before demo_s1 6 5) = Inr (1, False)" "stored_rows demo_s1 = 2"
    unfolding demo_s1_def demo_s0_def by code_simp+
  then have step: "version_purge_before demo_s1 6 5 = (fst (version_purge_before demo_s1 6 5), Inr (1, False))"
    by (simp add: prod_eq_iff)
  from version_purge_exact [OF demo_s1_reachable _ step] \<open>stored_rows demo_s1 = 2\<close> step show ?thesis by force
qed

theorem version_purge_tick_terminates_witness:
  "\<exists>s' purged'. version_purge_tick 6 1 100 0 demo_s1 = Some (s', purged')"
  using version_purge_tick_terminates [OF demo_s1_reachable, of 1 6 100 0] by auto

text \<open>C8: In every store reachable by any sequence of calls, each channel is consistent: every message has a
  non-empty chain of pairwise distinct versions of that message whose indexes are those of its
  entries; the replay log holds exactly the entries of the chains, each under its own delivery
  serial, and those serials lie below the next one to assign (until they saturate); the append
  times have the same keys; and the open-stream counter is the number of messages whose latest
  version is an open stream, so its subtractions never underflow.\<close>
theorem version_store_invariant:
  assumes "version_reachable to_vec to_value s" and "bt_get s key = Some st"
  shows "version_channel_ok st \<and>
    ch_open_stream_count st = int (length (filter (\<lambda>p. chain_is_open (snd p)) (ch_messages st)))"
  using version_reachable_ok [OF assms(1)] assms(2)
  by (simp add: version_store_ok_def version_channel_ok_def bt_count_def)

theorem version_store_invariant_witness:
  "version_channel_ok (demo_channel demo_s1) \<and>
    ch_open_stream_count (demo_channel demo_s1) =
      int (length (filter (\<lambda>p. chain_is_open (snd p)) (ch_messages (demo_channel demo_s1))))"
  using version_store_invariant [OF demo_s1_reachable demo_get] .

end
