(* ===== verification/Leased_Store.thy ===== *)
theory Leased_Store
  imports Version_Properties
begin

text \<open>
  The version store wrapper that leases blocks of delivery positions
  (\<^verbatim>\<open>sockudo-core/src/version_store/leased.rs\<close>). The lease table is guarded by a mutex that is released across
  the calls of the inner store, so a call is a sequence of atomic actions of a task, and calls of several
  tasks on several nodes interleave; a waiter of the single-flight table is the task that waits. The inner
  store is a parameter: its operations on positions are the record \<open>position_ops\<close>, its contract is the
  locale \<open>position_source\<close>, and the in-memory version store provides it.
\<close>

section \<open>Leases\<close>

record lease_key =
  lk_app_id :: string
  lk_channel :: string

record lease_cursor =
  lc_stream_id :: string
  lc_next_delivery_serial :: u64
  lc_end_exclusive :: u64

definition lease_from_block :: "version_write_reservation_block \<Rightarrow> lease_cursor" where
  "lease_from_block block =
     \<lparr>lc_stream_id = vwb_stream_id block, lc_next_delivery_serial = vwb_start_delivery_serial block,
      lc_end_exclusive = sat_add (vwb_start_delivery_serial block) (vwb_len block)\<rparr>"

definition take_next :: "lease_cursor \<Rightarrow> lease_cursor \<times> version_write_reservation option" where
  "take_next c =
     (if lc_next_delivery_serial c \<ge> lc_end_exclusive c then (c, None)
      else (c\<lparr>lc_next_delivery_serial := sat_add (lc_next_delivery_serial c) 1\<rparr>,
            Some \<lparr>vwr_stream_id = lc_stream_id c, vwr_delivery_serial = lc_next_delivery_serial c\<rparr>))"

record lease_state =
  ls_leases :: "lease_key \<rightharpoonup> lease_cursor"
  ls_in_flight :: "lease_key \<rightharpoonup> nat list"

definition lease_state_default :: lease_state where
  "lease_state_default = \<lparr>ls_leases = Map.empty, ls_in_flight = Map.empty\<rparr>"

definition leased_block_size :: "u64 \<Rightarrow> u64" where
  "leased_block_size block_size = max block_size 1"

text \<open>The end of both lookups: take the next position and drop the lease once it is used up.\<close>

definition take_from_lease ::
    "lease_key \<Rightarrow> lease_cursor \<Rightarrow> lease_state \<Rightarrow> lease_state \<times> version_write_reservation option" where
  "take_from_lease key cursor st =
     (case take_next cursor of
        (cursor', reservation) \<Rightarrow>
          (if lc_next_delivery_serial cursor' \<ge> lc_end_exclusive cursor'
           then st\<lparr>ls_leases := (ls_leases st)(key := None)\<rparr>
           else st\<lparr>ls_leases := (ls_leases st)(key \<mapsto> cursor')\<rparr>, reservation))"

definition take_cached :: "lease_key \<Rightarrow> lease_state \<Rightarrow> lease_state \<times> version_write_reservation option" where
  "take_cached key st =
     (case ls_leases st key of None \<Rightarrow> (st, None) | Some cursor \<Rightarrow> take_from_lease key cursor st)"

definition take_cached_after ::
    "lease_key \<Rightarrow> u64 \<Rightarrow> lease_state \<Rightarrow> lease_state \<times> version_write_reservation option" where
  "take_cached_after key after_delivery_serial st =
     (case ls_leases st key of
        None \<Rightarrow> (st, None)
      | Some cursor \<Rightarrow>
          if lc_next_delivery_serial cursor \<le> after_delivery_serial
          then (let next_after = sat_add after_delivery_serial 1 in
                if next_after \<ge> lc_end_exclusive cursor
                then (st\<lparr>ls_leases := (ls_leases st)(key := None)\<rparr>, None)
                else take_from_lease key (cursor\<lparr>lc_next_delivery_serial := next_after\<rparr>) st)
          else take_from_lease key cursor st)"

text \<open>\<^verbatim>\<open>true\<close> when the task joined a reservation in flight and has to wait.\<close>

definition start_or_join_reservation :: "lease_key \<Rightarrow> nat \<Rightarrow> lease_state \<Rightarrow> lease_state \<times> bool" where
  "start_or_join_reservation key task st =
     (case ls_in_flight st key of
        Some waiters \<Rightarrow> (st\<lparr>ls_in_flight := (ls_in_flight st)(key \<mapsto> waiters @ [task])\<rparr>, True)
      | None \<Rightarrow> (st\<lparr>ls_in_flight := (ls_in_flight st)(key \<mapsto> [])\<rparr>, False))"

text \<open>Both return the waiters that are woken.\<close>

definition finish_reservation ::
    "lease_key \<Rightarrow> version_write_reservation_block \<Rightarrow> lease_state \<Rightarrow> lease_state \<times> nat list" where
  "finish_reservation key block st =
     (st\<lparr>ls_leases := (ls_leases st)(key \<mapsto> lease_from_block block),
         ls_in_flight := (ls_in_flight st)(key := None)\<rparr>,
      case ls_in_flight st key of None \<Rightarrow> [] | Some waiters \<Rightarrow> waiters)"

definition fail_reservation :: "lease_key \<Rightarrow> lease_state \<Rightarrow> lease_state \<times> nat list" where
  "fail_reservation key st =
     (st\<lparr>ls_in_flight := (ls_in_flight st)(key := None)\<rparr>,
      case ls_in_flight st key of None \<Rightarrow> [] | Some waiters \<Rightarrow> waiters)"

section \<open>Tasks\<close>

record 's position_ops =
  po_reserve :: "'s \<Rightarrow> string \<Rightarrow> string \<Rightarrow> string \<Rightarrow> 's \<times> version_write_reservation result"
  po_reserve_block :: "'s \<Rightarrow> string \<Rightarrow> string \<Rightarrow> u64 \<Rightarrow> string \<Rightarrow> 's \<times> version_write_reservation_block result"

text \<open>
  A call of \<^verbatim>\<open>reserve_delivery_position\<close> or \<^verbatim>\<open>reserve_delivery_position_after\<close> and where it is: at the top
  of the loop, after a miss, waiting for the reservation in flight, reserving a block as the one in
  flight, storing the block or giving up, and returned.
\<close>

datatype lease_request = NextPosition | PositionAfter u64

datatype lease_pc =
    AtTop
  | Missed
  | Waiting
  | Reserving
  | Storing version_write_reservation_block
  | GivingUp error
  | Returned "version_write_reservation result"

record lease_task =
  lt_node :: nat
  lt_key :: lease_key
  lt_request :: lease_request
  lt_attempts :: nat
  lt_pc :: lease_pc

definition after_max_attempts :: "u64 \<Rightarrow> nat" where
  "after_max_attempts block_size = unat (max (sat_mul block_size 2) 64)"

definition lease_call :: "u64 \<Rightarrow> nat \<Rightarrow> lease_key \<Rightarrow> lease_request \<Rightarrow> lease_task" where
  "lease_call block_size node key request =
     \<lparr>lt_node = node, lt_key = key, lt_request = request, lt_attempts = after_max_attempts block_size, lt_pc = AtTop\<rparr>"

definition after_exhausted :: "u64 \<Rightarrow> error" where
  "after_exhausted after_delivery_serial =
     Internal (''leased version store could not reserve delivery_serial greater than '' @ show_u64 after_delivery_serial)"

text \<open>
  One action of a task: the inner store, the lease table of its node and the task, with the waiters it
  wakes. Waiting and returned tasks have none.
\<close>

definition lease_at_top ::
    "'s position_ops \<Rightarrow> u64 \<Rightarrow> string \<Rightarrow> 's \<times> lease_state \<times> lease_task \<Rightarrow> 's \<times> lease_state \<times> lease_task" where
  "lease_at_top ops block_size uuid x =
     (case x of (inner, st, task) \<Rightarrow>
        (case lt_request task of
           NextPosition \<Rightarrow>
             if block_size = 1
             then (case po_reserve ops inner (lk_app_id (lt_key task)) (lk_channel (lt_key task)) uuid of
                     (inner', res) \<Rightarrow> (inner', st, task\<lparr>lt_pc := Returned res\<rparr>))
             else (case take_cached (lt_key task) st of
                     (st', Some reservation) \<Rightarrow> (inner, st', task\<lparr>lt_pc := Returned (Inr reservation)\<rparr>)
                   | (st', None) \<Rightarrow> (inner, st', task\<lparr>lt_pc := Missed\<rparr>))
         | PositionAfter after_delivery_serial \<Rightarrow>
             if lt_attempts task = 0
             then (inner, st, task\<lparr>lt_pc := Returned (Inl (after_exhausted after_delivery_serial))\<rparr>)
             else (case take_cached_after (lt_key task) after_delivery_serial st of
                     (st', Some reservation) \<Rightarrow> (inner, st', task\<lparr>lt_pc := Returned (Inr reservation)\<rparr>)
                   | (st', None) \<Rightarrow>
                       (inner, st', task\<lparr>lt_attempts := lt_attempts task - 1, lt_pc := Missed\<rparr>))))"

definition lease_action ::
    "'s position_ops \<Rightarrow> u64 \<Rightarrow> string \<Rightarrow> nat \<Rightarrow> 's \<times> lease_state \<times> lease_task \<Rightarrow>
     ('s \<times> lease_state \<times> lease_task \<times> nat list) option" where
  "lease_action ops block_size uuid me x =
     (case x of (inner, st, task) \<Rightarrow>
        (case lt_pc task of
           AtTop \<Rightarrow> (case lease_at_top ops block_size uuid x of (inner', st', task') \<Rightarrow> Some (inner', st', task', []))
         | Missed \<Rightarrow>
             (case start_or_join_reservation (lt_key task) me st of
                (st', joined) \<Rightarrow> Some (inner, st', task\<lparr>lt_pc := (if joined then Waiting else Reserving)\<rparr>, []))
         | Reserving \<Rightarrow>
             (case po_reserve_block ops inner (lk_app_id (lt_key task)) (lk_channel (lt_key task)) block_size uuid of
                (inner', Inr block) \<Rightarrow> Some (inner', st, task\<lparr>lt_pc := Storing block\<rparr>, [])
              | (inner', Inl e) \<Rightarrow> Some (inner', st, task\<lparr>lt_pc := GivingUp e\<rparr>, []))
         | Storing block \<Rightarrow>
             (case finish_reservation (lt_key task) block st of
                (st', woken) \<Rightarrow> Some (inner, st', task\<lparr>lt_pc := AtTop\<rparr>, woken))
         | GivingUp e \<Rightarrow>
             (case fail_reservation (lt_key task) st of
                (st', woken) \<Rightarrow> Some (inner, st', task\<lparr>lt_pc := Returned (Inl e)\<rparr>, woken))
         | Waiting \<Rightarrow> None
         | Returned _ \<Rightarrow> None))"

section \<open>A call that is not interleaved\<close>

text \<open>Running a call alone, for a number of actions; \<open>None\<close> when it has not returned by then.\<close>

fun run_call ::
    "nat \<Rightarrow> 's position_ops \<Rightarrow> u64 \<Rightarrow> string \<Rightarrow> 's \<times> lease_state \<times> lease_task \<Rightarrow>
     ('s \<times> lease_state \<times> version_write_reservation result) option" where
  "run_call 0 ops block_size uuid x = None"
| "run_call (Suc fuel) ops block_size uuid (inner, st, task) =
     (case lt_pc task of
        Returned res \<Rightarrow> Some (inner, st, res)
      | _ \<Rightarrow>
          (case lease_action ops block_size uuid 0 (inner, st, task) of
             None \<Rightarrow> None
           | Some (inner', st', task', woken) \<Rightarrow> run_call fuel ops block_size uuid (inner', st', task')))"

definition leased_reserve_delivery_position ::
    "nat \<Rightarrow> 's position_ops \<Rightarrow> u64 \<Rightarrow> string \<Rightarrow> lease_key \<Rightarrow> 's \<Rightarrow> lease_state \<Rightarrow>
     ('s \<times> lease_state \<times> version_write_reservation result) option" where
  "leased_reserve_delivery_position fuel ops block_size uuid key inner st =
     run_call fuel ops block_size uuid (inner, st, lease_call block_size 0 key NextPosition)"

definition leased_reserve_delivery_position_after ::
    "nat \<Rightarrow> 's position_ops \<Rightarrow> u64 \<Rightarrow> string \<Rightarrow> lease_key \<Rightarrow> u64 \<Rightarrow> 's \<Rightarrow> lease_state \<Rightarrow>
     ('s \<times> lease_state \<times> version_write_reservation result) option" where
  "leased_reserve_delivery_position_after fuel ops block_size uuid key after_delivery_serial inner st =
     run_call fuel ops block_size uuid (inner, st, lease_call block_size 0 key (PositionAfter after_delivery_serial))"

text \<open>The loop of \<^verbatim>\<open>reserve_delivery_positions\<close> after the first position.\<close>

fun leased_reserve_more ::
    "nat \<Rightarrow> 's position_ops \<Rightarrow> u64 \<Rightarrow> string \<Rightarrow> lease_key \<Rightarrow> version_write_reservation \<Rightarrow> nat \<Rightarrow> u64 \<Rightarrow> 's \<Rightarrow> lease_state \<Rightarrow>
     ('s \<times> lease_state \<times> unit result) option" where
  "leased_reserve_more fuel ops block_size uuid key first_pos 0 expected_next inner st = Some (inner, st, Inr ())"
| "leased_reserve_more fuel ops block_size uuid key first_pos (Suc n) expected_next inner st =
     (case leased_reserve_delivery_position fuel ops block_size uuid key inner st of
        None \<Rightarrow> None
      | Some (inner', st', Inl e) \<Rightarrow> Some (inner', st', Inl e)
      | Some (inner', st', Inr nxt) \<Rightarrow>
          if vwr_stream_id nxt \<noteq> vwr_stream_id first_pos \<or> vwr_delivery_serial nxt \<noteq> expected_next
          then Some (inner', st', Inl (Internal ''leased version store returned a non-contiguous reservation block''))
          else leased_reserve_more fuel ops block_size uuid key first_pos n (sat_add expected_next 1) inner' st')"

definition leased_reserve_delivery_positions ::
    "nat \<Rightarrow> 's position_ops \<Rightarrow> u64 \<Rightarrow> string \<Rightarrow> lease_key \<Rightarrow> u64 \<Rightarrow> 's \<Rightarrow> lease_state \<Rightarrow>
     ('s \<times> lease_state \<times> version_write_reservation_block result) option" where
  "leased_reserve_delivery_positions fuel ops block_size uuid key len inner st =
     (case reservation_block_validate len of
        Inl e \<Rightarrow> Some (inner, st, Inl e)
      | Inr _ \<Rightarrow>
          (case leased_reserve_delivery_position fuel ops block_size uuid key inner st of
             None \<Rightarrow> None
           | Some (inner', st', Inl e) \<Rightarrow> Some (inner', st', Inl e)
           | Some (inner', st', Inr first_pos) \<Rightarrow>
               (case leased_reserve_more fuel ops block_size uuid key first_pos (unat len - 1)
                       (sat_add (vwr_delivery_serial first_pos) 1) inner' st' of
                  None \<Rightarrow> None
                | Some (inner'', st'', Inl e) \<Rightarrow> Some (inner'', st'', Inl e)
                | Some (inner'', st'', Inr _) \<Rightarrow>
                    Some (inner'', st'', Inr \<lparr>vwb_stream_id = vwr_stream_id first_pos,
                      vwb_start_delivery_serial = vwr_delivery_serial first_pos, vwb_len = len\<rparr>))))"

section \<open>Interleaved calls\<close>

record 's lease_system =
  sys_inner :: 's
  sys_nodes :: "nat \<Rightarrow> lease_state"
  sys_tasks :: "nat \<rightharpoonup> lease_task"

definition wake :: "nat list \<Rightarrow> (nat \<rightharpoonup> lease_task) \<Rightarrow> (nat \<rightharpoonup> lease_task)" where
  "wake woken tasks =
     (\<lambda>t. if t \<in> set woken then map_option (\<lambda>task. task\<lparr>lt_pc := AtTop\<rparr>) (tasks t) else tasks t)"

text \<open>
  A step of the whole system: a call starts on some node, a task does its next action, or the inner store
  does something else.
\<close>

inductive lease_step ::
    "'s position_ops \<Rightarrow> u64 \<Rightarrow> ('s \<Rightarrow> 's \<Rightarrow> bool) \<Rightarrow> 's lease_system \<Rightarrow> 's lease_system \<Rightarrow> bool"
  for ops block_size other where
  call: "sys_tasks s t = None \<Longrightarrow>
    lease_step ops block_size other s
      (s\<lparr>sys_tasks := (sys_tasks s)(t \<mapsto> lease_call block_size node key request)\<rparr>)"
| act: "sys_tasks s t = Some task \<Longrightarrow>
    lease_action ops block_size uuid t (sys_inner s, sys_nodes s (lt_node task), task) = Some (inner', st', task', woken) \<Longrightarrow>
    lease_step ops block_size other s
      \<lparr>sys_inner = inner', sys_nodes = (sys_nodes s)(lt_node task := st'),
       sys_tasks = wake woken ((sys_tasks s)(t \<mapsto> task'))\<rparr>"
| inner: "other (sys_inner s) inner' \<Longrightarrow> lease_step ops block_size other s (s\<lparr>sys_inner := inner'\<rparr>)"

inductive lease_reachable ::
    "'s position_ops \<Rightarrow> u64 \<Rightarrow> ('s \<Rightarrow> 's \<Rightarrow> bool) \<Rightarrow> 's \<Rightarrow> 's lease_system \<Rightarrow> bool"
  for ops block_size other start where
  init: "lease_reachable ops block_size other start
    \<lparr>sys_inner = start, sys_nodes = (\<lambda>_. lease_state_default), sys_tasks = Map.empty\<rparr>"
| step: "lease_reachable ops block_size other start s \<Longrightarrow> lease_step ops block_size other s s' \<Longrightarrow>
    lease_reachable ops block_size other start s'"

inductive_cases lease_stepE: "lease_step ops block_size other s s'"

section \<open>The contract of the inner store\<close>

text \<open>
  What the wrapper relies on: a reservation returns the next position of the channel and moves past it, a
  block the positions from the next one on, and nothing moves the next position of a channel back.
\<close>

locale position_source =
  fixes ops :: "'s position_ops"
    and other :: "'s \<Rightarrow> 's \<Rightarrow> bool"
    and next_of :: "'s \<Rightarrow> lease_key \<Rightarrow> u64"
  assumes reserve_Inr: "po_reserve ops s (lk_app_id k) (lk_channel k) uuid = (s', Inr r) \<Longrightarrow>
      vwr_delivery_serial r = next_of s k \<and> next_of s' k = sat_add (next_of s k) 1"
    and reserve_mono: "po_reserve ops s app_id channel uuid = (s', res) \<Longrightarrow> next_of s k' \<le> next_of s' k'"
    and block_Inr: "po_reserve_block ops s (lk_app_id k) (lk_channel k) n uuid = (s', Inr b) \<Longrightarrow>
      vwb_start_delivery_serial b = next_of s k \<and> vwb_len b = n \<and> next_of s' k = sat_add (next_of s k) n"
    and block_mono: "po_reserve_block ops s app_id channel n uuid = (s', blk) \<Longrightarrow> next_of s k' \<le> next_of s' k'"
    and block_total: "n \<noteq> 0 \<Longrightarrow> \<exists>s' b. po_reserve_block ops s app_id channel n uuid = (s', Inr b)"
    and other_mono: "other s s' \<Longrightarrow> next_of s k' \<le> next_of s' k'"

section \<open>Ownership of positions\<close>

datatype lease_owner = ByNode nat | ByTask nat

definition cursor_holds :: "lease_cursor \<Rightarrow> u64 \<Rightarrow> bool" where
  "cursor_holds c x \<longleftrightarrow> lc_next_delivery_serial c \<le> x \<and> x < lc_end_exclusive c"

definition pc_holds :: "lease_pc \<Rightarrow> u64 \<Rightarrow> bool" where
  "pc_holds pc x \<longleftrightarrow>
     (case pc of
        Storing b \<Rightarrow> cursor_holds (lease_from_block b) x
      | Returned (Inr r) \<Rightarrow> vwr_delivery_serial r = x
      | _ \<Rightarrow> False)"

definition node_holds :: "lease_state \<Rightarrow> lease_key \<Rightarrow> u64 \<Rightarrow> bool" where
  "node_holds st k x \<longleftrightarrow> (case ls_leases st k of None \<Rightarrow> False | Some c \<Rightarrow> cursor_holds c x)"

definition task_holds :: "lease_task option \<Rightarrow> lease_key \<Rightarrow> u64 \<Rightarrow> bool" where
  "task_holds t k x \<longleftrightarrow> (case t of None \<Rightarrow> False | Some task \<Rightarrow> lt_key task = k \<and> pc_holds (lt_pc task) x)"

definition owns :: "'s lease_system \<Rightarrow> lease_key \<Rightarrow> lease_owner \<Rightarrow> u64 \<Rightarrow> bool" where
  "owns s k h x \<longleftrightarrow>
     (case h of ByNode n \<Rightarrow> node_holds (sys_nodes s n) k x | ByTask t \<Rightarrow> task_holds (sys_tasks s t) k x)"

text \<open>Unless the counter of the channel is saturated, every position has one owner, and it lies below the counter.\<close>

definition owned_once :: "u64 \<Rightarrow> (lease_owner \<Rightarrow> u64 \<Rightarrow> bool) \<Rightarrow> bool" where
  "owned_once nxt own \<longleftrightarrow>
     nxt = - 1 \<or> ((\<forall>h x. own h x \<longrightarrow> x < nxt) \<and> (\<forall>h h' x. own h x \<longrightarrow> own h' x \<longrightarrow> h = h'))"

text \<open>One owner \<open>g\<close> may gain positions: from an owner that gives them up, or fresh ones.\<close>

lemma owned_once_transfer:
  assumes "owned_once n own" and "n \<le> n'"
    and "\<And>h x. own' h x \<Longrightarrow> h \<noteq> g \<Longrightarrow> own h x"
    and "\<And>x. own' g x \<Longrightarrow> own g x \<or> (own f x \<and> \<not> own' f x) \<or> (n' \<noteq> - 1 \<longrightarrow> n \<le> x \<and> x < n')"
  shows "owned_once n' own'"
proof (cases "n' = - 1")
  case False
  with assms(2) have "n \<noteq> - 1" by (auto simp: u64_neq_max_iff word_le_nat_alt)
  with assms(1) have old: "\<And>h x. own h x \<Longrightarrow> x < n" "\<And>h h' x. own h x \<Longrightarrow> own h' x \<Longrightarrow> h = h'"
    unfolding owned_once_def by blast+
  have lt: "x < n'" if "own' h x" for h x
    using assms(2,3,4) old(1) that False by (metis order_less_le_trans)
  have g: "h = g" if "own' g x" "own' h x" for h x
  proof (rule ccontr)
    assume "h \<noteq> g"
    with that assms(3) have h: "own h x" by blast
    from assms(4) [OF that(1)] False consider "own g x" | "own f x" "\<not> own' f x" | "n \<le> x" by blast
    then show False
    proof cases
      case 1
      with h old(2) \<open>h \<noteq> g\<close> show False by blast
    next
      case 2
      with h old(2) that(2) show False by blast
    next
      case 3
      with old(1) [OF h] show False by simp
    qed
  qed
  have "h = h'" if "own' h x" "own' h' x" for h h' x
    using g assms(3) old(2) that by metis
  with lt show ?thesis unfolding owned_once_def by blast
qed (simp add: owned_once_def)

lemma take_from_lease_holds:
  assumes "take_from_lease k c st = (st', res)"
  shows "node_holds st' k' x \<Longrightarrow> k' \<noteq> k \<Longrightarrow> node_holds st k' x"
    and "node_holds st' k x \<Longrightarrow> cursor_holds c x"
    and "res = Some r \<Longrightarrow> cursor_holds c (vwr_delivery_serial r) \<and> \<not> node_holds st' k (vwr_delivery_serial r)"
proof -
  have step: "sat_add n 1 \<le> x \<Longrightarrow> n < e \<Longrightarrow> n \<le> x" "n < e \<Longrightarrow> \<not> sat_add n 1 \<le> n" for n x e :: u64
    using unat_u64_less [of e] by (auto simp: u64_unat)
  show "node_holds st' k' x \<Longrightarrow> k' \<noteq> k \<Longrightarrow> node_holds st k' x"
    "node_holds st' k x \<Longrightarrow> cursor_holds c x"
    "res = Some r \<Longrightarrow> cursor_holds c (vwr_delivery_serial r) \<and> \<not> node_holds st' k (vwr_delivery_serial r)"
    using assms step(1) [of "lc_next_delivery_serial c" _ "lc_end_exclusive c"]
      step(2) [of "lc_next_delivery_serial c" "lc_end_exclusive c"]
    by (auto simp: take_from_lease_def take_next_def node_holds_def cursor_holds_def split: if_splits)
qed

lemma take_cached_holds:
  assumes "take_cached k st = (st', res)"
  shows "node_holds st' k' x \<Longrightarrow> node_holds st k' x"
    and "res = Some r \<Longrightarrow> node_holds st k (vwr_delivery_serial r) \<and> \<not> node_holds st' k (vwr_delivery_serial r)"
proof -
  show "node_holds st' k' x \<Longrightarrow> node_holds st k' x"
  proof (cases "ls_leases st k")
    case None
    with assms show "node_holds st' k' x \<Longrightarrow> node_holds st k' x" by (simp add: take_cached_def)
  next
    case (Some c)
    with assms have "take_from_lease k c st = (st', res)" by (simp add: take_cached_def)
    from take_from_lease_holds(1,2) [OF this] Some show "node_holds st' k' x \<Longrightarrow> node_holds st k' x"
      by (cases "k' = k") (auto simp: node_holds_def [of st k])
  qed
  show "res = Some r \<Longrightarrow> node_holds st k (vwr_delivery_serial r) \<and> \<not> node_holds st' k (vwr_delivery_serial r)"
    using assms take_from_lease_holds(3) [of k _ st st' res r]
    by (auto simp: take_cached_def node_holds_def [of st k] split: option.splits)
qed

lemma take_cached_after_cases:
  assumes "take_cached_after k a st = (st', res)"
  obtains "st' = st" "res = None"
    | "st' = st\<lparr>ls_leases := (ls_leases st)(k := None)\<rparr>" "res = None"
    | c c' where "ls_leases st k = Some c" "take_from_lease k c' st = (st', res)"
        "\<And>x. cursor_holds c' x \<Longrightarrow> cursor_holds c x" "a < lc_next_delivery_serial c'"
proof (cases "ls_leases st k")
  case (Some c)
  show thesis
  proof (cases "lc_next_delivery_serial c \<le> a")
    case True
    show thesis
    proof (cases "sat_add a 1 \<ge> lc_end_exclusive c")
      case False
      then have "a < sat_add a 1"
        using unat_u64_less [of "lc_end_exclusive c"] by (auto simp: u64_unat)
      with True have "cursor_holds (c\<lparr>lc_next_delivery_serial := sat_add a 1\<rparr>) x \<Longrightarrow> cursor_holds c x" for x
        by (auto simp: cursor_holds_def)
      with False True Some assms \<open>a < sat_add a 1\<close> show thesis
        by (intro that(3) [of c "c\<lparr>lc_next_delivery_serial := sat_add a 1\<rparr>"])
          (auto simp: take_cached_after_def Let_def)
    qed (use Some True assms that(2) in \<open>auto simp: take_cached_after_def Let_def\<close>)
  qed (use Some assms that(3) [of c c] in \<open>auto simp: take_cached_after_def\<close>)
qed (use assms that(1) in \<open>auto simp: take_cached_after_def\<close>)

lemma take_cached_after_holds:
  assumes "take_cached_after k a st = (st', res)"
  shows "node_holds st' k' x \<Longrightarrow> node_holds st k' x"
    and "res = Some r \<Longrightarrow> node_holds st k (vwr_delivery_serial r) \<and> \<not> node_holds st' k (vwr_delivery_serial r)"
    and "res = Some r \<Longrightarrow> a < vwr_delivery_serial r"
proof -
  show "node_holds st' k' x \<Longrightarrow> node_holds st k' x"
    using assms
  proof (cases rule: take_cached_after_cases)
    case (3 c c')
    then show "node_holds st' k' x \<Longrightarrow> node_holds st k' x"
      using take_from_lease_holds(1,2) [OF 3(2)]
      by (cases "k' = k") (auto simp: node_holds_def [of st k])
  qed (auto simp: node_holds_def split: if_splits)
  show "res = Some r \<Longrightarrow> node_holds st k (vwr_delivery_serial r) \<and> \<not> node_holds st' k (vwr_delivery_serial r)"
    using assms
  proof (cases rule: take_cached_after_cases)
    case (3 c c')
    then show "res = Some r \<Longrightarrow> node_holds st k (vwr_delivery_serial r) \<and> \<not> node_holds st' k (vwr_delivery_serial r)"
      using take_from_lease_holds(3) [OF 3(2)] by (auto simp: node_holds_def [of st k])
  qed auto
  show "res = Some r \<Longrightarrow> a < vwr_delivery_serial r"
    using assms
  proof (cases rule: take_cached_after_cases)
    case (3 c c')
    then show "res = Some r \<Longrightarrow> a < vwr_delivery_serial r"
      using take_from_lease_holds(3) [OF 3(2)] by (auto simp: cursor_holds_def)
  qed auto
qed

text \<open>How an action of a task changes what the task and its node hold.\<close>

definition lease_take ::
    "lease_request \<Rightarrow> lease_key \<Rightarrow> lease_state \<Rightarrow> lease_state \<times> version_write_reservation option" where
  "lease_take request key =
     (case request of NextPosition \<Rightarrow> take_cached key | PositionAfter a \<Rightarrow> take_cached_after key a)"

lemma lease_take_holds:
  assumes "lease_take request k st = (st', res)"
  shows "node_holds st' k' x \<Longrightarrow> node_holds st k' x"
    and "res = Some r \<Longrightarrow> node_holds st k (vwr_delivery_serial r) \<and> \<not> node_holds st' k (vwr_delivery_serial r)"
proof -
  show "node_holds st' k' x \<Longrightarrow> node_holds st k' x"
    using assms take_cached_holds(1) [of k st st' res] take_cached_after_holds(1) [of k _ st st' res]
    unfolding lease_take_def by (cases request) auto
  show "res = Some r \<Longrightarrow> node_holds st k (vwr_delivery_serial r) \<and> \<not> node_holds st' k (vwr_delivery_serial r)"
    using assms take_cached_holds(2) [of k st st' res] take_cached_after_holds(2) [of k _ st st' res]
    unfolding lease_take_def by (cases request) auto
qed

lemma wake_holds: "task_holds (wake woken tasks t) k x \<Longrightarrow> task_holds (tasks t) k x"
  by (auto simp: wake_def task_holds_def pc_holds_def split: if_splits option.splits)

lemma lease_at_top_take:
  "lease_at_top ops bs uuid (inner, st, task) =
     (if lt_request task = NextPosition \<and> bs = 1
      then (case po_reserve ops inner (lk_app_id (lt_key task)) (lk_channel (lt_key task)) uuid of
              (inner', res) \<Rightarrow> (inner', st, task\<lparr>lt_pc := Returned res\<rparr>))
      else if lt_request task \<noteq> NextPosition \<and> lt_attempts task = 0
      then (inner, st, task\<lparr>lt_pc := Returned (Inl (after_exhausted (case lt_request task of PositionAfter a \<Rightarrow> a | _ \<Rightarrow> 0)))\<rparr>)
      else (case lease_take (lt_request task) (lt_key task) st of
              (st', Some reservation) \<Rightarrow> (inner, st', task\<lparr>lt_pc := Returned (Inr reservation)\<rparr>)
            | (st', None) \<Rightarrow>
                (inner, st',
                 task\<lparr>lt_attempts := (if lt_request task = NextPosition then lt_attempts task else lt_attempts task - 1),
                      lt_pc := Missed\<rparr>)))"
  by (cases "lt_request task") (auto simp: lease_at_top_def lease_take_def split: prod.splits option.splits)

lemma lease_action_key:
  "lease_action ops bs uuid t (inner, st, task) = Some (inner', st', task', woken) \<Longrightarrow>
     lt_key task' = lt_key task \<and> lt_node task' = lt_node task"
  by (auto simp: lease_action_def lease_at_top_take split: lease_pc.splits prod.splits sum.splits option.splits if_splits)

text \<open>The action either takes a position from the lease, reserves fresh ones, stores its block, or gains nothing.\<close>

context position_source
begin

lemma action_next_mono:
  "lease_action ops bs uuid t (inner, st, task) = Some (inner', st', task', woken) \<Longrightarrow> next_of inner k \<le> next_of inner' k"
  by (auto simp: lease_action_def lease_at_top_take
      split: lease_pc.splits prod.splits sum.splits option.splits if_splits
      dest: reserve_mono [where k' = k] block_mono [where k' = k])

lemma action_effect:
  assumes "lease_action ops bs uuid t (inner, st, task) = Some (inner', st', task', woken)"
  shows "(\<forall>k x. node_holds st' k x \<longrightarrow> node_holds st k x) \<and>
      (\<forall>x. pc_holds (lt_pc task') x \<longrightarrow>
         (node_holds st (lt_key task) x \<and> \<not> node_holds st' (lt_key task) x) \<or>
         (next_of inner' (lt_key task) \<noteq> - 1 \<longrightarrow>
            next_of inner (lt_key task) \<le> x \<and> x < next_of inner' (lt_key task))) \<or>
    (\<forall>x. \<not> pc_holds (lt_pc task') x) \<and>
      (\<forall>k x. node_holds st' k x \<longrightarrow> node_holds st k x \<or> (k = lt_key task \<and> pc_holds (lt_pc task) x))"
proof (cases "lt_pc task")
  case AtTop
  with assms have top: "lease_at_top ops bs uuid (inner, st, task) = (inner', st', task')"
    by (auto simp: lease_action_def split: prod.splits)
  consider (direct) res where "po_reserve ops inner (lk_app_id (lt_key task)) (lk_channel (lt_key task)) uuid = (inner', res)"
      "st' = st" "lt_pc task' = Returned res"
    | (over) e where "st' = st" "lt_pc task' = Returned (Inl e)"
    | (hit) r where "lease_take (lt_request task) (lt_key task) st = (st', Some r)" "lt_pc task' = Returned (Inr r)"
    | (miss) "lease_take (lt_request task) (lt_key task) st = (st', None)" "lt_pc task' = Missed"
    using top unfolding lease_at_top_take by (auto split: if_splits prod.splits option.splits)
  then show ?thesis
  proof cases
    case direct
    have "next_of inner (lt_key task) \<le> x \<and> x < next_of inner' (lt_key task)"
      if "pc_holds (lt_pc task') x" "next_of inner' (lt_key task) \<noteq> - 1" for x
    proof -
      from direct(3) that(1) obtain r where r: "res = Inr r" "vwr_delivery_serial r = x"
        by (auto simp: pc_holds_def split: sum.splits)
      from reserve_Inr [OF direct(1) [unfolded r(1)]] r(2)
      have "x = next_of inner (lt_key task)" "next_of inner' (lt_key task) = sat_add x 1" by auto
      moreover have "sat_add (- 1) 1 = - 1" by (simp add: sat_add_def)
      ultimately show ?thesis using that(2) less_sat_add_1 [of x] by (metis order_refl)
    qed
    with direct(2) show ?thesis by blast
  next
    case over
    then show ?thesis by (simp add: pc_holds_def)
  next
    case hit
    from lease_take_holds(1) [OF hit(1)] lease_take_holds(2) [OF hit(1)] hit(2) show ?thesis
      by (auto simp: pc_holds_def)
  next
    case miss
    from lease_take_holds(1) [OF miss(1)] miss(2) show ?thesis by (auto simp: pc_holds_def)
  qed
next
  case Missed
  with assms show ?thesis
    by (auto simp: lease_action_def start_or_join_reservation_def pc_holds_def node_holds_def split: option.splits)
next
  case Reserving
  obtain res where res: "po_reserve_block ops inner (lk_app_id (lt_key task)) (lk_channel (lt_key task)) bs uuid = (inner', res)"
      "st' = st" "lt_pc task' = (case res of Inr b \<Rightarrow> Storing b | Inl e \<Rightarrow> GivingUp e)"
    using assms Reserving by (auto simp: lease_action_def split: prod.splits sum.splits)
  have "next_of inner (lt_key task) \<le> x \<and> x < next_of inner' (lt_key task)" if "pc_holds (lt_pc task') x" for x
  proof -
    from res(3) that obtain b where b: "res = Inr b" "cursor_holds (lease_from_block b) x"
      by (auto simp: pc_holds_def split: sum.splits)
    from block_Inr [OF res(1) [unfolded b(1)]] b(2) show ?thesis
      by (simp add: cursor_holds_def lease_from_block_def)
  qed
  with res(2) show ?thesis by blast
next
  case (Storing b)
  with assms have "lt_pc task' = AtTop" "ls_leases st' = (ls_leases st)(lt_key task \<mapsto> lease_from_block b)"
    by (auto simp: lease_action_def finish_reservation_def)
  then have "\<not> pc_holds (lt_pc task') x" "node_holds st' k x \<longleftrightarrow>
      (if k = lt_key task then pc_holds (lt_pc task) x else node_holds st k x)" for k x
    by (simp_all add: pc_holds_def node_holds_def Storing)
  then show ?thesis by simp
next
  case (GivingUp e)
  with assms show ?thesis
    by (auto simp: lease_action_def fail_reservation_def pc_holds_def node_holds_def split: option.splits)
qed (use assms in \<open>auto simp: lease_action_def\<close>)

lemma step_owned_once:
  assumes "lease_step ops bs other s s'" and "owned_once (next_of (sys_inner s) k) (owns s k)"
  shows "owned_once (next_of (sys_inner s') k) (owns s' k)"
  using assms(1)
proof (cases rule: lease_step.cases)
  case (call t node key request)
  show ?thesis
    unfolding call(1)
    by (rule owned_once_transfer [where g = "ByTask t" and f = "ByTask t", OF assms(2)])
      (auto simp: owns_def task_holds_def pc_holds_def lease_call_def split: lease_owner.splits if_splits)
next
  case (inner inner')
  show ?thesis
    unfolding inner(1)
    by (rule owned_once_transfer [where g = "ByTask 0" and f = "ByTask 0", OF assms(2)])
      (auto simp: owns_def split: lease_owner.splits intro: other_mono inner(2))
next
  case (act t task uuid inner' st' task' woken)
  let ?n = "lt_node task"
  have key: "lt_key task' = lt_key task" using lease_action_key [OF act(3)] by simp
  have mono: "next_of (sys_inner s) k \<le> next_of (sys_inner s') k"
    unfolding act(1) using action_next_mono [OF act(3)] by simp
  have rest: "owns s k h x" if "owns s' k h x" "h \<noteq> ByNode ?n" "h \<noteq> ByTask t" for h x
    using that by (cases h) (auto simp: act(1) owns_def dest: wake_holds)
  have node: "owns s' k (ByNode ?n) x \<longleftrightarrow> node_holds st' k x" "owns s k (ByNode ?n) x \<longleftrightarrow> node_holds (sys_nodes s ?n) k x" for x
    by (auto simp: owns_def act(1))
  have mine: "lt_key task = k \<and> pc_holds (lt_pc task') x" if "owns s' k (ByTask t) x" for x
    using that wake_holds [of woken "(sys_tasks s)(t \<mapsto> task')" t k x] by (auto simp: owns_def act(1) task_holds_def key)
  have mine': "owns s k (ByTask t) x \<longleftrightarrow> lt_key task = k \<and> pc_holds (lt_pc task) x" for x
    by (simp add: owns_def task_holds_def act(2))
  have inner: "sys_inner s' = inner'" by (simp add: act(1))
  from action_effect [OF act(3)] show ?thesis
  proof
    assume gain: "(\<forall>k x. node_holds st' k x \<longrightarrow> node_holds (sys_nodes s ?n) k x) \<and>
      (\<forall>x. pc_holds (lt_pc task') x \<longrightarrow>
         (node_holds (sys_nodes s ?n) (lt_key task) x \<and> \<not> node_holds st' (lt_key task) x) \<or>
         (next_of inner' (lt_key task) \<noteq> - 1 \<longrightarrow>
            next_of (sys_inner s) (lt_key task) \<le> x \<and> x < next_of inner' (lt_key task)))"
    show ?thesis
    proof (rule owned_once_transfer [where g = "ByTask t" and f = "ByNode ?n", OF assms(2) mono])
      show "owns s k h x" if "owns s' k h x" "h \<noteq> ByTask t" for h x
        using that gain rest node by (cases "h = ByNode ?n") blast+
      show "owns s k (ByTask t) x \<or> (owns s k (ByNode ?n) x \<and> \<not> owns s' k (ByNode ?n) x) \<or>
          (next_of (sys_inner s') k \<noteq> - 1 \<longrightarrow> next_of (sys_inner s) k \<le> x \<and> x < next_of (sys_inner s') k)"
        if "owns s' k (ByTask t) x" for x
        using gain mine [OF that] unfolding node inner by blast
    qed
  next
    assume store: "(\<forall>x. \<not> pc_holds (lt_pc task') x) \<and>
      (\<forall>k x. node_holds st' k x \<longrightarrow> node_holds (sys_nodes s ?n) k x \<or> (k = lt_key task \<and> pc_holds (lt_pc task) x))"
    then have gone: "\<not> owns s' k (ByTask t) x" for x using mine by blast
    show ?thesis
    proof (rule owned_once_transfer [where g = "ByNode ?n" and f = "ByTask t", OF assms(2) mono])
      show "owns s k h x" if "owns s' k h x" "h \<noteq> ByNode ?n" for h x
        using that gone rest by metis
      show "owns s k (ByNode ?n) x \<or> (owns s k (ByTask t) x \<and> \<not> owns s' k (ByTask t) x) \<or>
          (next_of (sys_inner s') k \<noteq> - 1 \<longrightarrow> next_of (sys_inner s) k \<le> x \<and> x < next_of (sys_inner s') k)"
        if "owns s' k (ByNode ?n) x" for x
        using store gone that unfolding node mine' by blast
    qed
  qed
qed

lemma reachable_owned_once:
  "lease_reachable ops bs other start s \<Longrightarrow> owned_once (next_of (sys_inner s) k) (owns s k)"
proof (induction rule: lease_reachable.induct)
  case init
  show ?case
    by (auto simp: owned_once_def owns_def node_holds_def task_holds_def lease_state_default_def split: lease_owner.splits)
qed (blast intro: step_owned_once)

lemma reachable_distinct:
  assumes "lease_reachable ops bs other start s" and "next_of (sys_inner s) k \<noteq> - 1"
    and "sys_tasks s t = Some task" "lt_key task = k" "lt_pc task = Returned (Inr r)"
    and "sys_tasks s t' = Some task'" "lt_key task' = k" "lt_pc task' = Returned (Inr r')" and "t \<noteq> t'"
  shows "vwr_delivery_serial r \<noteq> vwr_delivery_serial r' \<and> vwr_delivery_serial r < next_of (sys_inner s) k"
proof -
  have "owns s k (ByTask t) (vwr_delivery_serial r)" "owns s k (ByTask t') (vwr_delivery_serial r')"
    using assms(3-8) by (simp_all add: owns_def task_holds_def pc_holds_def)
  with reachable_owned_once [OF assms(1), of k] assms(2,9) show ?thesis
    unfolding owned_once_def by (metis lease_owner.inject(2))
qed

end

section \<open>Single flight\<close>

definition busy :: "lease_pc \<Rightarrow> bool" where
  "busy pc \<longleftrightarrow> (case pc of Reserving \<Rightarrow> True | Storing _ \<Rightarrow> True | GivingUp _ \<Rightarrow> True | _ \<Rightarrow> False)"

definition role_at :: "(nat \<rightharpoonup> lease_task) \<Rightarrow> (lease_pc \<Rightarrow> bool) \<Rightarrow> nat \<Rightarrow> lease_key \<Rightarrow> nat set" where
  "role_at tasks P n k = {t. \<exists>task. tasks t = Some task \<and> lt_node task = n \<and> lt_key task = k \<and> P (lt_pc task)}"

text \<open>A reservation is in flight exactly while one task performs it, and its waiters are the tasks that wait.\<close>

definition flight_at :: "nat list option \<Rightarrow> nat set \<Rightarrow> nat set \<Rightarrow> bool" where
  "flight_at in_flight performing waiting \<longleftrightarrow>
     (case in_flight of
        None \<Rightarrow> performing = {} \<and> waiting = {}
      | Some ws \<Rightarrow> (\<exists>t. performing = {t}) \<and> waiting = set ws)"

definition flight_ok :: "'s lease_system \<Rightarrow> bool" where
  "flight_ok s \<longleftrightarrow>
     (\<forall>n k. flight_at (ls_in_flight (sys_nodes s n) k) (role_at (sys_tasks s) busy n k)
        (role_at (sys_tasks s) (\<lambda>pc. pc = Waiting) n k))"

lemma role_at_upd:
  assumes "tasks t = Some task" "lt_node task' = lt_node task" "lt_key task' = lt_key task"
  shows "role_at (tasks(t \<mapsto> task')) P n k =
     (if lt_node task = n \<and> lt_key task = k
      then (if P (lt_pc task') then insert t (role_at tasks P n k) else role_at tasks P n k - {t})
      else role_at tasks P n k)"
  using assms by (auto simp: role_at_def split: if_splits)

lemma role_at_wake: "\<not> P AtTop \<Longrightarrow> role_at (wake ws tasks) P n k = role_at tasks P n k - set ws"
  by (auto simp: role_at_def wake_def)

lemma role_at_other: "t \<in> role_at tasks P n k \<Longrightarrow> (n', k') \<noteq> (n, k) \<Longrightarrow> t \<notin> role_at tasks Q n' k'"
  by (auto simp: role_at_def)

lemma lease_take_in_flight: "lease_take request k st = (st', res) \<Longrightarrow> ls_in_flight st' = ls_in_flight st"
  by (auto simp: lease_take_def take_cached_def take_cached_after_def take_from_lease_def Let_def
      split: lease_request.splits option.splits prod.splits if_splits)

text \<open>What an action does to the table of reservations in flight.\<close>

lemma action_flight:
  assumes "lease_action ops bs uuid t (inner, st, task) = Some (inner', st', task', woken)"
  obtains (keep) "ls_in_flight st' = ls_in_flight st" "woken = []" "busy (lt_pc task') = busy (lt_pc task)"
        "lt_pc task \<noteq> Waiting" "lt_pc task' \<noteq> Waiting"
    | (join) ws where "ls_in_flight st (lt_key task) = Some ws" "woken = []" "lt_pc task = Missed" "lt_pc task' = Waiting"
        "ls_in_flight st' = (ls_in_flight st)(lt_key task \<mapsto> ws @ [t])"
    | (start) "ls_in_flight st (lt_key task) = None" "woken = []" "lt_pc task = Missed" "lt_pc task' = Reserving"
        "ls_in_flight st' = (ls_in_flight st)(lt_key task \<mapsto> [])"
    | (finish) "busy (lt_pc task)" "\<not> busy (lt_pc task')" "lt_pc task' \<noteq> Waiting"
        "ls_in_flight st' = (ls_in_flight st)(lt_key task := None)"
        "woken = (case ls_in_flight st (lt_key task) of None \<Rightarrow> [] | Some ws \<Rightarrow> ws)"
proof (cases "lt_pc task")
  case AtTop
  with assms have top: "lease_at_top ops bs uuid (inner, st, task) = (inner', st', task')" "woken = []"
    by (auto simp: lease_action_def split: prod.splits)
  then have "ls_in_flight st' = ls_in_flight st" "\<not> busy (lt_pc task')" "lt_pc task' \<noteq> Waiting"
    unfolding lease_at_top_take
    by (auto simp: busy_def split: if_splits prod.splits option.splits dest: lease_take_in_flight)
  then show thesis using AtTop top by (intro keep) (auto simp: busy_def)
next
  case Missed
  with assms show thesis
    by (cases "ls_in_flight st (lt_key task)")
      (auto simp: lease_action_def start_or_join_reservation_def intro: join start)
next
  case Reserving
  with assms show thesis
    by (intro keep) (auto simp: lease_action_def busy_def split: prod.splits sum.splits)
next
  case (Storing b)
  with assms show thesis
    by (intro finish) (auto simp: lease_action_def busy_def finish_reservation_def)
next
  case (GivingUp e)
  with assms show thesis
    by (intro finish) (auto simp: lease_action_def busy_def fail_reservation_def)
qed (use assms in \<open>auto simp: lease_action_def\<close>)

lemma flight_ok_act:
  assumes ok: "flight_ok s" and task: "sys_tasks s t = Some task"
    and act: "lease_action ops bs uuid t (sys_inner s, sys_nodes s (lt_node task), task) = Some (inner', st', task', woken)"
  shows "flight_ok \<lparr>sys_inner = inner', sys_nodes = (sys_nodes s)(lt_node task := st'),
       sys_tasks = wake woken ((sys_tasks s)(t \<mapsto> task'))\<rparr>" (is "flight_ok ?s'")
proof -
  let ?n = "lt_node task" and ?k = "lt_key task" and ?T = "sys_tasks s"
  let ?B = "role_at ?T busy" and ?W = "role_at ?T (\<lambda>pc. pc = Waiting)"
  have same: "lt_node task' = ?n" "lt_key task' = ?k" using lease_action_key [OF act] by simp_all
  note upd = role_at_upd [of ?T t task task', OF task same]
  have mine: "P (lt_pc task) \<longleftrightarrow> t \<in> role_at ?T P ?n ?k" for P using task by (auto simp: role_at_def)
  have roles: "role_at (sys_tasks ?s') P n k =
      (if (n, k) = (?n, ?k)
       then (if P (lt_pc task') then insert t (role_at ?T P n k) else role_at ?T P n k - {t})
       else role_at ?T P n k) - set woken" if "\<not> P AtTop" for P n k
    using that by (simp add: role_at_wake upd eq_commute [of n] eq_commute [of k])
  have old: "flight_at (ls_in_flight (sys_nodes s n) k) (?B n k) (?W n k)" for n k
    using ok unfolding flight_ok_def by blast
  have notop: "\<not> busy AtTop" "AtTop \<noteq> Waiting" by (simp_all add: busy_def)
  have apart: "role_at ?T P n k \<inter> ?W ?n ?k = {}" if "(n, k) \<noteq> (?n, ?k)" for P n k
    using that by (auto simp: role_at_def)
  have disj: "?B ?n ?k \<inter> ?W ?n ?k = {}" by (auto simp: role_at_def busy_def)
  have table: "ls_in_flight (sys_nodes ?s' n) k = (if n = ?n then ls_in_flight st' k else ls_in_flight (sys_nodes s n) k)" for n k
    by simp
  have "flight_at (ls_in_flight (sys_nodes ?s' n) k) (role_at (sys_tasks ?s') busy n k)
      (role_at (sys_tasks ?s') (\<lambda>pc. pc = Waiting) n k)" for n k
  proof (cases "(n, k) = (?n, ?k)")
    case True
    then have nk: "n = ?n" "k = ?k" by simp_all
    have B: "role_at (sys_tasks ?s') busy n k = (if busy (lt_pc task') then insert t (?B ?n ?k) else ?B ?n ?k - {t}) - set woken"
      and W: "role_at (sys_tasks ?s') (\<lambda>pc. pc = Waiting) n k =
        (if lt_pc task' = Waiting then insert t (?W ?n ?k) else ?W ?n ?k - {t}) - set woken"
      unfolding nk by (simp_all only: roles [of busy, OF notop(1)] roles [of "\<lambda>pc. pc = Waiting", OF notop(2)] simp_thms if_True)
    from act show ?thesis
    proof (cases rule: action_flight)
      case keep
      then have "role_at (sys_tasks ?s') busy n k = ?B ?n ?k" "role_at (sys_tasks ?s') (\<lambda>pc. pc = Waiting) n k = ?W ?n ?k"
        unfolding B W using mine [of busy] mine [of "\<lambda>pc. pc = Waiting"] by auto
      with keep old [of ?n ?k] show ?thesis unfolding table nk by simp
    next
      case (join ws)
      then have "role_at (sys_tasks ?s') busy n k = ?B ?n ?k"
        "role_at (sys_tasks ?s') (\<lambda>pc. pc = Waiting) n k = insert t (?W ?n ?k)"
        unfolding B W using mine [of busy] by (auto simp: busy_def)
      with join old [of ?n ?k] show ?thesis unfolding table nk by (auto simp: flight_at_def)
    next
      case start
      then have "role_at (sys_tasks ?s') busy n k = insert t (?B ?n ?k)"
        "role_at (sys_tasks ?s') (\<lambda>pc. pc = Waiting) n k = ?W ?n ?k"
        unfolding B W using mine [of "\<lambda>pc. pc = Waiting"] by (auto simp: busy_def)
      with start old [of ?n ?k] show ?thesis unfolding table nk by (auto simp: flight_at_def)
    next
      case finish
      from finish(1) mine [of busy] have "t \<in> ?B ?n ?k" by simp
      with old [of ?n ?k] obtain ws where "ls_in_flight (sys_nodes s ?n) ?k = Some ws" "?B ?n ?k = {t}" "?W ?n ?k = set ws"
        by (auto simp: flight_at_def split: option.splits)
      with finish show ?thesis unfolding table B W unfolding nk by (auto simp: flight_at_def)
    qed
  next
    case False
    have "set woken \<subseteq> ?W ?n ?k"
      using act
    proof (cases rule: action_flight)
      case finish
      with old [of ?n ?k] show ?thesis by (auto simp: flight_at_def split: option.splits)
    qed auto
    with apart [OF False] have "role_at ?T P n k - set woken = role_at ?T P n k" for P by blast
    then have "role_at (sys_tasks ?s') busy n k = ?B n k" "role_at (sys_tasks ?s') (\<lambda>pc. pc = Waiting) n k = ?W n k"
      unfolding roles [of busy, OF notop(1)] roles [of "\<lambda>pc. pc = Waiting", OF notop(2)] if_not_P [OF False] by simp_all
    moreover have "ls_in_flight (sys_nodes ?s' n) k = ls_in_flight (sys_nodes s n) k"
      unfolding table using act False by (cases rule: action_flight) auto
    ultimately show ?thesis using old by simp
  qed
  then show ?thesis unfolding flight_ok_def by blast
qed

lemma reachable_flight_ok: "lease_reachable ops bs other start s \<Longrightarrow> flight_ok s"
proof (induction rule: lease_reachable.induct)
  case init
  show ?case by (simp add: flight_ok_def flight_at_def role_at_def lease_state_default_def)
next
  case (step s s')
  from step.hyps(2) show ?case
  proof (cases rule: lease_step.cases)
    case (call t node key request)
    have "role_at (sys_tasks s') P n k = role_at (sys_tasks s) P n k" if "\<not> P AtTop" for P n k
      using that call(2) by (auto simp: call(1) role_at_def lease_call_def)
    with step.IH show ?thesis by (simp add: flight_ok_def call(1) busy_def)
  next
    case (act t task uuid inner' st' task' woken)
    with flight_ok_act [OF step.IH act(2,3)] show ?thesis by simp
  next
    case (inner inner')
    with step.IH show ?thesis by (simp add: flight_ok_def)
  qed
qed

lemma lease_action_enabled:
  "lt_pc task \<noteq> Waiting \<Longrightarrow> (\<And>res. lt_pc task \<noteq> Returned res) \<Longrightarrow>
     lease_action ops bs uuid t (inner, st, task) \<noteq> None"
  by (cases "lt_pc task") (auto simp: lease_action_def split: prod.splits sum.splits)

section \<open>A call on its own\<close>

definition leased_next :: "lease_cursor option \<Rightarrow> u64 \<Rightarrow> u64" where
  "leased_next lease nxt =
     (case lease of
        None \<Rightarrow> nxt
      | Some c \<Rightarrow> if lc_next_delivery_serial c < lc_end_exclusive c then lc_next_delivery_serial c else nxt)"

lemma take_cached_hit:
  "ls_leases st k = Some c \<Longrightarrow> lc_next_delivery_serial c < lc_end_exclusive c \<Longrightarrow>
     \<exists>st'. take_cached k st = (st', Some \<lparr>vwr_stream_id = lc_stream_id c, vwr_delivery_serial = lc_next_delivery_serial c\<rparr>) \<and>
       ls_in_flight st' = ls_in_flight st"
  by (auto simp: take_cached_def take_from_lease_def take_next_def Let_def)

lemma take_cached_miss:
  "(case ls_leases st k of None \<Rightarrow> True | Some c \<Rightarrow> lc_end_exclusive c \<le> lc_next_delivery_serial c) \<Longrightarrow>
     \<exists>st'. take_cached k st = (st', None) \<and> ls_in_flight st' = ls_in_flight st"
  by (auto simp: take_cached_def take_from_lease_def take_next_def Let_def split: option.splits)

context position_source
begin

lemma call_returns:
  assumes "ls_in_flight st k = None" "1 < bs" "next_of inner k \<noteq> - 1"
  shows "\<exists>inner' st' r. leased_reserve_delivery_position 6 ops bs uuid k inner st = Some (inner', st', Inr r) \<and>
    vwr_delivery_serial r = leased_next (ls_leases st k) (next_of inner k) \<and> ls_in_flight st' k = None"
proof (cases "case ls_leases st k of None \<Rightarrow> True | Some c \<Rightarrow> lc_end_exclusive c \<le> lc_next_delivery_serial c")
  case False
  then obtain c where c: "ls_leases st k = Some c" "lc_next_delivery_serial c < lc_end_exclusive c"
    by (auto split: option.splits)
  from take_cached_hit [OF c] obtain st' where
    "take_cached k st = (st', Some \<lparr>vwr_stream_id = lc_stream_id c, vwr_delivery_serial = lc_next_delivery_serial c\<rparr>)"
    "ls_in_flight st' = ls_in_flight st" by blast
  with assms c show ?thesis
    by (auto simp: leased_reserve_delivery_position_def lease_call_def lease_action_def lease_at_top_def leased_next_def
        numeral_eq_Suc)
next
  case True
  from take_cached_miss [OF True] obtain st1 where miss: "take_cached k st = (st1, None)" "ls_in_flight st1 = ls_in_flight st"
    by blast
  have "bs \<noteq> 0" using assms(2) by auto
  from block_total [OF this] obtain inner' b
    where b: "po_reserve_block ops inner (lk_app_id k) (lk_channel k) bs uuid = (inner', Inr b)" by blast
  define st2 where "st2 = fst (finish_reservation k b (st1\<lparr>ls_in_flight := (ls_in_flight st1)(k \<mapsto> [])\<rparr>))"
  have st2: "ls_leases st2 k = Some (lease_from_block b)" "ls_in_flight st2 k = None"
    by (simp_all add: st2_def finish_reservation_def)
  have start: "vwb_start_delivery_serial b = next_of inner k" "vwb_len b = bs" using block_Inr [OF b] by simp_all
  have "lc_next_delivery_serial (lease_from_block b) < lc_end_exclusive (lease_from_block b)"
    using assms(2,3) start by (auto simp: lease_from_block_def u64_neq_max_iff u64_unat)
  from take_cached_hit [OF st2(1) this] obtain st3 r where
    hit: "take_cached k st2 = (st3, Some r)" "vwr_delivery_serial r = next_of inner k" "ls_in_flight st3 = ls_in_flight st2"
    using start by (auto simp: lease_from_block_def)
  have "leased_next (ls_leases st k) (next_of inner k) = next_of inner k"
    using True by (auto simp: leased_next_def split: option.splits)
  moreover have "finish_reservation k b (st1\<lparr>ls_in_flight := (ls_in_flight st1)(k \<mapsto> [])\<rparr>) = (st2, [])"
    by (simp add: st2_def finish_reservation_def)
  moreover have "bs \<noteq> 1" using assms(2) by auto
  ultimately show ?thesis
    using assms(1) miss b hit st2(2)
    by (simp add: leased_reserve_delivery_position_def lease_call_def lease_action_def lease_at_top_def
        start_or_join_reservation_def numeral_eq_Suc)
qed

end

section \<open>The in-memory store as the inner store\<close>

definition memory_position_ops :: "memory_version_store position_ops" where
  "memory_position_ops = \<lparr>po_reserve = reserve_delivery_position, po_reserve_block = reserve_delivery_positions\<rparr>"

definition memory_next :: "memory_version_store \<Rightarrow> lease_key \<Rightarrow> u64" where
  "memory_next s k =
     (case bt_get s (version_channel_key (lk_app_id k) (lk_channel k)) of
        None \<Rightarrow> ch_next_delivery_serial (version_channel_default []) | Some st \<Rightarrow> ch_next_delivery_serial st)"

text \<open>Everything else that clients and the purge worker do to the in-memory store.\<close>

definition memory_other ::
    "(message_data \<Rightarrow> string + bytes) \<Rightarrow> (message_data \<Rightarrow> string + json) \<Rightarrow>
     memory_version_store \<Rightarrow> memory_version_store \<Rightarrow> bool" where
  "memory_other to_vec to_value s s' \<longleftrightarrow>
     version_write to_vec to_value s s' \<or> (\<exists>before batch. fst (version_purge_before s before batch) = s')"

lemma memory_next_put:
  "ch_next_delivery_serial (version_channel_or_default s key uuid) \<le> ch_next_delivery_serial st \<Longrightarrow>
     memory_next s k \<le> memory_next (bt_insert key st s) k"
  by (auto simp: memory_next_def version_channel_or_default_def version_channel_default_def bt_get_insert
      split: option.splits)

lemma memory_next_raise:
  "memory_next s k \<le> memory_next (bt_insert key (version_channel_or_default s key uuid
     \<lparr>ch_next_delivery_serial := sat_add (ch_next_delivery_serial (version_channel_or_default s key uuid)) n\<rparr>) s) k"
  by (rule memory_next_put [where uuid = uuid]) simp

lemma append_version_channel_next:
  "append_version_channel st r now = (st', res) \<Longrightarrow> ch_next_delivery_serial st \<le> ch_next_delivery_serial st'"
  by (auto simp: append_version_channel_def Let_def split: option.splits sum.splits if_splits)

lemma commit_create_channel_next:
  "commit_create_channel to_vec st request now = (st', res) \<Longrightarrow> ch_next_delivery_serial st \<le> ch_next_delivery_serial st'"
  by (auto simp: commit_create_channel_def commit_create_insert_def Let_def split: option.splits sum.splits if_splits)

lemma compare_and_apply_channel_next:
  "compare_and_apply_channel to_vec to_value st request now = (st', res) \<Longrightarrow>
     ch_next_delivery_serial st \<le> ch_next_delivery_serial st'"
proof -
  have insert: "ch_next_delivery_serial st \<le> d \<Longrightarrow>
      compare_and_apply_insert st chain current r m d now = (st', res) \<Longrightarrow>
      ch_next_delivery_serial st \<le> ch_next_delivery_serial st'" for chain current r m d
    by (auto simp: compare_and_apply_insert_def Let_def split: sum.splits if_splits intro: order_trans)
  have recd: "ch_next_delivery_serial st \<le> d \<Longrightarrow>
      compare_and_apply_record to_vec to_value st chain current request d now = (st', res) \<Longrightarrow>
      ch_next_delivery_serial st \<le> ch_next_delivery_serial st'" for chain current d
    unfolding compare_and_apply_record_def Let_def
    by (auto split: sum.splits option.splits if_splits dest: insert)
  show "compare_and_apply_channel to_vec to_value st request now = (st', res) \<Longrightarrow>
      ch_next_delivery_serial st \<le> ch_next_delivery_serial st'"
    unfolding compare_and_apply_channel_def compare_and_apply_current_def Let_def
    by (auto split: sum.splits option.splits if_splits prod.splits dest: recd [rotated])
qed

lemma purge_one_next: "ch_next_delivery_serial (fst (fold purge_one ks (st, n))) = ch_next_delivery_serial st"
proof (induction ks arbitrary: st n)
  case (Cons k ks)
  have "ch_next_delivery_serial (fst (purge_one k (st, n))) = ch_next_delivery_serial st"
    by (auto simp: purge_one_def purge_record_def Let_def split: option.splits prod.splits if_splits)
  with Cons.IH show ?case by (cases "purge_one k (st, n)") simp
qed simp

lemma purge_channels_next:
  "map_option ch_next_delivery_serial (bt_get (fst (purge_channels before batch n b s)) key) =
     map_option ch_next_delivery_serial (bt_get s key)"
proof (induction s arbitrary: n b)
  case (Cons p rest)
  obtain k st where p: "p = (k, st)" by (cases p)
  show ?case
  proof (cases "batch - n = 0")
    case False
    define sel where "sel = purge_select before (batch - n) [] (ch_created_at st)"
    define st' where "st' = fold purge_one (fst sel) (st, n)"
    have "ch_next_delivery_serial (fst st') = ch_next_delivery_serial st"
      unfolding st'_def by (rule purge_one_next)
    with False Cons.IH show ?thesis
      by (simp add: p Let_def case_prod_beta sel_def [symmetric] st'_def [symmetric])
  qed (simp add: p)
qed simp

lemma memory_other_next:
  assumes "memory_other to_vec to_value s s'"
  shows "memory_next s k \<le> memory_next s' k"
proof -
  consider "version_write to_vec to_value s s'" | before batch where "s' = fst (version_purge_before s before batch)"
    using assms unfolding memory_other_def by blast
  then show ?thesis
  proof cases
    case 1
    then show ?thesis
    proof cases
      case (app r uuid now res)
      then show ?thesis
        by (auto simp: append_version_def Let_def split: prod.splits intro!: memory_next_put dest: append_version_channel_next)
    next
      case (create request uuid now res)
      then show ?thesis
        by (auto simp: commit_create_def Let_def split: prod.splits intro!: memory_next_put dest: commit_create_channel_next)
    next
      case (mutate request now res)
      then show ?thesis
        by (auto simp: compare_and_apply_def Let_def version_channel_or_default_def split: prod.splits option.splits
            intro!: memory_next_put dest: compare_and_apply_channel_next)
    qed (auto simp: version_ensure_stream_id_def reserve_delivery_position_def reserve_delivery_positions_def Let_def
        split: sum.splits intro!: memory_next_raise memory_next_put)
  next
    case 2
    have "memory_next s' k = memory_next s k"
      using purge_channels_next [of before batch 0 False s "version_channel_key (lk_app_id k) (lk_channel k)"]
      by (auto simp: 2 version_purge_before_def memory_next_def case_prod_beta split: option.splits)
    then show ?thesis by simp
  qed
qed

interpretation mps: position_source memory_position_ops "memory_other to_vec to_value" memory_next for to_vec to_value
proof unfold_locales
  fix s uuid s' r and k :: lease_key
  assume "po_reserve memory_position_ops s (lk_app_id k) (lk_channel k) uuid = (s', Inr r)"
  then show "vwr_delivery_serial r = memory_next s k \<and> memory_next s' k = sat_add (memory_next s k) 1"
    by (auto simp: memory_position_ops_def reserve_delivery_position_def memory_next_def version_channel_or_default_def
        version_channel_default_def bt_get_insert Let_def split: option.splits)
next
  fix s n uuid s' b and k :: lease_key
  assume "po_reserve_block memory_position_ops s (lk_app_id k) (lk_channel k) n uuid = (s', Inr b)"
  then show "vwb_start_delivery_serial b = memory_next s k \<and> vwb_len b = n \<and> memory_next s' k = sat_add (memory_next s k) n"
    by (auto simp: memory_position_ops_def reserve_delivery_positions_def memory_next_def version_channel_or_default_def
        version_channel_default_def bt_get_insert Let_def split: option.splits sum.splits)
qed (auto simp: memory_position_ops_def reserve_delivery_position_def reserve_delivery_positions_def Let_def
    reservation_block_validate_def memory_other_next split: sum.splits intro!: memory_next_raise)

section \<open>Cancelled calls\<close>

text \<open>
  A call is a future: when its caller is dropped, so is the call, at whatever point it awaits, and nothing
  is undone. A system in which calls may also be cancelled.
\<close>

inductive lease_cancel_step ::
    "'s position_ops \<Rightarrow> u64 \<Rightarrow> ('s \<Rightarrow> 's \<Rightarrow> bool) \<Rightarrow> 's lease_system \<Rightarrow> 's lease_system \<Rightarrow> bool"
  for ops block_size other where
  regular: "lease_step ops block_size other s s' \<Longrightarrow> lease_cancel_step ops block_size other s s'"
| cancel: "lease_cancel_step ops block_size other s (s\<lparr>sys_tasks := (sys_tasks s)(t := None)\<rparr>)"

definition granted :: "lease_pc \<Rightarrow> bool" where
  "granted pc \<longleftrightarrow> (case pc of Returned (Inr _) \<Rightarrow> True | _ \<Rightarrow> False)"

definition orphaned :: "'s lease_system \<Rightarrow> nat \<Rightarrow> lease_key \<Rightarrow> bool" where
  "orphaned s n k \<longleftrightarrow>
     ls_in_flight (sys_nodes s n) k \<noteq> None \<and> ls_leases (sys_nodes s n) k = None \<and> role_at (sys_tasks s) busy n k = {}"

lemma lease_take_other: "lease_take request k st = (st', res) \<Longrightarrow> k' \<noteq> k \<Longrightarrow> ls_leases st' k' = ls_leases st k'"
  by (auto simp: lease_take_def take_cached_def take_cached_after_def take_from_lease_def Let_def
      split: lease_request.splits option.splits prod.splits if_splits)

lemma lease_action_other:
  "lease_action ops bs uuid t (inner, st, task) = Some (inner', st', task', woken) \<Longrightarrow> k \<noteq> lt_key task \<Longrightarrow>
     ls_leases st' k = ls_leases st k \<and> ls_in_flight st' k = ls_in_flight st k"
  by (auto simp: lease_action_def lease_at_top_take start_or_join_reservation_def finish_reservation_def fail_reservation_def
      lease_take_in_flight lease_take_other
      split: lease_pc.splits prod.splits sum.splits option.splits if_splits)

text \<open>With no lease, a reservation in flight and nobody performing it, a call can only end up waiting or failing.\<close>

lemma lease_action_orphaned:
  assumes "lease_action ops bs uuid t (inner, st, task) = Some (inner', st', task', woken)"
    and "ls_leases st (lt_key task) = None" "ls_in_flight st (lt_key task) = Some ws" "\<not> busy (lt_pc task)" "bs \<noteq> 1"
  shows "ls_leases st' (lt_key task) = None \<and> ls_in_flight st' (lt_key task) \<noteq> None \<and>
    \<not> busy (lt_pc task') \<and> \<not> granted (lt_pc task')"
proof -
  have "lease_take (lt_request task) (lt_key task) st = (st, None)"
    using assms(2) by (simp add: lease_take_def take_cached_def take_cached_after_def split: lease_request.splits)
  then show ?thesis
    using assms
    by (auto simp: lease_action_def lease_at_top_take start_or_join_reservation_def busy_def granted_def
        split: lease_pc.splits prod.splits sum.splits option.splits if_splits)
qed

lemma orphaned_step:
  assumes "lease_cancel_step ops bs other s s'" "orphaned s n k" "bs \<noteq> 1"
  shows "orphaned s' n k \<and> role_at (sys_tasks s') granted n k \<subseteq> role_at (sys_tasks s) granted n k"
  using assms(1)
proof cases
  case (cancel t)
  with assms(2) show ?thesis by (auto simp: orphaned_def role_at_def)
next
  case regular
  then show ?thesis
  proof (cases rule: lease_step.cases)
    case (call t node key request)
    with assms(2) show ?thesis
      by (auto simp: orphaned_def role_at_def lease_call_def busy_def granted_def split: if_splits)
  next
    case (inner inner')
    with assms(2) show ?thesis by (auto simp: orphaned_def)
  next
    case (act t task uuid inner' st' task' woken)
    have same: "lt_node task' = lt_node task" "lt_key task' = lt_key task" using lease_action_key [OF act(3)] by simp_all
    have roles: "role_at (sys_tasks s') P n k \<subseteq>
        (if lt_node task = n \<and> lt_key task = k \<and> P (lt_pc task') then insert t (role_at (sys_tasks s) P n k)
         else role_at (sys_tasks s) P n k)" if "\<not> P AtTop" for P
      using that role_at_upd [of "sys_tasks s" t task task' P n k, OF act(2) same]
      by (auto simp: act(1) role_at_wake split: if_splits)
    have top: "\<not> busy AtTop" "\<not> granted AtTop" by (simp_all add: busy_def granted_def)
    show ?thesis
    proof (cases "lt_node task = n \<and> lt_key task = k")
      case True
      then have "\<not> busy (lt_pc task)" using assms(2) act(2) by (auto simp: orphaned_def role_at_def)
      with lease_action_orphaned [OF act(3)] assms(2,3) True
      have "ls_leases st' k = None" "ls_in_flight st' k \<noteq> None" "\<not> busy (lt_pc task')" "\<not> granted (lt_pc task')"
        by (auto simp: orphaned_def)
      with True roles [of busy, OF top(1)] roles [of granted, OF top(2)] assms(2) show ?thesis by (auto simp: orphaned_def act(1))
    next
      case False
      have "ls_leases (sys_nodes s' n) k = ls_leases (sys_nodes s n) k \<and> ls_in_flight (sys_nodes s' n) k = ls_in_flight (sys_nodes s n) k"
        using False lease_action_other [OF act(3), of k] by (cases "lt_node task = n") (auto simp: act(1))
      with False roles [of busy, OF top(1)] roles [of granted, OF top(2)] assms(2) show ?thesis by (auto simp: orphaned_def)
    qed
  qed
qed

lemma orphaned_steps:
  assumes "(lease_cancel_step ops bs other)\<^sup>*\<^sup>* s s'" "orphaned s n k" "bs \<noteq> 1"
  shows "orphaned s' n k \<and> role_at (sys_tasks s') granted n k \<subseteq> role_at (sys_tasks s) granted n k"
  using assms(1)
proof (induction rule: rtranclp_induct)
  case (step s' s'')
  from orphaned_step [OF step.hyps(2), of n k] step.IH assms(3) show ?case by blast
qed (simp add: assms(2))

section \<open>Properties\<close>

text \<open>C19: Delivery positions are handed out once. Whatever calls run on whatever nodes over one in-memory store, and
however they interleave with each other, with writes and with purges, two calls that return a position of the same
channel return different ones, below the next position of the store (unless the counter is saturated).\<close>

theorem lease_positions_distinct:
  assumes "lease_reachable memory_position_ops block_size (memory_other to_vec to_value) start s"
    and "memory_next (sys_inner s) k \<noteq> - 1"
    and "sys_tasks s t = Some task" "lt_key task = k" "lt_pc task = Returned (Inr r)"
    and "sys_tasks s t' = Some task'" "lt_key task' = k" "lt_pc task' = Returned (Inr r')" and "t \<noteq> t'"
  shows "vwr_delivery_serial r \<noteq> vwr_delivery_serial r' \<and> vwr_delivery_serial r < memory_next (sys_inner s) k"
  using assms by (rule mps.reachable_distinct)


text \<open>A call that is not disturbed returns after at most five actions, with the next position of the lease of its
channel when there is one, and otherwise with the next position of the store.\<close>

theorem lease_call_returns:
  assumes "ls_in_flight st k = None" "1 < block_size" "memory_next inner k \<noteq> - 1"
  shows "\<exists>inner' st' r. leased_reserve_delivery_position 6 memory_position_ops block_size uuid k inner st = Some (inner', st', Inr r) \<and>
    vwr_delivery_serial r = leased_next (ls_leases st k) (memory_next inner k) \<and> ls_in_flight st' k = None"
  using assms by (rule mps.call_returns)


section \<open>Closing an orphaned stream\<close>

text \<open>
  The store part of closing an orphaned AI stream: a position after the current version from the wrapper,
  the cancelled version, and its append. This is the one place where leased positions are consumed;
  creates and mutations take theirs from the inner store.
\<close>

definition append_cancelled ::
    "nat \<Rightarrow> u64 \<Rightarrow> string \<Rightarrow> i64 \<Rightarrow> version_metadata \<Rightarrow> message_extras \<Rightarrow> stored_version_record \<Rightarrow>
     memory_version_store \<Rightarrow> lease_state \<Rightarrow>
     (memory_version_store \<times> lease_state \<times> stored_version_record result) option" where
  "append_cancelled fuel block_size uuid now version cancelled_extras current inner st =
     (case leased_reserve_delivery_position_after fuel memory_position_ops block_size uuid
             \<lparr>lk_app_id = svr_app_id current, lk_channel = svr_channel current\<rparr> (svr_delivery_serial current) inner st of
        None \<Rightarrow> None
      | Some (inner', st', Inl e) \<Rightarrow> Some (inner', st', Inl e)
      | Some (inner', st', Inr reservation) \<Rightarrow>
          (case vm_apply_mutation (svr_message current) AUpdate version (vwr_delivery_serial reservation)
                  \<lparr>mfd_name = Keep, mfd_data = Keep, mfd_extras = Replace cancelled_extras\<rparr> of
             Inl e \<Rightarrow> Some (inner', st', Inl e)
           | Inr cancelled \<Rightarrow>
               (let r = current\<lparr>svr_message := cancelled\<rparr> in
                case append_version inner' r uuid now of
                  (inner'', Inl e) \<Rightarrow> Some (inner'', st', Inl e)
                | (inner'', Inr _) \<Rightarrow> Some (inner'', st', Inr r))))"

text \<open>A second message of the channel.\<close>

definition demo_next_create :: version_create_request where
  "demo_next_create =
     (demo_create None None)\<lparr>vcr_record := (vcr_record (demo_create None None))
        \<lparr>svr_message := vm_new_create ''n'' (demo_version ''3'') 1 0 None (Some (DString ''ho'')) None\<rparr>\<rparr>"

definition demo_cancelled :: message_extras where
  "demo_cancelled = demo_streaming"

definition demo_orphan :: "(memory_version_store \<times> lease_state \<times> stored_version_record result) option" where
  "demo_orphan =
     append_cancelled 6 128 ''s'' 7 (demo_version ''2'') demo_cancelled (vcr_record (demo_create None None))
       demo_s0 lease_state_default"

lemma demo_orphan_replay:
  "case demo_orphan of
     Some (s1, st, Inr r) \<Rightarrow>
       (case commit_create demo_to_vec s1 demo_next_create ''s'' 8 of
          (s2, Inr (CreateApplied r' stream)) \<Rightarrow>
            (case version_replay_after s2 (demo_replay\<lparr>vrp_after_delivery_serial := 1\<rparr>) of
               Inl (InvalidMessageFormat e) \<Rightarrow> e = ''replay gap detected: expected delivery_serial 3, got 130''
             | _ \<Rightarrow> False)
        | _ \<Rightarrow> False)
   | _ \<Rightarrow> False"
  by code_simp


section \<open>Schedules\<close>

text \<open>A schedule of calls and actions, run from the start.\<close>

datatype lease_event = CallOn nat nat lease_key lease_request | ActOf nat

fun exec_event :: "'s position_ops \<Rightarrow> u64 \<Rightarrow> string \<Rightarrow> lease_event \<Rightarrow> 's lease_system \<Rightarrow> 's lease_system" where
  "exec_event ops block_size uuid (CallOn t node key request) s =
     (case sys_tasks s t of
        Some _ \<Rightarrow> s
      | None \<Rightarrow> s\<lparr>sys_tasks := (sys_tasks s)(t \<mapsto> lease_call block_size node key request)\<rparr>)"
| "exec_event ops block_size uuid (ActOf t) s =
     (case sys_tasks s t of
        None \<Rightarrow> s
      | Some task \<Rightarrow>
          (case lease_action ops block_size uuid t (sys_inner s, sys_nodes s (lt_node task), task) of
             None \<Rightarrow> s
           | Some (inner', st', task', woken) \<Rightarrow>
               \<lparr>sys_inner = inner', sys_nodes = (sys_nodes s)(lt_node task := st'),
                sys_tasks = wake woken ((sys_tasks s)(t \<mapsto> task'))\<rparr>))"

definition exec_events :: "'s position_ops \<Rightarrow> u64 \<Rightarrow> string \<Rightarrow> lease_event list \<Rightarrow> 's \<Rightarrow> 's lease_system" where
  "exec_events ops block_size uuid evs start =
     fold (exec_event ops block_size uuid) evs
       \<lparr>sys_inner = start, sys_nodes = (\<lambda>_. lease_state_default), sys_tasks = Map.empty\<rparr>"

lemma exec_event_step: "exec_event ops bs uuid ev s = s \<or> lease_step ops bs other s (exec_event ops bs uuid ev s)"
proof (cases ev)
  case (CallOn t node key request)
  then show ?thesis by (auto split: option.splits intro: lease_step.call)
next
  case (ActOf t)
  show ?thesis
  proof (cases "sys_tasks s t")
    case (Some task)
    show ?thesis
    proof (cases "lease_action ops bs uuid t (sys_inner s, sys_nodes s (lt_node task), task)")
      case None
      with ActOf Some show ?thesis by simp
    next
      case (Some res)
      obtain inner' st' task' woken where "res = (inner', st', task', woken)" by (cases res)
      with Some lease_step.act [of s t task] ActOf \<open>sys_tasks s t = Some task\<close> show ?thesis by simp
    qed
  qed (use ActOf in simp)
qed

lemma exec_event_reachable:
  "lease_reachable ops bs other start s \<Longrightarrow> lease_reachable ops bs other start (exec_event ops bs uuid ev s)"
  using exec_event_step [of ops bs uuid ev s other] by (auto intro: lease_reachable.step)

lemma exec_event_cancel_steps: "(lease_cancel_step ops bs other)\<^sup>*\<^sup>* s (fold (exec_event ops bs uuid) evs s)"
proof (induction evs arbitrary: s)
  case (Cons ev evs)
  have "(lease_cancel_step ops bs other)\<^sup>*\<^sup>* s (exec_event ops bs uuid ev s)"
    using exec_event_step [of ops bs uuid ev s other] by (auto intro: lease_cancel_step.regular)
  with Cons show ?case by (simp add: rtranclp_trans)
qed simp

lemma exec_events_reachable: "lease_reachable ops bs other start (exec_events ops bs uuid evs start)"
proof -
  have "lease_reachable ops bs other start s \<Longrightarrow>
      lease_reachable ops bs other start (fold (exec_event ops bs uuid) evs s)" for s
    by (induction evs arbitrary: s) (simp_all add: exec_event_reachable)
  then show ?thesis unfolding exec_events_def by (simp add: lease_reachable.init)
qed

text \<open>Two calls on one node: the second waits for the block the first reserves, and both get a position of it.\<close>

definition demo_lease_key :: lease_key where
  "demo_lease_key = \<lparr>lk_app_id = ''a'', lk_channel = ''c''\<rparr>"

definition demo_schedule :: "lease_event list" where
  "demo_schedule =
     [CallOn 0 0 demo_lease_key NextPosition, CallOn 1 0 demo_lease_key NextPosition, ActOf 0, ActOf 1, ActOf 0, ActOf 1]"

definition demo_waiting :: "memory_version_store lease_system" where
  "demo_waiting = exec_events memory_position_ops 4 ''s'' demo_schedule demo_s0"

definition demo_done :: "memory_version_store lease_system" where
  "demo_done = exec_events memory_position_ops 4 ''s'' (demo_schedule @ [ActOf 0, ActOf 0, ActOf 0, ActOf 1]) demo_s0"

lemma demo_waiting_reachable: "lease_reachable memory_position_ops 4 other demo_s0 demo_waiting"
  unfolding demo_waiting_def by (rule exec_events_reachable)

lemma demo_done_reachable: "lease_reachable memory_position_ops 4 other demo_s0 demo_done"
  unfolding demo_done_def by (rule exec_events_reachable)

lemma demo_waiting_tasks:
  "map_option lt_pc (sys_tasks demo_waiting 0) = Some Reserving"
  "map_option lt_pc (sys_tasks demo_waiting 1) = Some Waiting"
  "map_option lt_node (sys_tasks demo_waiting 0) = Some 0"
  "map_option lt_key (sys_tasks demo_waiting 0) = Some demo_lease_key"
  "ls_leases (sys_nodes demo_waiting 0) demo_lease_key = None"
  unfolding demo_waiting_def demo_s0_def by code_simp+

lemma demo_done_tasks:
  "map_option lt_pc (sys_tasks demo_done 0) = Some (Returned (Inr \<lparr>vwr_stream_id = ''s'', vwr_delivery_serial = 2\<rparr>))"
  "map_option lt_pc (sys_tasks demo_done 1) = Some (Returned (Inr \<lparr>vwr_stream_id = ''s'', vwr_delivery_serial = 3\<rparr>))"
  "map_option lt_key (sys_tasks demo_done 0) = Some demo_lease_key"
  "map_option lt_key (sys_tasks demo_done 1) = Some demo_lease_key"
  "memory_next (sys_inner demo_done) demo_lease_key = 6"
  unfolding demo_done_def demo_s0_def by code_simp+

lemma lease_positions_distinct_witness:
  "\<exists>r r'. map_option lt_pc (sys_tasks demo_done 0) = Some (Returned (Inr r)) \<and>
     map_option lt_pc (sys_tasks demo_done 1) = Some (Returned (Inr r')) \<and>
     vwr_delivery_serial r \<noteq> vwr_delivery_serial r' \<and> vwr_delivery_serial r < 6"
proof -
  obtain task task' where tasks: "sys_tasks demo_done 0 = Some task" "sys_tasks demo_done 1 = Some task'"
    using demo_done_tasks(1,2) by auto
  note facts = demo_done_tasks [unfolded tasks, simplified]
  have "memory_next (sys_inner demo_done) demo_lease_key \<noteq> - 1" by (simp add: facts(5))
  from lease_positions_distinct [OF demo_done_reachable [where other = "memory_other demo_to_vec demo_to_value"] this
      tasks(1) facts(3) facts(1) tasks(2) facts(4) facts(2)]
  show ?thesis by (simp add: tasks tasks [simplified] facts)
qed


lemma lease_call_returns_witness:
  "\<exists>inner' st' r. leased_reserve_delivery_position 6 memory_position_ops 4 ''s'' demo_lease_key [] lease_state_default =
     Some (inner', st', Inr r) \<and> vwr_delivery_serial r = 1"
proof -
  have "memory_next [] demo_lease_key = 1" by (simp add: memory_next_def version_channel_default_def)
  with lease_call_returns [of lease_state_default demo_lease_key 4 "[]" "''s''"] show ?thesis
    by (auto simp: lease_state_default_def leased_next_def)
qed

definition demo_cancelled_run :: "memory_version_store lease_system" where
  "demo_cancelled_run =
     fold (exec_event memory_position_ops 4 ''s'') [CallOn 2 0 demo_lease_key NextPosition, ActOf 2, ActOf 2, ActOf 1]
       (demo_waiting\<lparr>sys_tasks := (sys_tasks demo_waiting)(0 := None)\<rparr>)"


end
