(* ===== verification/Annotations.thy ===== *)
theory Annotations
  imports BTree Versioned_Messages
begin

text \<open>
  Message annotations: their types and validation, the projection that summarises the events of one
  message and annotation type (\<^verbatim>\<open>sockudo-core/src/annotations/types.rs\<close>), and the five summarisers
  (\<^verbatim>\<open>sockudo-core/src/annotation_summarizers.rs\<close>). A \<^verbatim>\<open>BTreeSet\<close> is an ordered map to the unit.
\<close>

section \<open>Strings\<close>

text \<open>\<^verbatim>\<open>split_once(':')\<close>, \<^verbatim>\<open>rsplit_once(".v")\<close> and \<^verbatim>\<open>parse::<u16>()\<close>.\<close>

fun split_once :: "char \<Rightarrow> string \<Rightarrow> (string \<times> string) option" where
  "split_once d [] = None"
| "split_once d (c # s) =
     (if c = d then Some ([], s)
      else case split_once d s of None \<Rightarrow> None | Some (a, b) \<Rightarrow> Some (c # a, b))"

fun rsplit_once :: "string \<Rightarrow> string \<Rightarrow> (string \<times> string) option" where
  "rsplit_once pat [] = None"
| "rsplit_once pat (c # s) =
     (case rsplit_once pat s of
        Some (a, b) \<Rightarrow> Some (c # a, b)
      | None \<Rightarrow> if take (length pat) (c # s) = pat then Some ([], drop (length pat) (c # s)) else None)"

definition is_digit :: "char \<Rightarrow> bool" where
  "is_digit c \<longleftrightarrow> 48 \<le> (of_char c :: int) \<and> (of_char c :: int) \<le> 57"

definition digits_value :: "string \<Rightarrow> int" where
  "digits_value s = foldl (\<lambda>n c. 10 * n + (of_char c - 48)) 0 s"

definition parse_u16 :: "string \<Rightarrow> nat option" where
  "parse_u16 s =
     (let ds = (case s of [] \<Rightarrow> [] | c # rest \<Rightarrow> if c = CHR ''+'' then rest else s) in
      if ds = [] \<or> \<not> list_all is_digit ds then None
      else if digits_value ds < 65536 then Some (nat (digits_value ds)) else None)"

section \<open>Annotations\<close>

type_synonym annotation_id = string
type_synonym annotation_serial = string
type_synonym annotation_type = string

definition validate_identifier :: "string \<Rightarrow> string \<Rightarrow> nat \<Rightarrow> unit result" where
  "validate_identifier label value max_len =
     (if trim_is_empty value then Inl (InvalidMessageFormat (label @ '' must not be empty''))
      else if has_whitespace value then Inl (InvalidMessageFormat (label @ '' must not contain whitespace''))
      else if length value > max_len
      then Inl (InvalidMessageFormat (label @ '' must be at most '' @ show_nat max_len @ '' bytes''))
      else Inr ())"

definition validate_required_text :: "string \<Rightarrow> string option \<Rightarrow> unit result" where
  "validate_required_text label value =
     (case value of
        Some v \<Rightarrow>
          if \<not> trim_is_empty v then Inr ()
          else Inl (InvalidMessageFormat (label @ '' is required for this annotation type''))
      | None \<Rightarrow> Inl (InvalidMessageFormat (label @ '' is required for this annotation type'')))"

definition annotation_id_new :: "string \<Rightarrow> annotation_id result" where
  "annotation_id_new value =
     (case validate_identifier ''annotation id'' value 128 of Inl e \<Rightarrow> Inl e | Inr _ \<Rightarrow> Inr value)"

definition annotation_serial_new :: "string \<Rightarrow> annotation_serial result" where
  "annotation_serial_new value =
     (case validate_identifier ''annotation serial'' value 128 of Inl e \<Rightarrow> Inl e | Inr _ \<Rightarrow> Inr value)"

datatype annotation_summarizer = STotal | SFlag | SDistinct | SUnique | SMultiple

definition annotation_summarizer_as_str :: "annotation_summarizer \<Rightarrow> string" where
  "annotation_summarizer_as_str s =
     (case s of STotal \<Rightarrow> ''total'' | SFlag \<Rightarrow> ''flag'' | SDistinct \<Rightarrow> ''distinct'' | SUnique \<Rightarrow> ''unique''
      | SMultiple \<Rightarrow> ''multiple'')"

record parsed_annotation_type =
  pat_namespace :: string
  pat_summarizer :: annotation_summarizer
  pat_version :: nat

definition annotation_type_format_error :: error where
  "annotation_type_format_error = InvalidMessageFormat ''annotation type must use namespace:summarizer.version''"

definition parse_summarizer :: "string \<Rightarrow> annotation_summarizer option" where
  "parse_summarizer s =
     (if s = ''total'' then Some STotal
      else if s = ''flag'' then Some SFlag
      else if s = ''distinct'' then Some SDistinct
      else if s = ''unique'' then Some SUnique
      else if s = ''multiple'' then Some SMultiple
      else None)"

definition parse_annotation_type :: "string \<Rightarrow> parsed_annotation_type result" where
  "parse_annotation_type value =
     (case validate_identifier ''annotation type'' value 256 of
        Inl e \<Rightarrow> Inl e
      | Inr _ \<Rightarrow>
          (case split_once CHR '':'' value of
             None \<Rightarrow> Inl annotation_type_format_error
           | Some (namespace, rest) \<Rightarrow>
               (case validate_identifier ''annotation namespace'' namespace 256 of
                  Inl e \<Rightarrow> Inl e
                | Inr _ \<Rightarrow>
                    (case rsplit_once ''.v'' rest of
                       None \<Rightarrow> Inl annotation_type_format_error
                     | Some (summarizer, version) \<Rightarrow>
                         (case parse_summarizer summarizer of
                            None \<Rightarrow> Inl (InvalidMessageFormat (''unsupported annotation summarizer: '' @ summarizer))
                          | Some sm \<Rightarrow>
                              (case parse_u16 version of
                                 None \<Rightarrow> Inl (InvalidMessageFormat (''invalid annotation summarizer version: '' @ version))
                               | Some v \<Rightarrow>
                                   if v \<noteq> 1
                                   then Inl (InvalidMessageFormat (''unsupported annotation summarizer version: '' @ show_nat v))
                                   else Inr \<lparr>pat_namespace = namespace, pat_summarizer = sm, pat_version = v\<rparr>))))))"

definition annotation_type_new :: "string \<Rightarrow> annotation_type result" where
  "annotation_type_new value = (case parse_annotation_type value of Inl e \<Rightarrow> Inl e | Inr _ \<Rightarrow> Inr value)"

definition annotation_type_namespace :: "annotation_type \<Rightarrow> string result" where
  "annotation_type_namespace t = (case parse_annotation_type t of Inl e \<Rightarrow> Inl e | Inr p \<Rightarrow> Inr (pat_namespace p))"

definition annotation_type_summarizer :: "annotation_type \<Rightarrow> annotation_summarizer result" where
  "annotation_type_summarizer t = (case parse_annotation_type t of Inl e \<Rightarrow> Inl e | Inr p \<Rightarrow> Inr (pat_summarizer p))"

definition annotation_type_version :: "annotation_type \<Rightarrow> nat result" where
  "annotation_type_version t = (case parse_annotation_type t of Inl e \<Rightarrow> Inl e | Inr p \<Rightarrow> Inr (pat_version p))"

datatype annotation_action = AnnCreate | AnnDelete

definition annotation_action_as_str :: "annotation_action \<Rightarrow> string" where
  "annotation_action_as_str a = (case a of AnnCreate \<Rightarrow> ''annotation.create'' | AnnDelete \<Rightarrow> ''annotation.delete'')"

record annotation =
  an_id :: annotation_id
  an_action :: annotation_action
  an_serial :: annotation_serial
  an_message_serial :: message_serial
  an_type :: annotation_type
  an_name :: "string option"
  an_client_id :: "string option"
  an_count :: "u64 option"
  an_data :: "json option"
  an_encoding :: "string option"
  an_timestamp :: i64

definition annotation_validate :: "annotation \<Rightarrow> unit result" where
  "annotation_validate a =
     (case validate_identifier ''annotation id'' (an_id a) 128 of
        Inl e \<Rightarrow> Inl e
      | Inr _ \<Rightarrow>
          (case validate_identifier ''annotation serial'' (an_serial a) 128 of
             Inl e \<Rightarrow> Inl e
           | Inr _ \<Rightarrow>
               (case annotation_type_summarizer (an_type a) of
                  Inl e \<Rightarrow> Inl e
                | Inr summarizer \<Rightarrow>
                    (case (if summarizer \<in> {SDistinct, SUnique, SMultiple}
                           then validate_required_text ''annotation name'' (an_name a) else Inr ()) of
                       Inl e \<Rightarrow> Inl e
                     | Inr _ \<Rightarrow>
                         (case (if summarizer \<in> {SFlag, SDistinct, SUnique}
                                then validate_required_text ''annotation client_id'' (an_client_id a) else Inr ()) of
                            Inl e \<Rightarrow> Inl e
                          | Inr _ \<Rightarrow>
                              if an_count a = Some 0
                              then Inl (InvalidMessageFormat ''annotation count must be greater than 0'')
                              else Inr ())))))"

definition effective_count :: "annotation \<Rightarrow> u64" where
  "effective_count a = (case an_count a of None \<Rightarrow> 1 | Some c \<Rightarrow> c)"

section \<open>Summaries\<close>

record identified_summary =
  ids_total :: u64
  ids_client_ids :: "string list"
  ids_clipped :: bool

record multiple_summary =
  mus_total :: u64
  mus_client_counts :: "(string, u64) btree"
  mus_total_unidentified :: u64
  mus_clipped :: bool
  mus_total_client_ids :: u64

datatype annotation_summary =
    SumTotal u64
  | SumFlag identified_summary
  | SumDistinct "(string, identified_summary) btree"
  | SumUnique "(string, identified_summary) btree"
  | SumMultiple "(string, multiple_summary) btree"

type_synonym client_set = "(string, unit) btree"

type_synonym projection_options = "usize option"

definition identified_summary_of :: "client_set \<Rightarrow> projection_options \<Rightarrow> identified_summary" where
  "identified_summary_of clients options =
     \<lparr>ids_total = len64 clients,
      ids_client_ids = (case options of Some limit \<Rightarrow> take (unat limit) (bt_keys clients) | None \<Rightarrow> bt_keys clients),
      ids_clipped = (case options of None \<Rightarrow> False | Some limit \<Rightarrow> length clients > unat limit)\<rparr>"

record multiple_bucket =
  mb_client_counts :: "(string, u64) btree"
  mb_total_unidentified :: u64

definition multiple_bucket_default :: multiple_bucket where
  "multiple_bucket_default = \<lparr>mb_client_counts = [], mb_total_unidentified = 0\<rparr>"

text \<open>\<^verbatim>\<open>sum::<u64>()\<close> wraps in the release profile.\<close>

definition multiple_summary_of :: "multiple_bucket \<Rightarrow> projection_options \<Rightarrow> multiple_summary" where
  "multiple_summary_of bucket options =
     \<lparr>mus_total = sat_add (sum_list (bt_values (mb_client_counts bucket))) (mb_total_unidentified bucket),
      mus_client_counts =
        (case options of
           Some limit \<Rightarrow> take (unat limit) (mb_client_counts bucket)
         | None \<Rightarrow> mb_client_counts bucket),
      mus_total_unidentified = mb_total_unidentified bucket,
      mus_clipped = (case options of None \<Rightarrow> False | Some limit \<Rightarrow> length (mb_client_counts bucket) > unat limit),
      mus_total_client_ids = len64 (mb_client_counts bucket)\<rparr>"

section \<open>Summarisers\<close>

text \<open>The state of a summariser, with its options.\<close>

datatype summarizer_engine =
    TotalEngine u64
  | FlagEngine client_set
  | DistinctEngine "(string, client_set) btree"
  | UniqueEngine "(string, client_set) btree" "(string, string) btree"
  | MultipleEngine "(string, multiple_bucket) btree"

definition new_engine :: "annotation_summarizer \<Rightarrow> summarizer_engine" where
  "new_engine summarizer =
     (case summarizer of
        STotal \<Rightarrow> TotalEngine 0
      | SFlag \<Rightarrow> FlagEngine []
      | SDistinct \<Rightarrow> DistinctEngine []
      | SUnique \<Rightarrow> UniqueEngine [] []
      | SMultiple \<Rightarrow> MultipleEngine [])"

definition required_name :: "annotation \<Rightarrow> string result" where
  "required_name event =
     (case validate_required_text ''annotation name'' (an_name event) of
        Inl e \<Rightarrow> Inl e
      | Inr _ \<Rightarrow> (case an_name event of Some name \<Rightarrow> Inr name | None \<Rightarrow> Inr []))"

definition required_client_id :: "annotation \<Rightarrow> string result" where
  "required_client_id event =
     (case validate_required_text ''annotation client_id'' (an_client_id event) of
        Inl e \<Rightarrow> Inl e
      | Inr _ \<Rightarrow> (case an_client_id event of Some c \<Rightarrow> Inr c | None \<Rightarrow> Inr []))"

definition add_client_to_name :: "string \<Rightarrow> string \<Rightarrow> (string, client_set) btree \<Rightarrow> (string, client_set) btree" where
  "add_client_to_name name client_id names =
     bt_insert name (bt_insert client_id () (case bt_get names name of None \<Rightarrow> [] | Some clients \<Rightarrow> clients)) names"

definition remove_client_from_name :: "string \<Rightarrow> string \<Rightarrow> (string, client_set) btree \<Rightarrow> (string, client_set) btree" where
  "remove_client_from_name name client_id names =
     (case bt_get names name of
        None \<Rightarrow> names
      | Some clients \<Rightarrow>
          (let clients' = bt_remove client_id clients in
           if clients' = [] then bt_remove name names else bt_insert name clients' names))"

definition total_apply :: "annotation \<Rightarrow> u64 \<Rightarrow> u64" where
  "total_apply event n = (case an_action event of AnnCreate \<Rightarrow> sat_add n 1 | AnnDelete \<Rightarrow> sat_sub n 1)"

definition flag_apply :: "annotation \<Rightarrow> client_set \<Rightarrow> client_set result" where
  "flag_apply event clients =
     (case required_client_id event of
        Inl e \<Rightarrow> Inl e
      | Inr client_id \<Rightarrow>
          (case an_action event of
             AnnCreate \<Rightarrow> Inr (bt_insert client_id () clients)
           | AnnDelete \<Rightarrow> Inr (bt_remove client_id clients)))"

definition distinct_apply :: "annotation \<Rightarrow> (string, client_set) btree \<Rightarrow> (string, client_set) btree result" where
  "distinct_apply event names =
     (case required_name event of
        Inl e \<Rightarrow> Inl e
      | Inr name \<Rightarrow>
          (case required_client_id event of
             Inl e \<Rightarrow> Inl e
           | Inr client_id \<Rightarrow>
               (case an_action event of
                  AnnCreate \<Rightarrow> Inr (add_client_to_name name client_id names)
                | AnnDelete \<Rightarrow> Inr (remove_client_from_name name client_id names))))"

definition unique_apply ::
    "annotation \<Rightarrow> (string, client_set) btree \<times> (string, string) btree \<Rightarrow>
     ((string, client_set) btree \<times> (string, string) btree) result" where
  "unique_apply event st =
     (case st of (names, client_names) \<Rightarrow>
        (case required_name event of
           Inl e \<Rightarrow> Inl e
         | Inr name \<Rightarrow>
             (case required_client_id event of
                Inl e \<Rightarrow> Inl e
              | Inr client_id \<Rightarrow>
                  (case an_action event of
                     AnnCreate \<Rightarrow>
                       (let names' =
                          (case bt_get client_names client_id of
                             Some previous_name \<Rightarrow>
                               if previous_name \<noteq> name then remove_client_from_name previous_name client_id names else names
                           | None \<Rightarrow> names) in
                        Inr (add_client_to_name name client_id names', bt_insert client_id name client_names))
                   | AnnDelete \<Rightarrow>
                       (case bt_get client_names client_id of
                          Some active_name \<Rightarrow>
                            Inr (remove_client_from_name active_name client_id names, bt_remove client_id client_names)
                        | None \<Rightarrow> Inr (names, client_names))))))"

definition multiple_apply :: "annotation \<Rightarrow> (string, multiple_bucket) btree \<Rightarrow> (string, multiple_bucket) btree result" where
  "multiple_apply event names =
     (case required_name event of
        Inl e \<Rightarrow> Inl e
      | Inr name \<Rightarrow>
          (let bucket = (case bt_get names name of None \<Rightarrow> multiple_bucket_default | Some b \<Rightarrow> b) in
           case an_action event of
             AnnCreate \<Rightarrow>
               (case an_client_id event of
                  Some client_id \<Rightarrow>
                    (case validate_required_text ''annotation client_id'' (Some client_id) of
                       Inl e \<Rightarrow> Inl e
                     | Inr _ \<Rightarrow>
                         (let current = (case bt_get (mb_client_counts bucket) client_id of None \<Rightarrow> 0 | Some c \<Rightarrow> c) in
                          Inr (bt_insert name
                                 (bucket\<lparr>mb_client_counts :=
                                    bt_insert client_id (sat_add current (effective_count event)) (mb_client_counts bucket)\<rparr>)
                                 names)))
                | None \<Rightarrow>
                    Inr (bt_insert name
                           (bucket\<lparr>mb_total_unidentified := sat_add (mb_total_unidentified bucket) (effective_count event)\<rparr>)
                           names))
           | AnnDelete \<Rightarrow>
               (case an_client_id event of
                  Some client_id \<Rightarrow>
                    Inr (bt_insert name (bucket\<lparr>mb_client_counts := bt_remove client_id (mb_client_counts bucket)\<rparr>) names)
                | None \<Rightarrow> Inr (bt_insert name bucket names))))"

definition engine_apply :: "annotation \<Rightarrow> summarizer_engine \<Rightarrow> summarizer_engine result" where
  "engine_apply event engine =
     (case engine of
        TotalEngine n \<Rightarrow> Inr (TotalEngine (total_apply event n))
      | FlagEngine clients \<Rightarrow> map_sum id FlagEngine (flag_apply event clients)
      | DistinctEngine names \<Rightarrow> map_sum id DistinctEngine (distinct_apply event names)
      | UniqueEngine names client_names \<Rightarrow>
          map_sum id (\<lambda>(names', client_names'). UniqueEngine names' client_names') (unique_apply event (names, client_names))
      | MultipleEngine names \<Rightarrow> map_sum id MultipleEngine (multiple_apply event names))"

definition engine_finish :: "projection_options \<Rightarrow> summarizer_engine \<Rightarrow> annotation_summary" where
  "engine_finish options engine =
     (case engine of
        TotalEngine n \<Rightarrow> SumTotal n
      | FlagEngine clients \<Rightarrow> SumFlag (identified_summary_of clients options)
      | DistinctEngine names \<Rightarrow> SumDistinct (map (\<lambda>(name, clients). (name, identified_summary_of clients options)) names)
      | UniqueEngine names _ \<Rightarrow> SumUnique (map (\<lambda>(name, clients). (name, identified_summary_of clients options)) names)
      | MultipleEngine names \<Rightarrow> SumMultiple (map (\<lambda>(name, bucket). (name, multiple_summary_of bucket options)) names))"

section \<open>Projections\<close>

record annotation_projection =
  apj_channel_id :: string
  apj_message_serial :: message_serial
  apj_type :: annotation_type
  apj_summary :: annotation_summary
  apj_last_serial :: "annotation_serial option"
  apj_applied_events :: u64

definition validate_event_key :: "annotation \<Rightarrow> message_serial \<Rightarrow> annotation_type \<Rightarrow> unit result" where
  "validate_event_key event message_serial annotation_type =
     (case annotation_validate event of
        Inl e \<Rightarrow> Inl e
      | Inr _ \<Rightarrow>
          if an_message_serial event \<noteq> message_serial
          then Inl (InvalidMessageFormat (''annotation event messageSerial '' @ an_message_serial event @
                 '' does not match projection messageSerial '' @ message_serial))
          else if an_type event \<noteq> annotation_type
          then Inl (InvalidMessageFormat (''annotation event type '' @ an_type event @
                 '' does not match projection type '' @ annotation_type))
          else Inr ())"

text \<open>The variables of the loop of \<^verbatim>\<open>rebuild_sorted\<close>.\<close>

record rebuild_state =
  rs_engine :: summarizer_engine
  rs_seen_serials :: "annotation_serial set"
  rs_seen_create_ids :: "annotation_id set"
  rs_deleted_create_ids :: "annotation_id set"
  rs_last_serial :: "annotation_serial option"
  rs_applied_events :: u64

definition rebuild_apply :: "annotation \<Rightarrow> rebuild_state \<Rightarrow> rebuild_state result" where
  "rebuild_apply event st =
     (case engine_apply event (rs_engine st) of
        Inl e \<Rightarrow> Inl e
      | Inr engine \<Rightarrow> Inr (st\<lparr>rs_engine := engine, rs_applied_events := rs_applied_events st + 1\<rparr>))"

definition rebuild_event ::
    "message_serial \<Rightarrow> annotation_type \<Rightarrow> annotation_id set \<Rightarrow> annotation \<Rightarrow> rebuild_state \<Rightarrow> rebuild_state result" where
  "rebuild_event message_serial annotation_type create_ids event st =
     (case validate_event_key event message_serial annotation_type of
        Inl e \<Rightarrow> Inl e
      | Inr _ \<Rightarrow>
          if an_serial event \<in> rs_seen_serials st then Inr st
          else
            (let st1 = st\<lparr>rs_seen_serials := insert (an_serial event) (rs_seen_serials st),
                          rs_last_serial := Some (an_serial event)\<rparr> in
             case an_action event of
               AnnCreate \<Rightarrow>
                 if an_id event \<in> rs_deleted_create_ids st1 then Inr st1
                 else rebuild_apply event (st1\<lparr>rs_seen_create_ids := insert (an_id event) (rs_seen_create_ids st1)\<rparr>)
             | AnnDelete \<Rightarrow>
                 if an_id event \<in> create_ids
                 then (let st2 = st1\<lparr>rs_deleted_create_ids := insert (an_id event) (rs_deleted_create_ids st1)\<rparr> in
                       if an_id event \<notin> rs_seen_create_ids st2 then Inr st2 else rebuild_apply event st2)
                 else rebuild_apply event st1))"

fun rebuild_events ::
    "message_serial \<Rightarrow> annotation_type \<Rightarrow> annotation_id set \<Rightarrow> annotation list \<Rightarrow> rebuild_state \<Rightarrow> rebuild_state result" where
  "rebuild_events message_serial annotation_type create_ids [] st = Inr st"
| "rebuild_events message_serial annotation_type create_ids (event # events) st =
     (case rebuild_event message_serial annotation_type create_ids event st of
        Inl e \<Rightarrow> Inl e
      | Inr st' \<Rightarrow> rebuild_events message_serial annotation_type create_ids events st')"

definition rebuild_start :: "annotation_summarizer \<Rightarrow> rebuild_state" where
  "rebuild_start summarizer =
     \<lparr>rs_engine = new_engine summarizer, rs_seen_serials = {}, rs_seen_create_ids = {}, rs_deleted_create_ids = {},
      rs_last_serial = None, rs_applied_events = 0\<rparr>"

definition create_ids_of :: "annotation list \<Rightarrow> annotation_id set" where
  "create_ids_of events = set (map an_id (filter (\<lambda>event. an_action event = AnnCreate) events))"

definition rebuild_sorted ::
    "string \<Rightarrow> message_serial \<Rightarrow> annotation_type \<Rightarrow> annotation list \<Rightarrow> projection_options \<Rightarrow> annotation_projection result" where
  "rebuild_sorted channel_id message_serial annotation_type sorted_events options =
     (case annotation_type_summarizer annotation_type of
        Inl e \<Rightarrow> Inl e
      | Inr summarizer \<Rightarrow>
          (case rebuild_events message_serial annotation_type (create_ids_of sorted_events) sorted_events
                  (rebuild_start summarizer) of
             Inl e \<Rightarrow> Inl e
           | Inr st \<Rightarrow>
               Inr \<lparr>apj_channel_id = channel_id, apj_message_serial = message_serial, apj_type = annotation_type,
                    apj_summary = engine_finish options (rs_engine st), apj_last_serial = rs_last_serial st,
                    apj_applied_events = rs_applied_events st\<rparr>))"

definition rebuild_with_options ::
    "string \<Rightarrow> message_serial \<Rightarrow> annotation_type \<Rightarrow> annotation list \<Rightarrow> projection_options \<Rightarrow> annotation_projection result" where
  "rebuild_with_options channel_id message_serial annotation_type events options =
     rebuild_sorted channel_id message_serial annotation_type (sort_key an_serial events) options"

definition projection_rebuild ::
    "string \<Rightarrow> message_serial \<Rightarrow> annotation_type \<Rightarrow> annotation list \<Rightarrow> annotation_projection result" where
  "projection_rebuild channel_id message_serial annotation_type events =
     rebuild_with_options channel_id message_serial annotation_type events None"

section \<open>Convergence\<close>

lemma rebuild_apply_seen: "rebuild_apply e s = Inr s' \<Longrightarrow> rs_seen_serials s' = rs_seen_serials s"
  by (auto simp: rebuild_apply_def split: sum.splits)

lemma rebuild_event_seen:
  assumes "rebuild_event m t ids e st = Inr st'"
  shows "validate_event_key e m t = Inr ()" and "an_serial e \<in> rs_seen_serials st'"
proof -
  show ok: "validate_event_key e m t = Inr ()"
    using assms by (cases "validate_event_key e m t") (simp_all add: rebuild_event_def)
  show "an_serial e \<in> rs_seen_serials st'"
    using assms
    by (cases "an_serial e \<in> rs_seen_serials st"; cases "an_action e")
      (auto simp: rebuild_event_def ok Let_def split: if_splits dest: rebuild_apply_seen)
qed

lemma rebuild_events_twice:
  "rebuild_events m t ids (e # e # es) st = rebuild_events m t ids (e # es) st"
proof (cases "rebuild_event m t ids e st")
  case (Inr st')
  from rebuild_event_seen [OF Inr] have "rebuild_event m t ids e st' = Inr st'"
    by (simp add: rebuild_event_def)
  with Inr show ?thesis by simp
qed simp

lemma rebuild_events_remdups_adj: "rebuild_events m t ids (remdups_adj es) st = rebuild_events m t ids es st"
proof (induction es arbitrary: st rule: remdups_adj.induct)
  case (3 x y es)
  show ?case
  proof (cases "x = y")
    case True
    from 3(1) [OF True, of st] show ?thesis
      unfolding True rebuild_events_twice by simp
  next
    case False
    have IH: "rebuild_events m t ids (remdups_adj (y # es)) st' = rebuild_events m t ids (y # es) st'" for st'
      by (rule 3(2) [OF False])
    show ?thesis
      unfolding remdups_adj.simps(3) if_not_P [OF False] rebuild_events.simps(2) [of m t ids x] IH ..
  qed
qed simp_all

lemma create_ids_of_cong: "set xs = set ys \<Longrightarrow> create_ids_of xs = create_ids_of ys"
  by (simp add: create_ids_of_def)

lemma remdups_adj_map_inj_on: "inj_on f (set xs) \<Longrightarrow> remdups_adj (map f xs) = map f (remdups_adj xs)"
  by (induction xs rule: remdups_adj.induct) (auto simp: inj_on_def)

lemma sorted_distinct_remdups_adj: "sorted xs \<Longrightarrow> distinct (remdups_adj xs)" for xs :: "'k::linorder list"
  by (induction xs rule: remdups_adj.induct) auto

lemma remdups_adj_sort_unique:
  fixes f :: "'a \<Rightarrow> 'k::linorder"
  assumes "set xs = set ys" and "inj_on f (set xs)"
  shows "remdups_adj (sort_key f xs) = remdups_adj (sort_key f ys)"
proof -
  have strict: "sorted (map f (remdups_adj (sort_key f zs)))" "distinct (map f (remdups_adj (sort_key f zs)))"
    if "set zs = set xs" for zs
  proof -
    have inj: "inj_on f (set (sort_key f zs))" using that assms(2) by simp
    have "map f (remdups_adj (sort_key f zs)) = remdups_adj (map f (sort_key f zs))"
      by (rule remdups_adj_map_inj_on [OF inj, symmetric])
    moreover have "sorted (remdups_adj (map f (sort_key f zs)))" "distinct (remdups_adj (map f (sort_key f zs)))"
      by (simp_all add: sorted_remdups_adj sorted_distinct_remdups_adj)
    ultimately show "sorted (map f (remdups_adj (sort_key f zs)))" "distinct (map f (remdups_adj (sort_key f zs)))" by simp_all
  qed
  have "map f (remdups_adj (sort_key f xs)) = map f (remdups_adj (sort_key f ys))"
    by (rule sorted_distinct_set_unique [OF strict(1) [OF refl] strict(2) [OF refl] strict(1) [OF assms(1) [symmetric]]
          strict(2) [OF assms(1) [symmetric]]]) (simp add: assms(1))
  moreover have "inj_on f (set (remdups_adj (sort_key f xs)) \<union> set (remdups_adj (sort_key f ys)))"
    using assms(2) by (simp add: assms(1) [symmetric])
  ultimately show ?thesis by (rule map_inj_on)
qed

text \<open>A projection does not depend on how its events arrive: two logs with the same events, in any order and with any
repetitions, give the same projection, as long as a serial identifies an event.\<close>

theorem annotation_rebuild_converges:
  assumes "set xs = set ys" and "inj_on an_serial (set xs)"
  shows "rebuild_with_options channel_id m t xs options = rebuild_with_options channel_id m t ys options"
proof -
  have eq: "remdups_adj (sort_key an_serial xs) = remdups_adj (sort_key an_serial ys)"
    using assms by (rule remdups_adj_sort_unique)
  have loop: "rebuild_events m t ids (sort_key an_serial xs) st = rebuild_events m t ids (sort_key an_serial ys) st" for ids st
    by (metis eq rebuild_events_remdups_adj)
  have ids: "create_ids_of (sort_key an_serial xs) = create_ids_of (sort_key an_serial ys)"
    by (rule create_ids_of_cong) (simp add: assms(1))
  show ?thesis unfolding rebuild_with_options_def rebuild_sorted_def loop ids ..
qed

section \<open>Sets of clients by name\<close>

definition member_of :: "(string, client_set) btree \<Rightarrow> string \<Rightarrow> string \<Rightarrow> bool" where
  "member_of names n c \<longleftrightarrow> (case bt_get names n of None \<Rightarrow> False | Some cs \<Rightarrow> bt_contains cs c)"

definition names_ok :: "(string, client_set) btree \<Rightarrow> bool" where
  "names_ok names \<longleftrightarrow> bt_wf names \<and> (\<forall>n cs. bt_get names n = Some cs \<longrightarrow> bt_wf cs \<and> cs \<noteq> [])"

lemma names_ok_Nil [simp]: "names_ok []"
  by (simp add: names_ok_def)

lemma member_of_Nil [simp]: "\<not> member_of [] n c"
  by (simp add: member_of_def)

lemma bt_insert_nonempty [simp]: "bt_insert k v m \<noteq> []"
  by (cases m) auto

lemma bt_remove_Nil_iff: "bt_remove k m = [] \<longleftrightarrow> (\<forall>k'. bt_contains m k' \<longrightarrow> k' = k)"
  by (auto simp: bt_remove_def filter_empty_conv bt_contains_def bt_get_None_iff image_iff)

lemma names_ok_add: "names_ok names \<Longrightarrow> names_ok (add_client_to_name n c names)"
  by (auto simp: names_ok_def add_client_to_name_def bt_get_insert split: option.splits if_splits)

lemma member_add: "member_of (add_client_to_name n c names) n' c' \<longleftrightarrow> (n' = n \<and> c' = c) \<or> member_of names n' c'"
  by (auto simp: member_of_def add_client_to_name_def bt_get_insert bt_contains_def split: option.splits if_splits)

lemma names_ok_remove: "names_ok names \<Longrightarrow> names_ok (remove_client_from_name n c names)"
  by (auto simp: names_ok_def remove_client_from_name_def bt_get_insert bt_get_remove Let_def split: option.splits if_splits)

lemma member_remove: "member_of (remove_client_from_name n c names) n' c' \<longleftrightarrow> member_of names n' c' \<and> \<not> (n' = n \<and> c' = c)"
proof (cases "bt_get names n")
  case (Some cs)
  have "bt_contains (bt_remove c cs) c' \<longleftrightarrow> bt_contains cs c' \<and> c' \<noteq> c" by (simp add: bt_contains_def bt_get_remove)
  moreover have "bt_remove c cs = [] \<Longrightarrow> bt_contains cs c' \<Longrightarrow> c' = c" by (simp add: bt_remove_Nil_iff)
  ultimately show ?thesis
    by (auto simp: member_of_def remove_client_from_name_def Some Let_def bt_get_insert bt_get_remove)
qed (auto simp: member_of_def remove_client_from_name_def)

section \<open>What the summarisers compute\<close>

fun engine_applies :: "annotation list \<Rightarrow> summarizer_engine \<Rightarrow> summarizer_engine result" where
  "engine_applies [] engine = Inr engine"
| "engine_applies (event # events) engine =
     (case engine_apply event engine of Inl e \<Rightarrow> Inl e | Inr engine' \<Rightarrow> engine_applies events engine')"

lemma engine_applies_snoc:
  "engine_applies (events @ [event]) engine =
     (case engine_applies events engine of Inl e \<Rightarrow> Inl e | Inr engine' \<Rightarrow> engine_apply event engine')"
  by (induction events arbitrary: engine) (auto split: sum.splits)

text \<open>The name a client holds: that of its last event, when that is a create.\<close>

definition current_name :: "annotation list \<Rightarrow> string \<Rightarrow> string option" where
  "current_name events c =
     (case rev (filter (\<lambda>e. an_client_id e = Some c) events) of
        [] \<Rightarrow> None
      | e # _ \<Rightarrow> if an_action e = AnnCreate then an_name e else None)"

lemma current_name_snoc:
  "current_name (events @ [e]) c =
     (if an_client_id e = Some c then (if an_action e = AnnCreate then an_name e else None) else current_name events c)"
  by (simp add: current_name_def)

lemma required_name_Inr: "required_name e = Inr n \<Longrightarrow> an_name e = Some n"
  by (auto simp: required_name_def validate_required_text_def split: option.splits if_splits)

lemma required_client_id_Inr: "required_client_id e = Inr c \<Longrightarrow> an_client_id e = Some c"
  by (auto simp: required_client_id_def validate_required_text_def split: option.splits if_splits)

definition unique_ok :: "(string \<Rightarrow> string option) \<Rightarrow> (string, client_set) btree \<Rightarrow> (string, string) btree \<Rightarrow> bool" where
  "unique_ok cur names client_names \<longleftrightarrow>
     names_ok names \<and> (\<forall>c. bt_get client_names c = cur c) \<and> (\<forall>n c. member_of names n c \<longleftrightarrow> cur c = Some n)"

lemma unique_apply_ok:
  assumes "unique_ok cur names client_names" and "unique_apply e (names, client_names) = Inr (names', client_names')"
  obtains n c where "an_name e = Some n" "an_client_id e = Some c"
    and "unique_ok (cur(c := if an_action e = AnnCreate then Some n else None)) names' client_names'"
proof -
  from assms(2) obtain n c where nc: "required_name e = Inr n" "required_client_id e = Inr c"
    by (auto simp: unique_apply_def split: sum.splits)
  have ok: "names_ok names" "bt_get client_names c' = cur c'" "member_of names n' c' \<longleftrightarrow> cur c' = Some n'" for n' c'
    using assms(1) by (auto simp: unique_ok_def)
  have "unique_ok (cur(c := if an_action e = AnnCreate then Some n else None)) names' client_names'"
    using assms(2) nc ok
    by (cases "an_action e"; cases "cur c")
      (auto simp: unique_apply_def unique_ok_def Let_def names_ok_add names_ok_remove member_add member_remove
        bt_get_insert bt_get_remove split: if_splits)
  with nc show thesis by (intro that) (auto dest: required_name_Inr required_client_id_Inr)
qed

lemma unique_applies_ok:
  "engine_applies events (new_engine SUnique) = Inr engine \<Longrightarrow>
     \<exists>names client_names. engine = UniqueEngine names client_names \<and> unique_ok (current_name events) names client_names"
proof (induction events arbitrary: engine rule: rev_induct)
  case Nil
  then show ?case by (auto simp: new_engine_def unique_ok_def current_name_def)
next
  case (snoc e events)
  then obtain engine' where e': "engine_applies events (new_engine SUnique) = Inr engine'" "engine_apply e engine' = Inr engine"
    by (auto simp: engine_applies_snoc split: sum.splits)
  with snoc.IH obtain names cn where old: "engine' = UniqueEngine names cn" "unique_ok (current_name events) names cn" by blast
  with e'(2) obtain names' cn' where new: "engine = UniqueEngine names' cn'" "unique_apply e (names, cn) = Inr (names', cn')"
    by (cases "unique_apply e (names, cn)") (auto simp: engine_apply_def)
  from unique_apply_ok [OF old(2) new(2)] obtain n c where nc: "an_name e = Some n" "an_client_id e = Some c"
    "unique_ok ((current_name events)(c := if an_action e = AnnCreate then Some n else None)) names' cn'" by blast
  have cur: "current_name (events @ [e]) = (current_name events)(c := if an_action e = AnnCreate then Some n else None)"
    using nc by (auto simp: current_name_snoc fun_eq_iff)
  have "unique_ok (current_name (events @ [e])) names' cn'" unfolding cur by (rule nc(3))
  with new(1) show ?case by blast
qed

lemma client_set_sorted:
  assumes "bt_wf cs" "\<And>c. bt_contains cs c \<longleftrightarrow> P c"
  shows "bt_keys cs = sorted_list_of_set {c. P c}"
proof -
  have "sorted (bt_keys cs)" "distinct (bt_keys cs)"
    using assms(1) by (auto simp: bt_wf_def bt_keys_def strict_sorted_iff)
  moreover have "set (bt_keys cs) = {c. P c}"
    using assms(2) by (auto simp: bt_keys_def bt_contains_def bt_get_None_iff)
  ultimately show ?thesis by (metis sorted_list_of_set.idem_if_sorted_distinct)
qed

text \<open>
  The events a rebuild applies, read off the events before each of them: a create unless its id was deleted
  before, a delete unless it precedes every create of its id.
\<close>

definition same_id :: "annotation \<Rightarrow> annotation list \<Rightarrow> annotation list" where
  "same_id e events = filter (\<lambda>x. an_id x = an_id e) events"

definition takes_effect :: "annotation_id set \<Rightarrow> annotation list \<Rightarrow> annotation \<Rightarrow> bool" where
  "takes_effect create_ids before e \<longleftrightarrow>
     (case an_action e of
        AnnCreate \<Rightarrow> \<not> list_ex (\<lambda>x. an_action x = AnnDelete) (same_id e before)
      | AnnDelete \<Rightarrow>
          an_id e \<notin> create_ids \<or> (case same_id e before of [] \<Rightarrow> False | x # _ \<Rightarrow> an_action x = AnnCreate))"

fun effective_from :: "annotation_id set \<Rightarrow> annotation list \<Rightarrow> annotation list \<Rightarrow> annotation list" where
  "effective_from create_ids before [] = []"
| "effective_from create_ids before (e # events) =
     (if an_serial e \<in> set (map an_serial before) then effective_from create_ids before events
      else (if takes_effect create_ids before e then [e] else []) @ effective_from create_ids (before @ [e]) events)"

definition effective_events :: "annotation list \<Rightarrow> annotation list" where
  "effective_events events = effective_from (create_ids_of events) [] (sort_key an_serial events)"

definition rebuild_seen :: "annotation_id set \<Rightarrow> annotation list \<Rightarrow> rebuild_state \<Rightarrow> bool" where
  "rebuild_seen create_ids before st \<longleftrightarrow>
     rs_seen_serials st = set (map an_serial before) \<and>
     rs_deleted_create_ids st = {i \<in> create_ids. list_ex (\<lambda>x. an_id x = i \<and> an_action x = AnnDelete) before} \<and>
     rs_seen_create_ids st =
       {i. case filter (\<lambda>x. an_id x = i) before of [] \<Rightarrow> False | x # _ \<Rightarrow> an_action x = AnnCreate}"

lemma rebuild_apply_Inr:
  "rebuild_apply e st = Inr st' \<Longrightarrow>
     engine_apply e (rs_engine st) = Inr (rs_engine st') \<and> rs_seen_serials st' = rs_seen_serials st \<and>
     rs_seen_create_ids st' = rs_seen_create_ids st \<and> rs_deleted_create_ids st' = rs_deleted_create_ids st"
  by (auto simp: rebuild_apply_def split: sum.splits)

lemma first_is_create_snoc:
  "(case filter P (before @ [e]) of [] \<Rightarrow> False | x # _ \<Rightarrow> Q x) \<longleftrightarrow>
     (case filter P before of [] \<Rightarrow> P e \<and> Q e | x # _ \<Rightarrow> Q x)"
  by (auto split: list.splits simp: Cons_eq_append_conv)

lemma no_delete_first_create:
  assumes "\<not> list_ex (\<lambda>x. an_action x = AnnDelete) (same_id e before)"
  shows "case same_id e before of [] \<Rightarrow> True | x # _ \<Rightarrow> an_action x = AnnCreate"
  using assms by (cases "same_id e before") (auto intro: annotation_action.exhaust)

lemma rebuild_event_effect:
  assumes seen: "rebuild_seen ids before st" and ev: "rebuild_event m t ids e st = Inr st'"
    and new: "an_serial e \<notin> set (map an_serial before)" and ids: "an_action e = AnnCreate \<Longrightarrow> an_id e \<in> ids"
  shows "rebuild_seen ids (before @ [e]) st'"
    and "engine_applies (if takes_effect ids before e then [e] else []) (rs_engine st) = Inr (rs_engine st')"
proof -
  have deleted: "an_id e \<in> rs_deleted_create_ids st \<longleftrightarrow> an_id e \<in> ids \<and> list_ex (\<lambda>x. an_action x = AnnDelete) (same_id e before)"
    using seen by (auto simp: rebuild_seen_def same_id_def list_ex_iff)
  have created: "an_id e \<in> rs_seen_create_ids st \<longleftrightarrow> (case same_id e before of [] \<Rightarrow> False | x # _ \<Rightarrow> an_action x = AnnCreate)"
    using seen by (simp add: rebuild_seen_def same_id_def)
  have fresh: "an_serial e \<notin> rs_seen_serials st" using seen new by (simp add: rebuild_seen_def)
  show "engine_applies (if takes_effect ids before e then [e] else []) (rs_engine st) = Inr (rs_engine st')"
    using ev fresh ids deleted created
    by (cases "an_action e")
      (auto simp: rebuild_event_def takes_effect_def Let_def dest: rebuild_apply_Inr split: sum.splits if_splits)
  have sets: "rs_seen_serials st' = insert (an_serial e) (rs_seen_serials st)"
    "rs_deleted_create_ids st' =
       (if an_action e = AnnDelete \<and> an_id e \<in> ids then insert (an_id e) (rs_deleted_create_ids st) else rs_deleted_create_ids st)"
    "rs_seen_create_ids st' =
       (if an_action e = AnnCreate \<and> an_id e \<notin> rs_deleted_create_ids st then insert (an_id e) (rs_seen_create_ids st)
        else rs_seen_create_ids st)"
    using ev fresh
    by (cases "an_action e"; auto simp: rebuild_event_def Let_def dest: rebuild_apply_Inr split: sum.splits if_splits)+
  have "rs_seen_create_ids st' =
      {i. case filter (\<lambda>x. an_id x = i) (before @ [e]) of [] \<Rightarrow> False | x # _ \<Rightarrow> an_action x = AnnCreate}" (is "_ = ?firsts")
  proof (rule set_eqI)
    fix i
    show "i \<in> rs_seen_create_ids st' \<longleftrightarrow> i \<in> ?firsts"
    proof (cases "i = an_id e")
      case True
      then show ?thesis
        using created deleted ids no_delete_first_create [of e before]
        unfolding sets(3) mem_Collect_eq first_is_create_snoc same_id_def
        by (cases "filter (\<lambda>x. an_id x = an_id e) before") auto
    next
      case False
      then show ?thesis
        using seen unfolding sets(3) mem_Collect_eq first_is_create_snoc
        by (simp add: rebuild_seen_def split: list.split)
    qed
  qed
  then show "rebuild_seen ids (before @ [e]) st'"
    using seen sets(1,2) by (auto simp: rebuild_seen_def)
qed

lemma engine_applies_append:
  "engine_applies (xs @ ys) engine = (case engine_applies xs engine of Inl e \<Rightarrow> Inl e | Inr engine' \<Rightarrow> engine_applies ys engine')"
  by (induction xs arbitrary: engine) (auto split: sum.splits)

lemma rebuild_events_effective:
  assumes "rebuild_events m t ids events st = Inr st'" "rebuild_seen ids before st"
    and "\<And>e. e \<in> set events \<Longrightarrow> an_action e = AnnCreate \<Longrightarrow> an_id e \<in> ids"
  shows "engine_applies (effective_from ids before events) (rs_engine st) = Inr (rs_engine st')"
  using assms
proof (induction events arbitrary: before st)
  case (Cons e events)
  from Cons.prems(1) obtain st1 where st1: "rebuild_event m t ids e st = Inr st1" "rebuild_events m t ids events st1 = Inr st'"
    by (auto split: sum.splits)
  show ?case
  proof (cases "an_serial e \<in> set (map an_serial before)")
    case True
    then have "st1 = st" using st1(1) Cons.prems(2) by (auto simp: rebuild_event_def rebuild_seen_def split: sum.splits)
    with True st1(2) Cons show ?thesis by simp
  next
    case False
    have eff: "rebuild_seen ids (before @ [e]) st1"
      "engine_applies (if takes_effect ids before e then [e] else []) (rs_engine st) = Inr (rs_engine st1)"
      using rebuild_event_effect [OF Cons.prems(2) st1(1) False] Cons.prems(3) by auto
    have "engine_applies (effective_from ids (before @ [e]) events) (rs_engine st1) = Inr (rs_engine st')"
      using Cons.IH [OF st1(2) eff(1)] Cons.prems(3) by simp
    then show ?thesis
      using False eff(2) by (simp only: effective_from.simps if_False engine_applies_append sum.case)
  qed
qed simp

lemma rebuild_with_options_effective:
  assumes "rebuild_with_options channel m t events options = Inr p" "annotation_type_summarizer t = Inr s"
  obtains engine where "engine_applies (effective_events events) (new_engine s) = Inr engine"
    and "apj_summary p = engine_finish options engine"
proof -
  have ids: "create_ids_of (sort_key an_serial events) = create_ids_of events" by (rule create_ids_of_cong) simp
  from assms obtain st where st: "rebuild_events m t (create_ids_of events) (sort_key an_serial events) (rebuild_start s) = Inr st"
    "apj_summary p = engine_finish options (rs_engine st)"
    by (auto simp: rebuild_with_options_def rebuild_sorted_def ids split: sum.splits)
  have "rebuild_seen (create_ids_of events) [] (rebuild_start s)" by (simp add: rebuild_seen_def rebuild_start_def)
  then have "engine_applies (effective_events events) (new_engine s) = Inr (rs_engine st)"
    using rebuild_events_effective [OF st(1)] unfolding effective_events_def
    by (simp add: create_ids_of_def rebuild_start_def)
  then show thesis using st(2) by (rule that)
qed

lemma unique_engine_summary:
  assumes "engine_applies events (new_engine SUnique) = Inr engine"
  shows "\<exists>names. engine_finish None engine = SumUnique names \<and>
     (\<forall>n. bt_get names n =
        (let clients = sorted_list_of_set {c. current_name events c = Some n} in
         if clients = [] then None
         else Some \<lparr>ids_total = len64 clients, ids_client_ids = clients, ids_clipped = False\<rparr>))"
proof -
  obtain names cn where e: "engine = UniqueEngine names cn" "unique_ok (current_name events) names cn"
    using unique_applies_ok [OF assms] by blast
  have get: "bt_get (map (\<lambda>(name, clients). (name, identified_summary_of clients None)) names) n =
      map_option (\<lambda>clients. identified_summary_of clients None) (bt_get names n)" for n
    by (induction names) (auto simp: bt_get_def)
  have "map_option (\<lambda>clients. identified_summary_of clients None) (bt_get names n) =
      (let clients = sorted_list_of_set {c. current_name events c = Some n} in
       if clients = [] then None else Some \<lparr>ids_total = len64 clients, ids_client_ids = clients, ids_clipped = False\<rparr>)" for n
  proof (cases "bt_get names n")
    case None
    have "member_of names n c \<longleftrightarrow> current_name events c = Some n" for c
      using e(2) by (simp add: unique_ok_def)
    with None have "{c. current_name events c = Some n} = {}" by (simp add: member_of_def)
    with None show ?thesis by (simp add: Let_def)
  next
    case (Some cs)
    have member: "bt_contains cs c \<longleftrightarrow> current_name events c = Some n" for c
      using e(2) Some unfolding unique_ok_def member_of_def by (metis option.simps(5))
    have cs: "bt_wf cs" "cs \<noteq> []" using e(2) Some by (auto simp: unique_ok_def names_ok_def)
    have keys: "bt_keys cs = sorted_list_of_set {c. current_name events c = Some n}"
      by (rule client_set_sorted [OF cs(1) member])
    have "len64 cs = len64 (bt_keys cs)" by (simp add: len64_def bt_keys_def)
    moreover have "bt_keys cs \<noteq> []" using cs(2) by (simp add: bt_keys_def)
    ultimately show ?thesis by (simp add: Some identified_summary_of_def keys Let_def)
  qed
  then show ?thesis by (simp add: e(1) engine_finish_def get)
qed

text \<open>C20: The unique summariser refines its specification: the projection rebuilt from any events lists under each name
exactly the clients whose last effective event is a create with that name, sorted, with their number, and has no entry for
a name without clients; so a client counts for one name at most.\<close>

theorem annotation_unique_summary:
  assumes "annotation_type_summarizer t = Inr SUnique" and "projection_rebuild channel m t events = Inr p"
  shows "\<exists>names. apj_summary p = SumUnique names \<and>
     (\<forall>n. bt_get names n =
        (let clients = sorted_list_of_set {c. current_name (effective_events events) c = Some n} in
         if clients = [] then None
         else Some \<lparr>ids_total = len64 clients, ids_client_ids = clients, ids_clipped = False\<rparr>))"
proof -
  obtain engine where engine: "engine_applies (effective_events events) (new_engine SUnique) = Inr engine"
    "apj_summary p = engine_finish None engine"
    using rebuild_with_options_effective [OF assms(2) [unfolded projection_rebuild_def] assms(1)] .
  then show ?thesis using unique_engine_summary [OF engine(1)] by simp
qed

text \<open>A parsed type: the namespace, the summariser and the version are read back.\<close>

lemma split_once_append: "d \<notin> set a \<Longrightarrow> split_once d (a @ d # b) = Some (a, b)"
  by (induction a) auto

lemma parse_summarizer_as_str [simp]: "parse_summarizer (annotation_summarizer_as_str s) = Some s"
  by (cases s) (simp_all add: parse_summarizer_def annotation_summarizer_as_str_def)

lemma rsplit_once_v1: "rsplit_once ''.v'' (annotation_summarizer_as_str s @ ''.v1'') = Some (annotation_summarizer_as_str s, ''1'')"
  by (cases s) (simp_all add: annotation_summarizer_as_str_def)


section \<open>Concrete events\<close>

definition sample_annotation ::
    "annotation_action \<Rightarrow> string \<Rightarrow> string \<Rightarrow> string \<Rightarrow> string \<Rightarrow> string \<Rightarrow> annotation" where
  "sample_annotation action serial i t name client =
     \<lparr>an_id = i, an_action = action, an_serial = serial, an_message_serial = ''m'', an_type = t,
      an_name = Some name, an_client_id = Some client, an_count = None, an_data = None, an_encoding = None,
      an_timestamp = 0\<rparr>"

text \<open>Alice picks red and then blue, Bob picks red; Carol's pick is deleted.\<close>

definition sample_votes :: "annotation list" where
  "sample_votes =
     [sample_annotation AnnCreate ''1'' ''a'' ''v:unique.v1'' ''red'' ''alice'',
      sample_annotation AnnCreate ''2'' ''b'' ''v:unique.v1'' ''red'' ''bob'',
      sample_annotation AnnCreate ''3'' ''c'' ''v:unique.v1'' ''red'' ''carol'',
      sample_annotation AnnCreate ''4'' ''d'' ''v:unique.v1'' ''blue'' ''alice'',
      sample_annotation AnnDelete ''5'' ''c'' ''v:unique.v1'' ''red'' ''carol'']"

lemma sample_votes_rebuild:
  "projection_rebuild ''c'' ''m'' ''v:unique.v1'' sample_votes =
     Inr \<lparr>apj_channel_id = ''c'', apj_message_serial = ''m'', apj_type = ''v:unique.v1'',
          apj_summary = SumUnique
            [(''blue'', \<lparr>ids_total = 1, ids_client_ids = [''alice''], ids_clipped = False\<rparr>),
             (''red'', \<lparr>ids_total = 1, ids_client_ids = [''bob''], ids_clipped = False\<rparr>)],
          apj_last_serial = Some ''5'', apj_applied_events = 5\<rparr>"
  by code_simp

lemma annotation_rebuild_converges_witness:
  "set (rev sample_votes @ sample_votes) = set sample_votes \<and> inj_on an_serial (set sample_votes) \<and>
   rebuild_with_options ''c'' ''m'' ''v:unique.v1'' (rev sample_votes @ sample_votes) None =
     rebuild_with_options ''c'' ''m'' ''v:unique.v1'' sample_votes None"
proof -
  have "inj_on an_serial (set sample_votes)" by (simp add: sample_votes_def sample_annotation_def)
  moreover have "set (rev sample_votes @ sample_votes) = set sample_votes" by simp
  ultimately show ?thesis
    using annotation_rebuild_converges [of "rev sample_votes @ sample_votes" sample_votes "''c''" "''m''" "''v:unique.v1''" None]
    by simp
qed

lemma unique_entry_singleton:
  assumes "(let clients = sorted_list_of_set A in
     if clients = [] then None else Some \<lparr>ids_total = len64 clients, ids_client_ids = clients, ids_clipped = False\<rparr>) =
     Some \<lparr>ids_total = n, ids_client_ids = [x], ids_clipped = False\<rparr>"
  shows "A = {x}"
proof -
  have sl: "sorted_list_of_set A = [x]" using assms by (auto simp: Let_def split: if_splits)
  then have "finite A" using sorted_list_of_set.fold_insort_key.infinite by fastforce
  with sl show ?thesis using set_sorted_list_of_set by fastforce
qed

lemma annotation_unique_summary_witness:
  "annotation_type_summarizer ''v:unique.v1'' = Inr SUnique \<and>
   {c. current_name (effective_events sample_votes) c = Some ''red''} = {''bob''}"
proof -
  have t: "annotation_type_summarizer ''v:unique.v1'' = Inr SUnique" by code_simp
  obtain p where p: "projection_rebuild ''c'' ''m'' ''v:unique.v1'' sample_votes = Inr p"
    "apj_summary p = SumUnique
       [(''blue'', \<lparr>ids_total = 1, ids_client_ids = [''alice''], ids_clipped = False\<rparr>),
        (''red'', \<lparr>ids_total = 1, ids_client_ids = [''bob''], ids_clipped = False\<rparr>)]" (is "_ = SumUnique ?names")
    by (rule that [OF sample_votes_rebuild]) simp
  obtain names where n: "apj_summary p = SumUnique names" and spec: "\<forall>n. bt_get names n =
        (let clients = sorted_list_of_set {c. current_name (effective_events sample_votes) c = Some n} in
         if clients = [] then None
         else Some \<lparr>ids_total = len64 clients, ids_client_ids = clients, ids_clipped = False\<rparr>)"
    using annotation_unique_summary [OF t p(1)] by blast
  have "names = ?names" using p(2) n by simp
  moreover have "bt_get ?names ''red'' = Some \<lparr>ids_total = 1, ids_client_ids = [''bob''], ids_clipped = False\<rparr>"
    by code_simp
  ultimately have get: "bt_get names ''red'' = Some \<lparr>ids_total = 1, ids_client_ids = [''bob''], ids_clipped = False\<rparr>"
    by simp
  have "{c. current_name (effective_events sample_votes) c = Some ''red''} = {''bob''}"
    by (rule unique_entry_singleton [OF trans [OF spec [rule_format, symmetric] get]])
  with t show ?thesis by simp
qed


end
