(* ===== verification/Annotation_Store.thy ===== *)
theory Annotation_Store
  imports Annotations
begin

text \<open>
  The in-memory annotation store (\<^verbatim>\<open>sockudo-core/src/annotations/memory.rs\<close>) and its requests
  (\<^verbatim>\<open>annotations/types.rs\<close>). The state is behind a lock that an append releases between inserting the
  event and rebuilding the projection, and a rebuild releases between reading the events and storing the
  projection, so those are the atomic actions; the operations compose them. \<^verbatim>\<open>now_ms\<close> is an argument.
\<close>

section \<open>Events and requests\<close>

record stored_annotation_event =
  sae_app_id :: string
  sae_channel_id :: string
  sae_annotation :: annotation
  sae_stored_at_ms :: i64

abbreviation sae_message_serial :: "stored_annotation_event \<Rightarrow> message_serial" where
  "sae_message_serial r \<equiv> an_message_serial (sae_annotation r)"

abbreviation sae_annotation_serial :: "stored_annotation_event \<Rightarrow> annotation_serial" where
  "sae_annotation_serial r \<equiv> an_serial (sae_annotation r)"

abbreviation sae_annotation_type :: "stored_annotation_event \<Rightarrow> annotation_type" where
  "sae_annotation_type r \<equiv> an_type (sae_annotation r)"

definition validate_annotation_scope :: "string \<Rightarrow> string \<Rightarrow> unit result" where
  "validate_annotation_scope app_id channel_id =
     (case validate_required_text ''annotation app_id'' (Some app_id) of
        Inl e \<Rightarrow> Inl e
      | Inr _ \<Rightarrow> validate_required_text ''annotation channel_id'' (Some channel_id))"

definition stored_event_validate :: "stored_annotation_event \<Rightarrow> unit result" where
  "stored_event_validate r =
     (case validate_annotation_scope (sae_app_id r) (sae_channel_id r) of
        Inl e \<Rightarrow> Inl e
      | Inr _ \<Rightarrow> annotation_validate (sae_annotation r))"

record annotation_projection_request =
  apr_app_id :: string
  apr_channel_id :: string
  apr_message_serial :: message_serial
  apr_type :: annotation_type

definition projection_request_validate :: "annotation_projection_request \<Rightarrow> unit result" where
  "projection_request_validate q =
     (case validate_annotation_scope (apr_app_id q) (apr_channel_id q) of
        Inl e \<Rightarrow> Inl e
      | Inr _ \<Rightarrow> (case annotation_type_summarizer (apr_type q) of Inl e \<Rightarrow> Inl e | Inr _ \<Rightarrow> Inr ()))"

record raw_replay_request =
  rrr_app_id :: string
  rrr_channel_id :: string
  rrr_message_serial :: "message_serial option"
  rrr_after_annotation_serial :: "annotation_serial option"
  rrr_limit :: usize

definition raw_replay_validate :: "raw_replay_request \<Rightarrow> unit result" where
  "raw_replay_validate q =
     (case validate_annotation_scope (rrr_app_id q) (rrr_channel_id q) of
        Inl e \<Rightarrow> Inl e
      | Inr _ \<Rightarrow>
          if rrr_limit q = 0 then Inl (InvalidMessageFormat ''annotation replay limit must be greater than 0'')
          else Inr ())"

record annotation_lookup_request =
  alr_app_id :: string
  alr_channel_id :: string
  alr_annotation_serial :: annotation_serial

record stored_projection =
  spj_app_id :: string
  spj_channel_id :: string
  spj_message_serial :: message_serial
  spj_type :: annotation_type
  spj_summary :: annotation_summary
  spj_last_annotation_serial :: "annotation_serial option"
  spj_updated_at_ms :: i64

definition stored_from_projection :: "i64 \<Rightarrow> string \<Rightarrow> annotation_projection \<Rightarrow> stored_projection" where
  "stored_from_projection now app_id p =
     \<lparr>spj_app_id = app_id, spj_channel_id = apj_channel_id p, spj_message_serial = apj_message_serial p,
      spj_type = apj_type p, spj_summary = apj_summary p, spj_last_annotation_serial = apj_last_serial p,
      spj_updated_at_ms = now\<rparr>"

definition stored_projection_key :: "stored_projection \<Rightarrow> annotation_projection_request" where
  "stored_projection_key p =
     \<lparr>apr_app_id = spj_app_id p, apr_channel_id = spj_channel_id p, apr_message_serial = spj_message_serial p,
      apr_type = spj_type p\<rparr>"

record annotation_append_outcome =
  aao_projection :: stored_projection
  aao_canonical_serial :: annotation_serial
  aao_inserted :: bool

section \<open>State\<close>

type_synonym event_log = "(annotation_serial, stored_annotation_event) btree"

record memory_annotation_state =
  mas_events_by_projection :: "(string, event_log) btree"
  mas_raw_by_channel :: "(string, event_log) btree"
  mas_projections :: "(string, stored_projection) btree"

definition memory_annotation_default :: memory_annotation_state where
  "memory_annotation_default = \<lparr>mas_events_by_projection = [], mas_raw_by_channel = [], mas_projections = []\<rparr>"

definition annotation_channel_key :: "string \<Rightarrow> string \<Rightarrow> string" where
  "annotation_channel_key app_id channel_id = app_id @ CHR 0x00 # channel_id"

definition projection_key :: "string \<Rightarrow> string \<Rightarrow> message_serial \<Rightarrow> annotation_type \<Rightarrow> string" where
  "projection_key app_id channel_id message_serial annotation_type =
     annotation_channel_key app_id channel_id @ CHR 0x00 # message_serial @ CHR 0x00 # annotation_type"

definition request_projection_key :: "annotation_projection_request \<Rightarrow> string" where
  "request_projection_key q = projection_key (apr_app_id q) (apr_channel_id q) (apr_message_serial q) (apr_type q)"

definition event_projection_key :: "stored_annotation_event \<Rightarrow> string" where
  "event_projection_key r =
     projection_key (sae_app_id r) (sae_channel_id r) (sae_message_serial r) (sae_annotation_type r)"

definition event_request :: "stored_annotation_event \<Rightarrow> annotation_projection_request" where
  "event_request r =
     \<lparr>apr_app_id = sae_app_id r, apr_channel_id = sae_channel_id r, apr_message_serial = sae_message_serial r,
      apr_type = sae_annotation_type r\<rparr>"

definition log_of :: "(string, event_log) btree \<Rightarrow> string \<Rightarrow> event_log" where
  "log_of m key = (case bt_get m key of None \<Rightarrow> [] | Some events \<Rightarrow> events)"

definition last_key :: "('k \<times> 'v) list \<Rightarrow> 'k option" where
  "last_key m = (if m = [] then None else Some (fst (last m)))"

definition projection_max_serial :: "memory_annotation_state \<Rightarrow> string \<Rightarrow> annotation_serial option" where
  "projection_max_serial st key =
     (case bt_get (mas_events_by_projection st) key of None \<Rightarrow> None | Some events \<Rightarrow> last_key events)"

definition projection_events :: "memory_annotation_state \<Rightarrow> string \<Rightarrow> stored_annotation_event list" where
  "projection_events st key =
     (case bt_get (mas_events_by_projection st) key of None \<Rightarrow> [] | Some events \<Rightarrow> bt_values events)"

definition build_projection ::
    "i64 \<Rightarrow> annotation_projection_request \<Rightarrow> stored_annotation_event list \<Rightarrow> projection_options \<Rightarrow> stored_projection result" where
  "build_projection now q events options =
     (case rebuild_with_options (apr_channel_id q) (apr_message_serial q) (apr_type q) (map sae_annotation events) options of
        Inl e \<Rightarrow> Inl e
      | Inr p \<Rightarrow> Inr (stored_from_projection now (apr_app_id q) p))"

definition put_projection :: "string \<Rightarrow> stored_projection \<Rightarrow> memory_annotation_state \<Rightarrow> memory_annotation_state" where
  "put_projection key p st = st\<lparr>mas_projections := bt_insert key p (mas_projections st)\<rparr>"

definition rebuild_projection_from_state ::
    "i64 \<Rightarrow> annotation_projection_request \<Rightarrow> projection_options \<Rightarrow> memory_annotation_state \<Rightarrow>
     memory_annotation_state \<times> stored_projection result" where
  "rebuild_projection_from_state now q options st =
     (let key = request_projection_key q in
      case build_projection now q (projection_events st key) options of
        Inl e \<Rightarrow> (st, Inl e)
      | Inr stored \<Rightarrow> (put_projection key stored st, Inr stored))"

section \<open>The optimistic rebuild\<close>

text \<open>
  One round of the loop: the events and their greatest serial are read under the read lock; the projection
  is built; under the write lock it is stored if the greatest serial is still the same.
\<close>

definition optimistic_read ::
    "annotation_projection_request \<Rightarrow> memory_annotation_state \<Rightarrow> stored_annotation_event list \<times> annotation_serial option" where
  "optimistic_read q st = (projection_events st (request_projection_key q), projection_max_serial st (request_projection_key q))"

definition optimistic_store ::
    "annotation_projection_request \<Rightarrow> annotation_serial option \<Rightarrow> stored_projection \<Rightarrow> memory_annotation_state \<Rightarrow>
     memory_annotation_state option" where
  "optimistic_store q expected_last_serial p st =
     (if projection_max_serial st (request_projection_key q) = expected_last_serial
      then Some (put_projection (request_projection_key q) p st) else None)"

fun rebuild_rounds ::
    "nat \<Rightarrow> i64 \<Rightarrow> annotation_projection_request \<Rightarrow> projection_options \<Rightarrow> memory_annotation_state \<Rightarrow>
     (memory_annotation_state \<times> stored_projection result) option" where
  "rebuild_rounds 0 now q options st = None"
| "rebuild_rounds (Suc fuel) now q options st =
     (case optimistic_read q st of
        (events, expected_last_serial) \<Rightarrow>
          (case build_projection now q events options of
             Inl e \<Rightarrow> Some (st, Inl e)
           | Inr p \<Rightarrow>
               (case optimistic_store q expected_last_serial p st of
                  Some st' \<Rightarrow> Some (st', Inr p)
                | None \<Rightarrow> rebuild_rounds fuel now q options st)))"

definition rebuild_projection_optimistic ::
    "nat \<Rightarrow> i64 \<Rightarrow> annotation_projection_request \<Rightarrow> projection_options \<Rightarrow> memory_annotation_state \<Rightarrow>
     (memory_annotation_state \<times> stored_projection result) option" where
  "rebuild_projection_optimistic fuel now q options st =
     (case projection_request_validate q of
        Inl e \<Rightarrow> Some (st, Inl e)
      | Inr _ \<Rightarrow> rebuild_rounds fuel now q options st)"

section \<open>Operations\<close>

definition stamp_event :: "i64 \<Rightarrow> stored_annotation_event \<Rightarrow> stored_annotation_event" where
  "stamp_event now r = (if sae_stored_at_ms r = 0 then r\<lparr>sae_stored_at_ms := now\<rparr> else r)"

definition or_insert :: "'k::linorder \<Rightarrow> 'v \<Rightarrow> ('k, 'v) btree \<Rightarrow> ('k, 'v) btree" where
  "or_insert k v m = (if bt_contains m k then m else bt_insert k v m)"

text \<open>The first critical section of \<^verbatim>\<open>append_event\<close>.\<close>

definition insert_event :: "stored_annotation_event \<Rightarrow> memory_annotation_state \<Rightarrow> memory_annotation_state" where
  "insert_event r st =
     (let pkey = event_projection_key r; ckey = annotation_channel_key (sae_app_id r) (sae_channel_id r) in
      st\<lparr>mas_events_by_projection :=
           bt_insert pkey (or_insert (sae_annotation_serial r) r (log_of (mas_events_by_projection st) pkey))
             (mas_events_by_projection st),
         mas_raw_by_channel :=
           bt_insert ckey (or_insert (sae_annotation_serial r) r (log_of (mas_raw_by_channel st) ckey))
             (mas_raw_by_channel st)\<rparr>)"

definition append_event ::
    "nat \<Rightarrow> i64 \<Rightarrow> stored_annotation_event \<Rightarrow> memory_annotation_state \<Rightarrow>
     (memory_annotation_state \<times> stored_projection result) option" where
  "append_event fuel now record0 st =
     (case stored_event_validate record0 of
        Inl e \<Rightarrow> Some (st, Inl e)
      | Inr _ \<Rightarrow>
          (let r = stamp_event now record0 in
           rebuild_projection_optimistic fuel now (event_request r) None (insert_event r st)))"

definition is_create_of :: "annotation_id \<Rightarrow> stored_annotation_event \<Rightarrow> bool" where
  "is_create_of i event \<longleftrightarrow> an_action (sae_annotation event) = AnnCreate \<and> an_id (sae_annotation event) = i"

definition same_payload :: "annotation \<Rightarrow> annotation \<Rightarrow> bool" where
  "same_payload a b \<longleftrightarrow>
     an_name a = an_name b \<and> an_client_id a = an_client_id b \<and> an_count a = an_count b \<and> an_data a = an_data b \<and>
     an_encoding a = an_encoding b"

text \<open>
  The critical section of \<^verbatim>\<open>append_create_idempotent\<close>: the serial of the create that is already there, or
  nothing after inserting the new one.
\<close>

definition insert_create ::
    "stored_annotation_event \<Rightarrow> memory_annotation_state \<Rightarrow> memory_annotation_state \<times> annotation_serial option result" where
  "insert_create r st =
     (let pkey = event_projection_key r; ckey = annotation_channel_key (sae_app_id r) (sae_channel_id r) in
      case (case bt_get (mas_events_by_projection st) pkey of
              None \<Rightarrow> None | Some events \<Rightarrow> find (is_create_of (an_id (sae_annotation r))) (bt_values events)) of
        Some existing \<Rightarrow>
          if \<not> same_payload (sae_annotation existing) (sae_annotation r)
          then (st, Inl (InvalidMessageFormat (''Annotation id '' @ [CHR 0x27] @ an_id (sae_annotation r) @
                 [CHR 0x27] @ '' was already used with a different payload'')))
          else (st, Inr (Some (sae_annotation_serial existing)))
      | None \<Rightarrow>
          (st\<lparr>mas_events_by_projection :=
                bt_insert pkey (bt_insert (sae_annotation_serial r) r (log_of (mas_events_by_projection st) pkey))
                  (mas_events_by_projection st),
              mas_raw_by_channel :=
                bt_insert ckey (bt_insert (sae_annotation_serial r) r (log_of (mas_raw_by_channel st) ckey))
                  (mas_raw_by_channel st)\<rparr>, Inr None))"

definition append_create_idempotent ::
    "nat \<Rightarrow> i64 \<Rightarrow> stored_annotation_event \<Rightarrow> memory_annotation_state \<Rightarrow>
     (memory_annotation_state \<times> annotation_append_outcome result) option" where
  "append_create_idempotent fuel now record0 st =
     (case stored_event_validate record0 of
        Inl e \<Rightarrow> Some (st, Inl e)
      | Inr _ \<Rightarrow>
          if an_action (sae_annotation record0) \<noteq> AnnCreate
          then map_option
                 (map_prod id (map_sum id (\<lambda>p.
                    \<lparr>aao_projection = p, aao_canonical_serial = sae_annotation_serial record0, aao_inserted = True\<rparr>)))
                 (append_event fuel now record0 st)
          else
            (let r = stamp_event now record0 in
             case insert_create r st of
               (st1, Inl e) \<Rightarrow> Some (st1, Inl e)
             | (st1, Inr canonical_serial) \<Rightarrow>
                 map_option
                   (map_prod id (map_sum id (\<lambda>p.
                      \<lparr>aao_projection = p,
                       aao_canonical_serial = (case canonical_serial of None \<Rightarrow> sae_annotation_serial r | Some s \<Rightarrow> s),
                       aao_inserted = (canonical_serial = None)\<rparr>)))
                   (rebuild_projection_optimistic fuel now (event_request r) None st1)))"

definition get_events ::
    "memory_annotation_state \<Rightarrow> annotation_projection_request \<Rightarrow> stored_annotation_event list result" where
  "get_events st q =
     (case projection_request_validate q of
        Inl e \<Rightarrow> Inl e | Inr _ \<Rightarrow> Inr (projection_events st (request_projection_key q)))"

definition replay_raw :: "memory_annotation_state \<Rightarrow> raw_replay_request \<Rightarrow> stored_annotation_event list result" where
  "replay_raw st q =
     (case raw_replay_validate q of
        Inl e \<Rightarrow> Inl e
      | Inr _ \<Rightarrow>
          (case bt_get (mas_raw_by_channel st) (annotation_channel_key (rrr_app_id q) (rrr_channel_id q)) of
             None \<Rightarrow> Inr []
           | Some events \<Rightarrow>
               Inr (take (unat (rrr_limit q))
                 (map snd
                   (filter (\<lambda>(_, r). case rrr_message_serial q of None \<Rightarrow> True | Some m \<Rightarrow> sae_message_serial r = m)
                     (filter (\<lambda>(serial, _). case rrr_after_annotation_serial q of None \<Rightarrow> True | Some a \<Rightarrow> serial > a)
                       events))))))"

definition get_event_by_serial ::
    "memory_annotation_state \<Rightarrow> annotation_lookup_request \<Rightarrow> stored_annotation_event option result" where
  "get_event_by_serial st q =
     (case validate_annotation_scope (alr_app_id q) (alr_channel_id q) of
        Inl e \<Rightarrow> Inl e
      | Inr _ \<Rightarrow>
          Inr (case bt_get (mas_raw_by_channel st) (annotation_channel_key (alr_app_id q) (alr_channel_id q)) of
                 None \<Rightarrow> None | Some events \<Rightarrow> bt_get events (alr_annotation_serial q)))"

definition get_projection ::
    "nat \<Rightarrow> i64 \<Rightarrow> annotation_projection_request \<Rightarrow> memory_annotation_state \<Rightarrow>
     (memory_annotation_state \<times> stored_projection option result) option" where
  "get_projection fuel now q st =
     (case projection_request_validate q of
        Inl e \<Rightarrow> Some (st, Inl e)
      | Inr _ \<Rightarrow>
          (let key = request_projection_key q;
               projection = bt_get (mas_projections st) key;
               max_serial = projection_max_serial st key in
           if (case projection of None \<Rightarrow> False | Some p \<Rightarrow> spj_last_annotation_serial p = max_serial)
           then Some (st, Inr projection)
           else if projection = None \<and> max_serial = None then Some (st, Inr None)
           else map_option (map_prod id (map_sum id Some)) (rebuild_projection_optimistic fuel now q None st)))"

text \<open>The requests of a channel, from the events and from the stored projections, without duplicates.\<close>

definition channel_requests :: "string \<Rightarrow> string \<Rightarrow> memory_annotation_state \<Rightarrow> annotation_projection_request list" where
  "channel_requests app_id channel_id st =
     bt_values
       (fold (\<lambda>p m. if spj_app_id p = app_id \<and> spj_channel_id p = channel_id
                    then bt_insert (request_projection_key (stored_projection_key p)) (stored_projection_key p) m else m)
          (bt_values (mas_projections st))
          (fold (\<lambda>events m.
             case bt_values events of
               [] \<Rightarrow> m
             | r # _ \<Rightarrow>
                 if sae_app_id r = app_id \<and> sae_channel_id r = channel_id
                 then bt_insert (request_projection_key (event_request r)) (event_request r) m else m)
            (bt_values (mas_events_by_projection st)) []))"

definition should_rebuild :: "memory_annotation_state \<Rightarrow> annotation_projection_request \<Rightarrow> bool" where
  "should_rebuild st q =
     (case (bt_get (mas_projections st) (request_projection_key q), projection_max_serial st (request_projection_key q)) of
        (None, Some _) \<Rightarrow> True
      | (Some p, max_serial) \<Rightarrow> spj_last_annotation_serial p \<noteq> max_serial
      | _ \<Rightarrow> False)"

fun list_projections_loop ::
    "nat \<Rightarrow> i64 \<Rightarrow> annotation_projection_request list \<Rightarrow> stored_projection list \<Rightarrow> nat \<Rightarrow> memory_annotation_state \<Rightarrow>
     (memory_annotation_state \<times> (stored_projection list \<times> nat) result) option" where
  "list_projections_loop fuel now [] projections rebuild_count st = Some (st, Inr (projections, rebuild_count))"
| "list_projections_loop fuel now (q # qs) projections rebuild_count st =
     (let rebuild = should_rebuild st q in
      case get_projection fuel now q st of
        None \<Rightarrow> None
      | Some (st', Inl e) \<Rightarrow> Some (st', Inl e)
      | Some (st', Inr None) \<Rightarrow> list_projections_loop fuel now qs projections rebuild_count st'
      | Some (st', Inr (Some p)) \<Rightarrow>
          list_projections_loop fuel now qs (projections @ [p]) (if rebuild then Suc rebuild_count else rebuild_count) st')"

definition list_projections_with_rebuild_count ::
    "nat \<Rightarrow> i64 \<Rightarrow> string \<Rightarrow> string \<Rightarrow> memory_annotation_state \<Rightarrow>
     (memory_annotation_state \<times> (stored_projection list \<times> nat) result) option" where
  "list_projections_with_rebuild_count fuel now app_id channel_id st =
     (case validate_annotation_scope app_id channel_id of
        Inl e \<Rightarrow> Some (st, Inl e)
      | Inr _ \<Rightarrow>
          (case list_projections_loop fuel now (channel_requests app_id channel_id st) [] 0 st of
             None \<Rightarrow> None
           | Some (st', Inl e) \<Rightarrow> Some (st', Inl e)
           | Some (st', Inr (projections, rebuild_count)) \<Rightarrow>
               Some (st', Inr (sort_key spj_message_serial (sort_key spj_type projections), rebuild_count))))"

definition list_projections_for_channel ::
    "nat \<Rightarrow> i64 \<Rightarrow> string \<Rightarrow> string \<Rightarrow> memory_annotation_state \<Rightarrow>
     (memory_annotation_state \<times> stored_projection list result) option" where
  "list_projections_for_channel fuel now app_id channel_id st =
     map_option (map_prod id (map_sum id fst)) (list_projections_with_rebuild_count fuel now app_id channel_id st)"

definition rebuild_projection_with_options ::
    "nat \<Rightarrow> i64 \<Rightarrow> annotation_projection_request \<Rightarrow> projection_options \<Rightarrow> memory_annotation_state \<Rightarrow>
     (memory_annotation_state \<times> stored_projection result) option" where
  "rebuild_projection_with_options fuel now q options st = rebuild_projection_optimistic fuel now q options st"

definition rebuild_projection ::
    "nat \<Rightarrow> i64 \<Rightarrow> annotation_projection_request \<Rightarrow> memory_annotation_state \<Rightarrow>
     (memory_annotation_state \<times> stored_projection result) option" where
  "rebuild_projection fuel now q st = rebuild_projection_optimistic fuel now q None st"

section \<open>Purging\<close>

definition expired_serials :: "i64 \<Rightarrow> nat \<Rightarrow> event_log \<Rightarrow> annotation_serial list" where
  "expired_serials before_ms remaining events =
     take remaining (map fst (filter (\<lambda>(_, r). sae_stored_at_ms r < before_ms) events))"

text \<open>The events that leave one projection, with what is left of it.\<close>

fun remove_serials ::
    "annotation_serial list \<Rightarrow> event_log \<Rightarrow> event_log \<times> stored_annotation_event list" where
  "remove_serials [] events = (events, [])"
| "remove_serials (serial # serials) events =
     (case bt_get events serial of
        None \<Rightarrow> remove_serials serials events
      | Some r \<Rightarrow>
          (case remove_serials serials (bt_remove serial events) of (events', removed) \<Rightarrow> (events', r # removed)))"

text \<open>
  The loop over the projections: the updated map, and the removed events of each affected projection with
  its key, in order; stops at the batch size.
\<close>

fun purge_projections ::
    "i64 \<Rightarrow> nat \<Rightarrow> nat \<Rightarrow> (string, event_log) btree \<Rightarrow>
     (string, event_log) btree \<times> (string \<times> stored_annotation_event list) list \<times> nat \<times> bool" where
  "purge_projections before_ms batch_size deleted [] = ([], [], deleted, False)"
| "purge_projections before_ms batch_size deleted ((key, events) # rest) =
     (let remaining = batch_size - deleted in
      if remaining = 0 then ((key, events) # rest, [], deleted, True)
      else
        (case remove_serials (expired_serials before_ms remaining events) events of
           (events', removed) \<Rightarrow>
             (case purge_projections before_ms batch_size (deleted + length removed) rest of
                (rest', affected, deleted', has_more) \<Rightarrow>
                  ((key, events') # rest', (if removed = [] then affected else (key, removed) # affected), deleted', has_more))))"

definition remove_raw :: "stored_annotation_event \<Rightarrow> (string, event_log) btree \<Rightarrow> (string, event_log) btree" where
  "remove_raw r raw =
     (let ckey = annotation_channel_key (sae_app_id r) (sae_channel_id r) in
      case bt_get raw ckey of
        None \<Rightarrow> raw
      | Some events \<Rightarrow> bt_insert ckey (bt_remove (sae_annotation_serial r) events) raw)"

fun rebuild_affected ::
    "i64 \<Rightarrow> annotation_projection_request list \<Rightarrow> memory_annotation_state \<Rightarrow> memory_annotation_state \<times> unit result" where
  "rebuild_affected now [] st = (st, Inr ())"
| "rebuild_affected now (q # qs) st =
     (case rebuild_projection_from_state now q None st of
        (st', Inl e) \<Rightarrow> (st', Inl e)
      | (st', Inr _) \<Rightarrow> rebuild_affected now qs st')"

definition annotation_purge_before ::
    "i64 \<Rightarrow> i64 \<Rightarrow> nat \<Rightarrow> memory_annotation_state \<Rightarrow> memory_annotation_state \<times> (nat \<times> bool) result" where
  "annotation_purge_before now before_ms batch_size st =
     (if batch_size = 0 then (st, Inr (0, False))
      else
        (case purge_projections before_ms batch_size 0 (mas_events_by_projection st) of
           (by_projection, affected, deleted, has_more) \<Rightarrow>
             (let raw = fold remove_raw (concat (map snd affected)) (mas_raw_by_channel st);
                  st1 = st\<lparr>mas_events_by_projection := bt_retain (\<lambda>events. events \<noteq> []) by_projection,
                           mas_raw_by_channel := bt_retain (\<lambda>events. events \<noteq> []) raw\<rparr>;
                  keys = map fst affected;
                  requests = concat (map (\<lambda>key. case projection_events st1 key of [] \<Rightarrow> [] | r # _ \<Rightarrow> [event_request r]) keys) in
              case rebuild_affected now requests st1 of
                (st2, Inl e) \<Rightarrow> (st2, Inl e)
              | (st2, Inr _) \<Rightarrow>
                  (let st3 = st2\<lparr>mas_projections :=
                         fold (\<lambda>key m. if bt_contains (mas_events_by_projection st2) key then m else bt_remove key m)
                           keys (mas_projections st2)\<rparr>;
                       has_more' = (has_more \<or>
                         list_ex (\<lambda>events. list_ex (\<lambda>r. sae_stored_at_ms r < before_ms) (bt_values events))
                           (bt_values (mas_events_by_projection st3))) in
                   (st3, Inr (deleted, has_more'))))))"

section \<open>Well-formed logs\<close>

definition log_ok :: "(stored_annotation_event \<Rightarrow> bool) \<Rightarrow> event_log \<Rightarrow> bool" where
  "log_ok P events \<longleftrightarrow> bt_wf events \<and> (\<forall>(serial, r) \<in> set events. sae_annotation_serial r = serial \<and> P r)"

lemma log_ok_Nil [simp]: "log_ok P []"
  by (simp add: log_ok_def)

lemma log_ok_insert [simp]: "log_ok P events \<Longrightarrow> P r \<Longrightarrow> log_ok P (bt_insert (sae_annotation_serial r) r events)"
  by (auto simp: log_ok_def bt_set_insert)

lemma log_ok_or_insert [simp]: "log_ok P events \<Longrightarrow> P r \<Longrightarrow> log_ok P (or_insert (sae_annotation_serial r) r events)"
  by (simp add: or_insert_def)

lemma log_ok_filter [simp]: "log_ok P events \<Longrightarrow> log_ok P (filter Q events)"
  by (auto simp: log_ok_def)

lemma log_ok_remove [simp]: "log_ok P events \<Longrightarrow> log_ok P (bt_remove k events)"
  by (simp add: bt_remove_def)

lemma or_insert_nonempty [simp]: "or_insert k v m \<noteq> []"
  by (auto simp: or_insert_def bt_contains_def)

definition logs_ok :: "(string \<Rightarrow> stored_annotation_event \<Rightarrow> bool) \<Rightarrow> (string, event_log) btree \<Rightarrow> bool" where
  "logs_ok P logs \<longleftrightarrow> bt_wf logs \<and> (\<forall>(key, events) \<in> set logs. events \<noteq> [] \<and> log_ok (P key) events)"

lemma logs_ok_get: "logs_ok P logs \<Longrightarrow> bt_get logs key = Some events \<Longrightarrow> events \<noteq> [] \<and> log_ok (P key) events"
  by (auto simp: logs_ok_def dest: bt_get_SomeD)

lemma log_of_ok: "logs_ok P logs \<Longrightarrow> log_ok (P key) (log_of logs key)"
  by (auto simp: log_of_def logs_ok_get split: option.split)

lemma logs_ok_insert: "logs_ok P logs \<Longrightarrow> events \<noteq> [] \<Longrightarrow> log_ok (P key) events \<Longrightarrow> logs_ok P (bt_insert key events logs)"
  by (auto simp: logs_ok_def bt_set_insert)

definition in_projection :: "string \<Rightarrow> stored_annotation_event \<Rightarrow> bool" where
  "in_projection key r \<longleftrightarrow> event_projection_key r = key"

definition in_channel :: "string \<Rightarrow> stored_annotation_event \<Rightarrow> bool" where
  "in_channel key r \<longleftrightarrow> annotation_channel_key (sae_app_id r) (sae_channel_id r) = key"

definition annotation_store_ok :: "memory_annotation_state \<Rightarrow> bool" where
  "annotation_store_ok st \<longleftrightarrow>
     logs_ok in_projection (mas_events_by_projection st) \<and> logs_ok in_channel (mas_raw_by_channel st) \<and>
     bt_wf (mas_projections st)"

lemma store_ok_default: "annotation_store_ok memory_annotation_default"
  by (simp add: annotation_store_ok_def memory_annotation_default_def logs_ok_def)

lemma store_ok_put_projection: "annotation_store_ok st \<Longrightarrow> annotation_store_ok (put_projection key p st)"
  by (simp add: annotation_store_ok_def put_projection_def)

lemma store_ok_insert_event: "annotation_store_ok st \<Longrightarrow> annotation_store_ok (insert_event r st)"
  by (auto simp: annotation_store_ok_def insert_event_def Let_def in_projection_def in_channel_def
      intro!: logs_ok_insert log_ok_or_insert log_of_ok)

lemma store_ok_insert_create: "annotation_store_ok st \<Longrightarrow> annotation_store_ok (fst (insert_create r st))"
  by (auto simp: annotation_store_ok_def insert_create_def Let_def in_projection_def in_channel_def
      intro!: logs_ok_insert log_ok_insert log_of_ok split: option.splits)

lemma store_ok_optimistic: "annotation_store_ok st \<Longrightarrow> optimistic_store q e p st = Some st' \<Longrightarrow> annotation_store_ok st'"
  by (auto simp: optimistic_store_def store_ok_put_projection split: if_splits)

section \<open>What a purge does\<close>

lemma bt_remove_absent: "bt_get m k = None \<Longrightarrow> bt_remove k m = m"
  by (auto simp: bt_remove_def bt_get_None_iff filter_id_conv)

lemma remove_serials_filter: "fst (remove_serials serials events) = filter (\<lambda>p. fst p \<notin> set serials) events"
proof (induction serials arbitrary: events)
  case (Cons serial serials)
  have "filter (\<lambda>p. fst p \<notin> set serials) (bt_remove serial events) = filter (\<lambda>p. fst p \<notin> set (serial # serials)) events"
    by (auto simp: bt_remove_def intro!: filter_cong)
  then show ?case
    using Cons.IH [of events] Cons.IH [of "bt_remove serial events"] bt_remove_absent [of events serial]
    by (auto split: option.split prod.split)
qed simp

definition shrunk :: "(string, event_log) btree \<Rightarrow> (string, event_log) btree \<Rightarrow> bool" where
  "shrunk logs logs' \<longleftrightarrow> list_all2 (\<lambda>(k, events) (k', events'). k' = k \<and> (\<exists>Q. events' = filter Q events)) logs logs'"

lemma shrunk_refl: "shrunk logs logs"
  unfolding shrunk_def by (rule list_all2_refl) (auto intro: exI [of _ "\<lambda>_. True"])

lemma purge_projections_shrunk: "shrunk logs (fst (purge_projections before_ms n d logs))"
proof (induction before_ms n d logs rule: purge_projections.induct)
  case (2 before_ms n d key events rest)
  show ?case
  proof (cases "n - d = 0")
    case False
    obtain events' removed where r: "remove_serials (expired_serials before_ms (n - d) events) events = (events', removed)"
      by fastforce
    have "events' = filter (\<lambda>p. fst p \<notin> set (expired_serials before_ms (n - d) events)) events"
      using remove_serials_filter [of "expired_serials before_ms (n - d) events" events] r by simp
    moreover have "shrunk rest (fst (purge_projections before_ms n (d + length removed) rest))"
      using "2" False r by simp
    ultimately show ?thesis
      using False r by (auto simp: shrunk_def split: prod.split)
  qed (simp add: shrunk_refl)
qed (simp add: shrunk_def)

lemma shrunk_keys: "shrunk logs logs' \<Longrightarrow> map fst logs' = map fst logs"
  unfolding shrunk_def by (induction rule: list_all2_induct) auto

text \<open>Logs that a purge may have emptied.\<close>

definition logs_wf :: "(string \<Rightarrow> stored_annotation_event \<Rightarrow> bool) \<Rightarrow> (string, event_log) btree \<Rightarrow> bool" where
  "logs_wf P logs \<longleftrightarrow> bt_wf logs \<and> (\<forall>(key, events) \<in> set logs. log_ok (P key) events)"

lemma logs_wf_retain: "logs_wf P logs \<Longrightarrow> logs_ok P (bt_retain (\<lambda>events. events \<noteq> []) logs)"
  by (auto simp: logs_ok_def logs_wf_def bt_retain_def)

lemma logs_ok_wf: "logs_ok P logs \<Longrightarrow> logs_wf P logs"
  by (auto simp: logs_ok_def logs_wf_def)

lemma shrunk_entry:
  assumes "shrunk logs logs'" "(k, events') \<in> set logs'"
  shows "\<exists>events Q. (k, events) \<in> set logs \<and> events' = filter Q events"
  using assms unfolding shrunk_def by (induction rule: list_all2_induct) auto

lemma shrunk_wf:
  assumes "shrunk logs logs'" "logs_wf P logs"
  shows "logs_wf P logs'"
  using assms(2) shrunk_keys [OF assms(1)] shrunk_entry [OF assms(1)]
  unfolding logs_wf_def bt_wf_def by (fastforce simp del: not_Cons_self2)

lemma remove_raw_wf: "logs_wf P logs \<Longrightarrow> logs_wf P (remove_raw r logs)"
  by (auto simp: remove_raw_def logs_wf_def Let_def bt_set_insert split: option.split dest!: bt_get_SomeD)

lemma fold_remove_raw_wf: "logs_wf P logs \<Longrightarrow> logs_wf P (fold remove_raw rs logs)"
  by (induction rs arbitrary: logs) (simp_all add: remove_raw_wf)

lemma rebuild_affected_events:
  "rebuild_affected now qs st = (st', r) \<Longrightarrow> annotation_store_ok st \<Longrightarrow>
     annotation_store_ok st' \<and> mas_events_by_projection st' = mas_events_by_projection st \<and>
     mas_raw_by_channel st' = mas_raw_by_channel st"
proof (induction now qs st arbitrary: st' r rule: rebuild_affected.induct)
  case (2 now q qs st)
  obtain st1 r1 where 1: "rebuild_projection_from_state now q None st = (st1, r1)" by fastforce
  have ok: "annotation_store_ok st1 \<and> mas_events_by_projection st1 = mas_events_by_projection st \<and>
      mas_raw_by_channel st1 = mas_raw_by_channel st"
    using 1 2(3) by (auto simp: rebuild_projection_from_state_def Let_def store_ok_put_projection put_projection_def
        annotation_store_ok_def split: sum.splits)
  show ?case
  proof (cases r1)
    case (Inl e)
    with 1 2(2) ok show ?thesis by simp
  next
    case (Inr p)
    with 1 2(2) have "rebuild_affected now qs st1 = (st', r)" by simp
    from 2(1) [OF 1 [symmetric] Inr this] ok show ?thesis by simp
  qed
qed simp

lemma bt_wf_fold_remove: "bt_wf m \<Longrightarrow> bt_wf (fold (\<lambda>key m. if Q key then m else bt_remove key m) keys m)"
  by (induction keys arbitrary: m) simp_all

lemma store_ok_purge: "annotation_store_ok st \<Longrightarrow> annotation_store_ok (fst (annotation_purge_before now before_ms n st))"
proof (cases "n = 0")
  case False
  assume ok: "annotation_store_ok st"
  obtain by_p affected d more where p: "purge_projections before_ms n 0 (mas_events_by_projection st) = (by_p, affected, d, more)"
    using prod_cases4 by blast
  define st1 where "st1 = st\<lparr>mas_events_by_projection := bt_retain (\<lambda>events. events \<noteq> []) by_p,
     mas_raw_by_channel := bt_retain (\<lambda>events. events \<noteq> []) (fold remove_raw (concat (map snd affected)) (mas_raw_by_channel st))\<rparr>"
  define requests where
    "requests = concat (map (\<lambda>key. case projection_events st1 key of [] \<Rightarrow> [] | r # _ \<Rightarrow> [event_request r]) (map fst affected))"
  have sh: "shrunk (mas_events_by_projection st) by_p"
    using purge_projections_shrunk [of "mas_events_by_projection st" before_ms n 0] p by simp
  then have ok1: "annotation_store_ok st1"
    using ok by (simp add: annotation_store_ok_def st1_def logs_wf_retain fold_remove_raw_wf shrunk_wf [OF sh] logs_ok_wf)
  obtain st2 r where 2: "rebuild_affected now requests st1 = (st2, r)" by fastforce
  then have ok2: "annotation_store_ok st2" using rebuild_affected_events ok1 by blast
  have "fst (annotation_purge_before now before_ms n st) =
      (case r of Inl e \<Rightarrow> st2 | Inr _ \<Rightarrow> st2\<lparr>mas_projections :=
         fold (\<lambda>key m. if bt_contains (mas_events_by_projection st2) key then m else bt_remove key m)
           (map fst affected) (mas_projections st2)\<rparr>)"
    using False p 2 unfolding annotation_purge_before_def
    by (simp add: Let_def st1_def [symmetric] requests_def [symmetric] del: map_map split: sum.split)
  with ok2 show ?thesis by (auto simp: annotation_store_ok_def bt_wf_fold_remove split: sum.split)
qed (simp add: annotation_purge_before_def)

section \<open>Interleavings\<close>

text \<open>
  The atomic sections of the operations, of any number of tasks in any order. A task stores a projection it
  built from whatever events it read earlier.
\<close>

inductive annotation_step :: "memory_annotation_state \<Rightarrow> memory_annotation_state \<Rightarrow> bool" where
  step_insert: "stored_event_validate r = Inr () \<Longrightarrow> annotation_step st (insert_event (stamp_event now r) st)"
| step_create: "stored_event_validate r = Inr () \<Longrightarrow> annotation_step st (fst (insert_create (stamp_event now r) st))"
| step_store: "build_projection now q events options = Inr p \<Longrightarrow> optimistic_store q expected p st = Some st' \<Longrightarrow>
    annotation_step st st'"
| step_purge: "annotation_step st (fst (annotation_purge_before now before_ms batch_size st))"

inductive annotation_reachable :: "memory_annotation_state \<Rightarrow> bool" where
  reachable_default: "annotation_reachable memory_annotation_default"
| reachable_step: "annotation_reachable st \<Longrightarrow> annotation_step st st' \<Longrightarrow> annotation_reachable st'"

lemma annotation_step_ok: "annotation_step st st' \<Longrightarrow> annotation_store_ok st \<Longrightarrow> annotation_store_ok st'"
  by (induction rule: annotation_step.induct)
    (simp_all add: store_ok_insert_event store_ok_insert_create store_ok_purge store_ok_optimistic)

lemma annotation_reachable_ok: "annotation_reachable st \<Longrightarrow> annotation_store_ok st"
  by (induction rule: annotation_reachable.induct) (simp_all add: store_ok_default annotation_step_ok)

section \<open>The sequential operations\<close>

lemma rebuild_event_last:
  "rebuild_event m t ids e st = Inr st' \<Longrightarrow> an_serial e \<notin> rs_seen_serials st \<Longrightarrow>
     rs_last_serial st' = Some (an_serial e) \<and> rs_seen_serials st' = insert (an_serial e) (rs_seen_serials st)"
  by (auto simp: rebuild_event_def rebuild_apply_def Let_def split: sum.splits if_splits annotation_action.splits)

lemma rebuild_events_last:
  "rebuild_events m t ids events st = Inr st' \<Longrightarrow> distinct (map an_serial events) \<Longrightarrow>
   set (map an_serial events) \<inter> rs_seen_serials st = {} \<Longrightarrow>
     rs_last_serial st' = (if events = [] then rs_last_serial st else Some (an_serial (last events)))"
proof (induction events arbitrary: st)
  case (Cons e events)
  from Cons.prems(1) obtain st1 where 1: "rebuild_event m t ids e st = Inr st1" "rebuild_events m t ids events st1 = Inr st'"
    by (auto split: sum.splits)
  have 2: "rs_last_serial st1 = Some (an_serial e)" "rs_seen_serials st1 = insert (an_serial e) (rs_seen_serials st)"
    using rebuild_event_last [OF 1(1)] Cons.prems(3) by auto
  have "rs_last_serial st' = (if events = [] then rs_last_serial st1 else Some (an_serial (last events)))"
    by (rule Cons.IH [OF 1(2)]) (use Cons.prems(2,3) 2(2) in auto)
  with 2(1) show ?case by simp
qed simp

lemma log_ok_serials: "log_ok P events \<Longrightarrow> map an_serial (map sae_annotation (bt_values events)) = map fst events"
  by (auto simp: log_ok_def bt_values_def)

lemma build_projection_last:
  assumes ok: "log_ok P events" and p: "build_projection now q (bt_values events) options = Inr p"
  shows "spj_last_annotation_serial p = last_key events"
proof -
  let ?as = "map sae_annotation (bt_values events)"
  have serials: "map an_serial ?as = map fst events" using ok by (rule log_ok_serials)
  moreover have "sorted (map fst events)" "distinct (map fst events)"
    using ok by (auto simp: log_ok_def bt_wf_def strict_sorted_iff)
  ultimately have s: "sort_key an_serial ?as = ?as" "distinct (map an_serial ?as)"
    by (simp_all only: sort_key_id_if_sorted)
  from p obtain ids su st where "rebuild_events (apr_message_serial q) (apr_type q) ids ?as (rebuild_start su) = Inr st"
    "spj_last_annotation_serial p = rs_last_serial st"
    unfolding build_projection_def rebuild_with_options_def s rebuild_sorted_def
    by (auto simp: stored_from_projection_def split: sum.splits)
  with rebuild_events_last [OF this(1) s(2)]
  have "spj_last_annotation_serial p = (if ?as = [] then None else Some (an_serial (last ?as)))"
    by (simp add: rebuild_start_def)
  moreover have "?as \<noteq> [] \<Longrightarrow> an_serial (last ?as) = fst (last events)"
    using arg_cong [OF serials, of last] by (simp add: last_map bt_values_def)
  ultimately show ?thesis by (auto simp: last_key_def bt_values_def)
qed

lemma projection_events_log: "projection_events st key = bt_values (log_of (mas_events_by_projection st) key)"
  by (simp add: projection_events_def log_of_def bt_values_def split: option.split)

lemma projection_max_serial_log: "projection_max_serial st key = last_key (log_of (mas_events_by_projection st) key)"
  by (simp add: projection_max_serial_def log_of_def last_key_def split: option.split)

text \<open>Without interleaving the first round of the optimistic loop stores its projection.\<close>

lemma rebuild_optimistic_sequential:
  "rebuild_projection_optimistic (Suc fuel) now q options st =
     (case projection_request_validate q of
        Inl e \<Rightarrow> Some (st, Inl e)
      | Inr _ \<Rightarrow> Some (rebuild_projection_from_state now q options st))"
  by (simp add: rebuild_projection_optimistic_def optimistic_read_def optimistic_store_def rebuild_projection_from_state_def
      Let_def split: sum.split)

lemma rebuild_from_state_Inr:
  "rebuild_projection_from_state now q options st = (st', Inr p) \<Longrightarrow>
     build_projection now q (projection_events st (request_projection_key q)) options = Inr p \<and>
     st' = put_projection (request_projection_key q) p st"
  by (auto simp: rebuild_projection_from_state_def Let_def split: sum.splits)

lemma put_projection_simps [simp]:
  "mas_events_by_projection (put_projection key p st) = mas_events_by_projection st"
  "mas_raw_by_channel (put_projection key p st) = mas_raw_by_channel st"
  "bt_get (mas_projections (put_projection key p st)) key' = (if key' = key then Some p else bt_get (mas_projections st) key')"
  "projection_events (put_projection key p st) key' = projection_events st key'"
  "projection_max_serial (put_projection key p st) key' = projection_max_serial st key'"
  by (simp_all add: put_projection_def bt_get_insert projection_events_def projection_max_serial_def)

lemma get_projection_stored:
  assumes "annotation_store_ok st" "projection_request_validate q = Inr ()"
    and "rebuild_projection_from_state now q None st = (st', Inr p)"
  shows "get_projection fuel now' q st' = Some (st', Inr (Some p))"
proof -
  let ?key = "request_projection_key q"
  have p: "build_projection now q (projection_events st ?key) None = Inr p" "st' = put_projection ?key p st"
    using rebuild_from_state_Inr [OF assms(3)] by auto
  have "log_ok (in_projection ?key) (log_of (mas_events_by_projection st) ?key)"
    using assms(1) by (simp add: annotation_store_ok_def log_of_ok)
  from build_projection_last [OF this p(1) [unfolded projection_events_log]]
  have "spj_last_annotation_serial p = projection_max_serial st ?key" by (simp add: projection_max_serial_log)
  then show ?thesis by (simp add: get_projection_def assms(2) p(2) Let_def)
qed

lemma event_validate_request: "stored_event_validate r = Inr () \<Longrightarrow> projection_request_validate (event_request r) = Inr ()"
  by (auto simp: stored_event_validate_def projection_request_validate_def event_request_def annotation_validate_def
      split: sum.splits)

lemma stamp_event_simps [simp]:
  "sae_app_id (stamp_event now r) = sae_app_id r" "sae_channel_id (stamp_event now r) = sae_channel_id r"
  "sae_annotation (stamp_event now r) = sae_annotation r" "event_request (stamp_event now r) = event_request r"
  "event_projection_key (stamp_event now r) = event_projection_key r"
  "stored_event_validate (stamp_event now r) = stored_event_validate r"
  by (simp_all add: stamp_event_def event_request_def event_projection_key_def stored_event_validate_def split: sum.split)

lemma request_key_event: "request_projection_key (event_request r) = event_projection_key r"
  by (simp add: request_projection_key_def event_request_def event_projection_key_def)

lemma insert_event_log:
  "log_of (mas_events_by_projection (insert_event r st)) (event_projection_key r) =
     or_insert (sae_annotation_serial r) r (log_of (mas_events_by_projection st) (event_projection_key r))"
  by (simp add: insert_event_def Let_def log_of_def bt_get_insert)

lemma bt_values_insert_member: "bt_wf m \<Longrightarrow> v \<in> set (bt_values (bt_insert k v m))"
  by (force simp: bt_values_def bt_set_insert)

lemma or_insert_member: "bt_wf m \<Longrightarrow> \<not> bt_contains m k \<Longrightarrow> v \<in> set (bt_values (or_insert k v m))"
  by (simp add: or_insert_def bt_values_insert_member)

lemma build_projection_rebuild:
  "build_projection now q events None = Inr p \<Longrightarrow>
     \<exists>pr. projection_rebuild (apr_channel_id q) (apr_message_serial q) (apr_type q) (map sae_annotation events) = Inr pr \<and>
       spj_summary p = apj_summary pr"
  by (auto simp: build_projection_def projection_rebuild_def stored_from_projection_def split: sum.splits)


section \<open>Idempotent creates\<close>

lemma log_of_insert: "log_of (bt_insert k events m) k = events"
  by (simp add: log_of_def bt_get_insert)

lemma find_only:
  assumes "x \<in> set xs" "P x" "\<And>y. y \<in> set xs \<Longrightarrow> P y \<Longrightarrow> y = x"
  shows "find P xs = Some x"
proof -
  obtain y where "find P xs = Some y" using assms(1,2) by (metis find_None_iff option.exhaust)
  then show ?thesis using assms(3) by (metis find_Some_iff nth_mem)
qed

lemma insert_create_found:
  "insert_create r st =
     (case find (is_create_of (an_id (sae_annotation r))) (bt_values (log_of (mas_events_by_projection st) (event_projection_key r))) of
        Some existing \<Rightarrow>
          if same_payload (sae_annotation existing) (sae_annotation r) then (st, Inr (Some (sae_annotation_serial existing)))
          else (st, Inl (InvalidMessageFormat (''Annotation id '' @ [CHR 0x27] @ an_id (sae_annotation r) @
                 [CHR 0x27] @ '' was already used with a different payload'')))
      | None \<Rightarrow>
          (st\<lparr>mas_events_by_projection :=
                bt_insert (event_projection_key r)
                  (bt_insert (sae_annotation_serial r) r (log_of (mas_events_by_projection st) (event_projection_key r)))
                  (mas_events_by_projection st),
              mas_raw_by_channel :=
                (let ckey = annotation_channel_key (sae_app_id r) (sae_channel_id r) in
                 bt_insert ckey (bt_insert (sae_annotation_serial r) r (log_of (mas_raw_by_channel st) ckey))
                  (mas_raw_by_channel st))\<rparr>, Inr None))"
  by (cases "bt_get (mas_events_by_projection st) (event_projection_key r)")
    (simp_all add: insert_create_def Let_def log_of_def bt_values_def split: option.split)

lemma find_inserted:
  assumes "bt_wf m" "find P (bt_values m) = None" "P v"
  shows "find P (bt_values (bt_insert k v m)) = Some v"
proof (rule find_only)
  show "v \<in> set (bt_values (bt_insert k v m))" by (rule bt_values_insert_member [OF assms(1)])
  show "y = v" if "y \<in> set (bt_values (bt_insert k v m))" "P y" for y
    using that assms(1,2) by (auto simp: bt_values_def bt_set_insert find_None_iff)
qed (rule assms(3))

lemma insert_create_existing:
  assumes "annotation_store_ok st" "an_action (sae_annotation r) = AnnCreate" "insert_create r st = (st', Inr canonical)"
  shows "\<exists>c. find (is_create_of (an_id (sae_annotation r)))
       (bt_values (log_of (mas_events_by_projection st') (event_projection_key r))) = Some c \<and>
     same_payload (sae_annotation c) (sae_annotation r) \<and>
     sae_annotation_serial c = (case canonical of None \<Rightarrow> sae_annotation_serial r | Some s \<Rightarrow> s)"
proof (cases "find (is_create_of (an_id (sae_annotation r))) (bt_values (log_of (mas_events_by_projection st) (event_projection_key r)))")
  case None
  have "bt_wf (log_of (mas_events_by_projection st) (event_projection_key r))"
    using assms(1) log_of_ok [of in_projection "mas_events_by_projection st" "event_projection_key r"]
    by (simp add: annotation_store_ok_def log_ok_def)
  from find_inserted [OF this None] have
    "find (is_create_of (an_id (sae_annotation r))) (bt_values (bt_insert (sae_annotation_serial r) r
       (log_of (mas_events_by_projection st) (event_projection_key r)))) = Some r"
    by (simp add: is_create_of_def assms(2))
  moreover have "log_of (mas_events_by_projection st') (event_projection_key r) =
      bt_insert (sae_annotation_serial r) r (log_of (mas_events_by_projection st) (event_projection_key r))"
    "canonical = None"
    using assms(3) unfolding insert_create_found None by (auto simp: log_of_insert)
  ultimately show ?thesis by (simp add: same_payload_def)
next
  case (Some c)
  then have "same_payload (sae_annotation c) (sae_annotation r)" "st' = st" "canonical = Some (sae_annotation_serial c)"
    using assms(3) unfolding insert_create_found Some by (auto split: if_splits)
  with Some show ?thesis by simp
qed

lemma rebuild_optimistic_Some:
  assumes "rebuild_projection_optimistic fuel now q options st = Some (st', Inr p)"
  shows "rebuild_projection_from_state now q options st = (st', Inr p)"
proof (cases fuel)
  case 0
  then show ?thesis using assms by (simp add: rebuild_projection_optimistic_def split: sum.splits)
next
  case (Suc n)
  then show ?thesis using assms by (simp add: rebuild_optimistic_sequential split: sum.splits)
qed

lemma build_projection_now:
  "build_projection now q events options = Inr p \<Longrightarrow>
     build_projection now' q events options = Inr (p\<lparr>spj_updated_at_ms := now'\<rparr>)"
  by (auto simp: build_projection_def stored_from_projection_def split: sum.splits)

lemma same_payload_trans: "same_payload a b \<Longrightarrow> same_payload a c \<longleftrightarrow> same_payload b c"
  by (auto simp: same_payload_def)

lemma map_sum_InrD: "map_sum f g x = Inr y \<Longrightarrow> \<exists>z. x = Inr z \<and> y = g z"
  by (cases x) auto

lemma append_create_Inr:
  assumes "append_create_idempotent fuel now r st = Some (st', Inr out)" "an_action (sae_annotation r) = AnnCreate"
  obtains st1 canonical p where "insert_create (stamp_event now r) st = (st1, Inr canonical)"
    and "rebuild_projection_from_state now (event_request r) None st1 = (st', Inr p)"
    and "out = \<lparr>aao_projection = p,
          aao_canonical_serial = (case canonical of None \<Rightarrow> sae_annotation_serial r | Some s \<Rightarrow> s),
          aao_inserted = (canonical = None)\<rparr>"
proof -
  from assms obtain st1 canonical where 1: "insert_create (stamp_event now r) st = (st1, Inr canonical)"
    by (auto simp: append_create_idempotent_def Let_def split: sum.splits prod.splits)
  with assms obtain p where "rebuild_projection_optimistic fuel now (event_request r) None st1 = Some (st', Inr p)"
    "out = \<lparr>aao_projection = p,
          aao_canonical_serial = (case canonical of None \<Rightarrow> sae_annotation_serial r | Some s \<Rightarrow> s),
          aao_inserted = (canonical = None)\<rparr>"
    by (auto simp: append_create_idempotent_def Let_def map_prod_def split: sum.splits prod.splits dest!: map_sum_InrD cong: option.case_cong)
  with 1 show thesis using that rebuild_optimistic_Some by blast
qed

lemma same_request_key: "event_request r' = event_request r \<Longrightarrow> event_projection_key r' = event_projection_key r"
  by (metis request_key_event)

text \<open>C22: Creates are idempotent by annotation id: once a create has succeeded on a reachable store, a create of the same
id for the same message and type changes no event. With the same payload it answers the serial of the first create, says
that nothing was inserted, and returns the same summary; with another payload it is refused.\<close>

theorem annotation_create_idempotent:
  assumes "annotation_reachable st"
    and first: "append_create_idempotent fuel now r st = Some (st', Inr out)" "an_action (sae_annotation r) = AnnCreate"
    and retry: "stored_event_validate r' = Inr ()" "an_action (sae_annotation r') = AnnCreate"
      "event_request r' = event_request r" "an_id (sae_annotation r') = an_id (sae_annotation r)"
  shows "\<exists>st'' res. append_create_idempotent (Suc fuel') now' r' st' = Some (st'', res) \<and>
     mas_events_by_projection st'' = mas_events_by_projection st' \<and> mas_raw_by_channel st'' = mas_raw_by_channel st' \<and>
     (if same_payload (sae_annotation r) (sae_annotation r')
      then (\<exists>out'. res = Inr out' \<and> aao_canonical_serial out' = aao_canonical_serial out \<and> \<not> aao_inserted out' \<and>
              spj_summary (aao_projection out') = spj_summary (aao_projection out))
      else st'' = st' \<and> (\<exists>e. res = Inl e))"
proof -
  let ?q = "event_request r" and ?key = "event_projection_key r" and ?r' = "stamp_event now' r'"
  obtain st1 canonical p where 1: "insert_create (stamp_event now r) st = (st1, Inr canonical)"
      "rebuild_projection_from_state now ?q None st1 = (st', Inr p)"
    and out: "aao_projection out = p"
      "aao_canonical_serial out = (case canonical of None \<Rightarrow> sae_annotation_serial r | Some s \<Rightarrow> s)"
    using append_create_Inr [OF first] by (metis annotation_append_outcome.select_convs(1,2))
  have built: "build_projection now ?q (projection_events st1 ?key) None = Inr p" and st': "st' = put_projection ?key p st1"
    using rebuild_from_state_Inr [OF 1(2)] by (simp_all add: request_key_event)
  obtain c where c: "find (is_create_of (an_id (sae_annotation r))) (bt_values (log_of (mas_events_by_projection st1) ?key)) = Some c"
      "same_payload (sae_annotation c) (sae_annotation r)" "sae_annotation_serial c = aao_canonical_serial out"
    using insert_create_existing [OF annotation_reachable_ok [OF assms(1)] _ 1(1)] first(2) out(2) by (auto cong: option.case_cong)
  have key: "event_projection_key r' = ?key" by (rule same_request_key [OF retry(3)])
  have found: "find (is_create_of (an_id (sae_annotation ?r'))) (bt_values (log_of (mas_events_by_projection st') (event_projection_key ?r'))) = Some c"
    using c(1) by (simp add: st' key retry(4))
  have again: "rebuild_projection_from_state now' ?q None st' =
      (put_projection ?key (p\<lparr>spj_updated_at_ms := now'\<rparr>) st', Inr (p\<lparr>spj_updated_at_ms := now'\<rparr>))"
    using build_projection_now [OF built, of now']
    by (simp add: rebuild_projection_from_state_def Let_def request_key_event st')
  have valid: "projection_request_validate ?q = Inr ()" using event_validate_request [OF retry(1)] retry(3) by simp
  show ?thesis
  proof (cases "same_payload (sae_annotation r) (sae_annotation r')")
    case True
    have "insert_create ?r' st' = (st', Inr (Some (sae_annotation_serial c)))"
      unfolding insert_create_found found using True same_payload_trans [OF c(2)] by simp
    then show ?thesis
      using True by (simp add: append_create_idempotent_def retry Let_def rebuild_optimistic_sequential valid again c(3) out(1))
  next
    case False
    have "\<exists>e. insert_create ?r' st' = (st', Inl e)"
      unfolding insert_create_found found using False same_payload_trans [OF c(2)] by simp
    then show ?thesis using False by (auto simp: append_create_idempotent_def retry Let_def)
  qed
qed

section \<open>Concrete stores\<close>

definition sample_event :: "annotation \<Rightarrow> i64 \<Rightarrow> stored_annotation_event" where
  "sample_event a stored_at = \<lparr>sae_app_id = ''app'', sae_channel_id = ''c'', sae_annotation = a, sae_stored_at_ms = stored_at\<rparr>"

definition sample_like :: "annotation_action \<Rightarrow> string \<Rightarrow> string \<Rightarrow> i64 \<Rightarrow> stored_annotation_event" where
  "sample_like action serial i stored_at =
     sample_event (sample_annotation action serial i ''like:total.v1'' ''x'' ''alice'') stored_at"

definition sample_request :: annotation_projection_request where
  "sample_request = \<lparr>apr_app_id = ''app'', apr_channel_id = ''c'', apr_message_serial = ''m'', apr_type = ''like:total.v1''\<rparr>"

definition sample_likes_projection :: "u64 \<Rightarrow> string \<Rightarrow> i64 \<Rightarrow> stored_projection" where
  "sample_likes_projection n serial now =
     \<lparr>spj_app_id = ''app'', spj_channel_id = ''c'', spj_message_serial = ''m'', spj_type = ''like:total.v1'',
      spj_summary = SumTotal n, spj_last_annotation_serial = Some serial, spj_updated_at_ms = now\<rparr>"

lemma sample_like_valid: "stored_event_validate (sample_like AnnCreate ''1'' ''a'' 10) = Inr ()"
  by code_simp

lemma sample_request_like: "event_request (sample_like action serial i at) = sample_request"
  by (simp add: event_request_def sample_like_def sample_event_def sample_annotation_def sample_request_def)

lemma sample_append:
  "\<exists>st'. append_event (Suc 0) 50 (sample_like AnnCreate ''1'' ''a'' 10) memory_annotation_default =
     Some (st', Inr (sample_likes_projection 1 ''1'' 50))"
proof -
  have "map_option snd (append_event (Suc 0) 50 (sample_like AnnCreate ''1'' ''a'' 10) memory_annotation_default) =
      Some (Inr (sample_likes_projection 1 ''1'' 50))" by code_simp
  then show ?thesis by auto
qed

lemma sample_not_stored: "\<not> bt_contains (log_of (mas_events_by_projection memory_annotation_default) k) s"
  by (simp add: memory_annotation_default_def log_of_def bt_contains_def)


lemma sample_create:
  "\<exists>st' out. append_create_idempotent (Suc 0) 50 (sample_like AnnCreate ''1'' ''a'' 10) memory_annotation_default =
     Some (st', Inr out) \<and> aao_canonical_serial out = ''1''"
proof -
  have "map_option (\<lambda>(_, res). map_sum id aao_canonical_serial res)
      (append_create_idempotent (Suc 0) 50 (sample_like AnnCreate ''1'' ''a'' 10) memory_annotation_default) = Some (Inr ''1'')"
    by code_simp
  then show ?thesis by (auto dest!: map_sum_InrD)
qed

lemma annotation_create_idempotent_witness:
  "\<exists>st' st'' out'. append_create_idempotent (Suc 0) 60 (sample_like AnnCreate ''2'' ''a'' 20) st' = Some (st'', Inr out') \<and>
     aao_canonical_serial out' = ''1'' \<and> \<not> aao_inserted out' \<and>
     mas_events_by_projection st'' = mas_events_by_projection st'"
proof -
  let ?r = "sample_like AnnCreate ''1'' ''a'' 10" and ?r' = "sample_like AnnCreate ''2'' ''a'' 20"
  obtain st' out where first: "append_create_idempotent (Suc 0) 50 ?r memory_annotation_default = Some (st', Inr out)"
    and serial: "aao_canonical_serial out = ''1''"
    using sample_create by blast
  have create: "an_action (sae_annotation ?r) = AnnCreate" "an_action (sae_annotation ?r') = AnnCreate"
    "an_id (sae_annotation ?r') = an_id (sae_annotation ?r)" "same_payload (sae_annotation ?r) (sae_annotation ?r')"
    by (simp_all add: sample_like_def sample_event_def sample_annotation_def same_payload_def)
  have valid: "stored_event_validate ?r' = Inr ()" by code_simp
  have same: "event_request ?r' = event_request ?r" by (simp add: sample_request_like)
  from annotation_create_idempotent [OF reachable_default first create(1) valid create(2) same create(3), of 0 60]
  show ?thesis unfolding if_P [OF create(4)] serial by auto
qed

section \<open>Where the summaries go wrong\<close>

definition read_summary :: "annotation_projection_request \<Rightarrow> memory_annotation_state \<Rightarrow> annotation_summary option" where
  "read_summary q st =
     (case get_projection (Suc 0) 90 q st of Some (_, Inr (Some p)) \<Rightarrow> Some (spj_summary p) | _ \<Rightarrow> None)"

fun append_each :: "stored_annotation_event list \<Rightarrow> memory_annotation_state \<Rightarrow> memory_annotation_state" where
  "append_each [] st = st"
| "append_each (r # rs) st = (case append_event (Suc 0) 50 r st of Some (st', _) \<Rightarrow> append_each rs st' | None \<Rightarrow> st)"



definition sample_multiple :: "string \<Rightarrow> string \<Rightarrow> string \<Rightarrow> stored_annotation_event" where
  "sample_multiple serial i client =
     sample_event (sample_annotation AnnCreate serial i ''tip:multiple.v1'' ''coin'' client) 10"

text \<open>
  A blank client id is refused by the summariser of multiple annotations but not by the validation before the
  event is stored: the append fails and so does every later append to the projection.
\<close>

lemma annotation_blank_client_poisons:
  "let bad = sample_multiple ''1'' ''a'' ''''; good = sample_multiple ''2'' ''b'' ''alice'' in
   stored_event_validate bad = Inr () \<and>
   (case append_event (Suc 0) 50 bad memory_annotation_default of
      Some (st1, Inl _) \<Rightarrow>
        projection_events st1 (event_projection_key bad) = [bad] \<and>
        (case append_event (Suc 0) 60 good st1 of Some (_, Inl _) \<Rightarrow> True | _ \<Rightarrow> False) \<and>
        (case append_event (Suc 0) 60 good memory_annotation_default of Some (_, Inr _) \<Rightarrow> True | _ \<Rightarrow> False)
    | _ \<Rightarrow> False)"
  by code_simp

end
