(* ===== verification/Rate_Limiter.thy ===== *)
theory Rate_Limiter
  imports Prelude
begin

text \<open>
  Rate limiting: the interface of the limiters (\<^verbatim>\<open>sockudo-core/src/rate_limiter.rs\<close>), the in-memory
  fixed-window limiter (\<^verbatim>\<open>sockudo-rate-limiter/src/memory_limiter.rs\<close>), the sliding window that Redis
  runs as a script, with the reconnecting caller (\<^verbatim>\<open>redis_window.rs\<close>, \<^verbatim>\<open>redis_limiter.rs\<close>), and the HTTP
  middleware (\<^verbatim>\<open>middleware.rs\<close>). Instants are integers in nanoseconds; a \<^verbatim>\<open>DashMap\<close> entry is locked for
  the duration of one atomic step; a Redis sorted set is the list of its members with their scores.
\<close>

type_synonym u32 = "32 word"
type_synonym instant = int

definition sat_sub32 :: "u32 \<Rightarrow> u32 \<Rightarrow> u32" where
  "sat_sub32 a b = (if b \<le> a then a - b else 0)"

text \<open>\<^verbatim>\<open>Duration::from_secs\<close>, \<^verbatim>\<open>Instant + Duration\<close> (which panics on overflow of the seconds), and
\<^verbatim>\<open>saturating_duration_since(..).as_secs()\<close>.\<close>

definition from_secs :: "u64 \<Rightarrow> int" where
  "from_secs s = uint s * 1000000000"

definition instant_add :: "instant \<Rightarrow> int \<Rightarrow> instant option" where
  "instant_add t d = (if t + d < 9223372036854775808 * 1000000000 then Some (t + d) else None)"

definition secs_until :: "instant \<Rightarrow> instant \<Rightarrow> u64" where
  "secs_until later now = word_of_int (max 0 (later - now) div 1000000000)"

section \<open>The interface\<close>

record rate_limit_config =
  rlc_max_requests :: u32
  rlc_window_secs :: u64
  rlc_identifier :: "string option"

definition rate_limit_config_default :: rate_limit_config where
  "rate_limit_config_default = \<lparr>rlc_max_requests = 60, rlc_window_secs = 60, rlc_identifier = None\<rparr>"

record rate_limit_result =
  rlr_allowed :: bool
  rlr_remaining :: u32
  rlr_reset_after :: u64
  rlr_limit :: u32

section \<open>The in-memory limiter\<close>

record rate_limit_entry =
  rle_count :: u32
  rle_window_start :: instant
  rle_expiry :: instant

type_synonym rate_limit_map = "string \<rightharpoonup> rate_limit_entry"

record memory_rate_limiter =
  mrl_limits :: rate_limit_map
  mrl_config :: rate_limit_config

definition sweep_expired_entries :: "instant \<Rightarrow> rate_limit_map \<Rightarrow> rate_limit_map" where
  "sweep_expired_entries now limits =
     (\<lambda>key. case limits key of None \<Rightarrow> None | Some e \<Rightarrow> if rle_expiry e > now then Some e else None)"

text \<open>One round of the shared sweeper over the maps that are still in use.\<close>

definition sweep_live_maps :: "instant \<Rightarrow> memory_rate_limiter list \<Rightarrow> memory_rate_limiter list" where
  "sweep_live_maps now ls = map (\<lambda>l. l\<lparr>mrl_limits := sweep_expired_entries now (mrl_limits l)\<rparr>) ls"

definition memory_limiter_with_config :: "rate_limit_config \<Rightarrow> memory_rate_limiter" where
  "memory_limiter_with_config config = \<lparr>mrl_limits = Map.empty, mrl_config = config\<rparr>"

definition memory_limiter_new :: "u32 \<Rightarrow> u64 \<Rightarrow> memory_rate_limiter" where
  "memory_limiter_new max_requests window_secs =
     memory_limiter_with_config
       \<lparr>rlc_max_requests = max_requests, rlc_window_secs = window_secs, rlc_identifier = Some ''memory''\<rparr>"

definition full_allowance :: "rate_limit_config \<Rightarrow> rate_limit_result" where
  "full_allowance c =
     \<lparr>rlr_allowed = True, rlr_remaining = rlc_max_requests c, rlr_reset_after = rlc_window_secs c,
      rlr_limit = rlc_max_requests c\<rparr>"

text \<open>
  \<^verbatim>\<open>check\<close> and \<^verbatim>\<open>get_remaining\<close> release the entry before they remove an expired one, so they are two atomic
  steps: the reading, which says whether the entry is to be removed, and the removal.
\<close>

definition check_read :: "instant \<Rightarrow> string \<Rightarrow> memory_rate_limiter \<Rightarrow> rate_limit_result \<times> bool" where
  "check_read now key l =
     (case mrl_limits l key of
        Some e \<Rightarrow>
          if rle_expiry e \<le> now then (full_allowance (mrl_config l), True)
          else
            (let remaining = sat_sub32 (rlc_max_requests (mrl_config l)) (rle_count e) in
             (\<lparr>rlr_allowed = remaining > 0, rlr_remaining = remaining, rlr_reset_after = secs_until (rle_expiry e) now,
               rlr_limit = rlc_max_requests (mrl_config l)\<rparr>, False))
      | None \<Rightarrow> (full_allowance (mrl_config l), False))"

definition memory_reset :: "string \<Rightarrow> memory_rate_limiter \<Rightarrow> memory_rate_limiter" where
  "memory_reset key l = l\<lparr>mrl_limits := (mrl_limits l)(key := None)\<rparr>"

definition memory_check :: "instant \<Rightarrow> string \<Rightarrow> memory_rate_limiter \<Rightarrow> memory_rate_limiter \<times> rate_limit_result" where
  "memory_check now key l =
     (case check_read now key l of (result, expired) \<Rightarrow> (if expired then memory_reset key l else l, result))"

definition remaining_read :: "instant \<Rightarrow> string \<Rightarrow> memory_rate_limiter \<Rightarrow> u32 \<times> bool" where
  "remaining_read now key l =
     (case mrl_limits l key of
        Some e \<Rightarrow>
          if rle_expiry e \<le> now then (rlc_max_requests (mrl_config l), True)
          else (sat_sub32 (rlc_max_requests (mrl_config l)) (rle_count e), False)
      | None \<Rightarrow> (rlc_max_requests (mrl_config l), False))"

definition memory_get_remaining :: "instant \<Rightarrow> string \<Rightarrow> memory_rate_limiter \<Rightarrow> memory_rate_limiter \<times> u32" where
  "memory_get_remaining now key l =
     (case remaining_read now key l of (remaining, expired) \<Rightarrow> (if expired then memory_reset key l else l, remaining))"

text \<open>
  The entry an increment works on: a fresh one, a restarted one, or the current one. \<open>Inl\<close> is a panic, with
  what the map then holds for the key.
\<close>

definition increment_entry ::
    "instant \<Rightarrow> int \<Rightarrow> rate_limit_entry option \<Rightarrow> rate_limit_entry option + rate_limit_entry" where
  "increment_entry now window entry =
     (case entry of
        None \<Rightarrow>
          (case instant_add now window of
             None \<Rightarrow> Inl None
           | Some expiry \<Rightarrow>
               let e = \<lparr>rle_count = 0, rle_window_start = now, rle_expiry = expiry\<rparr> in
               Inr (if rle_expiry e \<le> now then e\<lparr>rle_count := 0, rle_window_start := now, rle_expiry := expiry\<rparr> else e))
      | Some e \<Rightarrow>
          if rle_expiry e \<le> now
          then (case instant_add now window of
                  None \<Rightarrow> Inl (Some (e\<lparr>rle_count := 0, rle_window_start := now\<rparr>))
                | Some expiry \<Rightarrow> Inr (e\<lparr>rle_count := 0, rle_window_start := now, rle_expiry := expiry\<rparr>))
          else Inr e)"

definition memory_increment ::
    "instant \<Rightarrow> string \<Rightarrow> memory_rate_limiter \<Rightarrow> memory_rate_limiter \<times> rate_limit_result option" where
  "memory_increment now key l =
     (case increment_entry now (from_secs (rlc_window_secs (mrl_config l))) (mrl_limits l key) of
        Inl entry \<Rightarrow> (l\<lparr>mrl_limits := (mrl_limits l)(key := entry)\<rparr>, None)
      | Inr e \<Rightarrow>
          (let new_count = rle_count e + 1;
               max_requests = rlc_max_requests (mrl_config l) in
           (l\<lparr>mrl_limits := (mrl_limits l)(key \<mapsto> e\<lparr>rle_count := new_count\<rparr>)\<rparr>,
            Some \<lparr>rlr_allowed = new_count \<le> max_requests, rlr_remaining = sat_sub32 max_requests new_count,
                  rlr_reset_after = secs_until (rle_expiry e) now, rlr_limit = max_requests\<rparr>)))"

section \<open>The sliding window in Redis\<close>

definition window_start_ms :: "u64 \<Rightarrow> u64 \<Rightarrow> u64" where
  "window_start_ms now_ms window_secs = sat_sub now_ms (sat_mul window_secs 1000)"

definition entry_member :: "u64 \<Rightarrow> u64 \<Rightarrow> u64 \<Rightarrow> string" where
  "entry_member now_ms random sequence =
     show_nat (unat now_ms) @ '':'' @ show_nat (unat random) @ '':'' @ show_nat (unat sequence)"

record sliding_window_request =
  swr_key :: string
  swr_now_ms :: u64
  swr_window_start_ms :: u64
  swr_window_secs :: u64
  swr_max_requests :: u32
  swr_increment :: bool
  swr_member :: string

text \<open>
  A key of Redis: the sorted set as a list of members with scores, and the time in milliseconds at which the
  key expires. Redis deletes an expired key before a command sees it.
\<close>

record zset_key =
  zk_members :: "(string \<times> u64) list"
  zk_expire_at :: "int option"

definition zset_empty :: zset_key where
  "zset_empty = \<lparr>zk_members = [], zk_expire_at = None\<rparr>"

definition redis_expire :: "int \<Rightarrow> zset_key \<Rightarrow> zset_key" where
  "redis_expire redis_ms z =
     (case zk_expire_at z of None \<Rightarrow> z | Some at \<Rightarrow> if at \<le> redis_ms then zset_empty else z)"

definition zremrangebyscore :: "u64 \<Rightarrow> zset_key \<Rightarrow> zset_key" where
  "zremrangebyscore bound z = z\<lparr>zk_members := filter (\<lambda>(_, score). score > bound) (zk_members z)\<rparr>"

definition sliding_window_script :: "int \<Rightarrow> sliding_window_request \<Rightarrow> zset_key \<Rightarrow> zset_key \<times> bool \<times> nat" where
  "sliding_window_script redis_ms q z0 =
     (let z = zremrangebyscore (swr_window_start_ms q) (redis_expire redis_ms z0);
          count = length (zk_members z);
          limit = unat (swr_max_requests q);
          already_counted = (swr_increment q \<and> map_of (zk_members z) (swr_member q) \<noteq> None);
          (allowed, z', count') =
            (if already_counted then (True, z, count)
             else if count < limit
             then (if swr_increment q
                   then (True, z\<lparr>zk_members := zk_members z @ [(swr_member q, swr_now_ms q)]\<rparr>, count + 1)
                   else (True, z, count))
             else (False, z, count));
          z'' = (if count' > 0 then z'\<lparr>zk_expire_at := Some (redis_ms + uint (swr_window_secs q) * 1000)\<rparr> else z') in
      (if count' = 0 then zset_empty else redis_expire redis_ms z'', allowed, limit - count'))"

definition run_sliding_window :: "int \<Rightarrow> sliding_window_request \<Rightarrow> zset_key \<Rightarrow> zset_key \<times> rate_limit_result" where
  "run_sliding_window redis_ms q z =
     (case sliding_window_script redis_ms q z of
        (z', allowed, remaining) \<Rightarrow>
          (z', \<lparr>rlr_allowed = allowed, rlr_remaining = of_nat remaining, rlr_reset_after = swr_window_secs q,
                rlr_limit = swr_max_requests q\<rparr>))"

section \<open>The reconnecting caller\<close>

text \<open>What happens to one command: a reply, a connection dropped before or after the script ran, or another error.\<close>

datatype redis_outcome = Replied | DroppedBefore string | DroppedAfter string | Failed string

fun redis_attempt ::
    "redis_outcome \<Rightarrow> int \<Rightarrow> sliding_window_request \<Rightarrow> zset_key \<Rightarrow> zset_key \<times> (string + rate_limit_result)" where
  "redis_attempt Replied redis_ms q z = map_prod id Inr (run_sliding_window redis_ms q z)"
| "redis_attempt (DroppedBefore e) redis_ms q z = (z, Inl e)"
| "redis_attempt (DroppedAfter e) redis_ms q z = (fst (run_sliding_window redis_ms q z), Inl e)"
| "redis_attempt (Failed e) redis_ms q z = (z, Inl e)"

definition is_connection_dropped :: "redis_outcome \<Rightarrow> bool" where
  "is_connection_dropped oc = (case oc of DroppedBefore _ \<Rightarrow> True | DroppedAfter _ \<Rightarrow> True | _ \<Rightarrow> False)"

record redis_rate_limiter =
  rrl_prefix :: string
  rrl_config :: rate_limit_config

definition redis_get_key :: "redis_rate_limiter \<Rightarrow> string \<Rightarrow> string" where
  "redis_get_key l key = rrl_prefix l @ '':rl:'' @ key"

definition sliding_request ::
    "redis_rate_limiter \<Rightarrow> u64 \<Rightarrow> u64 \<Rightarrow> u64 \<Rightarrow> string \<Rightarrow> bool \<Rightarrow> sliding_window_request" where
  "sliding_request l now_ms random sequence key increment =
     \<lparr>swr_key = redis_get_key l key, swr_now_ms = now_ms,
      swr_window_start_ms = window_start_ms now_ms (rlc_window_secs (rrl_config l)),
      swr_window_secs = rlc_window_secs (rrl_config l), swr_max_requests = rlc_max_requests (rrl_config l),
      swr_increment = increment, swr_member = (if increment then entry_member now_ms random sequence else [])\<rparr>"

text \<open>
  \<^verbatim>\<open>run_sliding_window_check\<close> on the sorted set of the request's key: the outcomes of the two attempts, whether
  the fresh connection could be made, and the times at which Redis runs the script are arguments.
\<close>

definition run_sliding_window_check ::
    "redis_outcome \<Rightarrow> redis_outcome \<Rightarrow> unit result \<Rightarrow> int \<Rightarrow> int \<Rightarrow> sliding_window_request \<Rightarrow> zset_key \<Rightarrow>
     zset_key \<times> rate_limit_result result" where
  "run_sliding_window_check first second fresh ms1 ms2 q z =
     (case redis_attempt first ms1 q z of
        (z1, Inr result) \<Rightarrow> (z1, Inr result)
      | (z1, Inl e) \<Rightarrow>
          if is_connection_dropped first
          then (case fresh of
                  Inl e' \<Rightarrow> (z1, Inl e')
                | Inr _ \<Rightarrow>
                    (case redis_attempt second ms2 q z1 of
                       (z2, Inr result) \<Rightarrow> (z2, Inr result)
                     | (z2, Inl e2) \<Rightarrow>
                         (z2, Inl (Redis (''redis sliding-window command failed after reconnect: '' @ e2)))))
          else (z1, Inl (Redis (''redis sliding-window command failed: '' @ e))))"

definition redis_check ::
    "redis_outcome \<Rightarrow> redis_outcome \<Rightarrow> unit result \<Rightarrow> int \<Rightarrow> int \<Rightarrow> redis_rate_limiter \<Rightarrow> u64 \<Rightarrow> string \<Rightarrow> zset_key \<Rightarrow>
     zset_key \<times> rate_limit_result result" where
  "redis_check first second fresh ms1 ms2 l now_ms key z =
     run_sliding_window_check first second fresh ms1 ms2 (sliding_request l now_ms 0 0 key False) z"

definition redis_increment ::
    "redis_outcome \<Rightarrow> redis_outcome \<Rightarrow> unit result \<Rightarrow> int \<Rightarrow> int \<Rightarrow> redis_rate_limiter \<Rightarrow> u64 \<Rightarrow> u64 \<Rightarrow> u64 \<Rightarrow> string \<Rightarrow>
     zset_key \<Rightarrow> zset_key \<times> rate_limit_result result" where
  "redis_increment first second fresh ms1 ms2 l now_ms random sequence key z =
     run_sliding_window_check first second fresh ms1 ms2 (sliding_request l now_ms random sequence key True) z"

definition redis_reset :: "redis_outcome \<Rightarrow> zset_key \<Rightarrow> zset_key \<times> unit result" where
  "redis_reset oc z =
     (let failed = (\<lambda>e. Inl (Redis (''Failed to delete Redis key: '' @ e))) in
      case oc of
        Replied \<Rightarrow> (zset_empty, Inr ())
      | DroppedBefore e \<Rightarrow> (z, failed e)
      | DroppedAfter e \<Rightarrow> (zset_empty, failed e)
      | Failed e \<Rightarrow> (z, failed e))"

definition redis_get_remaining ::
    "redis_outcome \<Rightarrow> redis_outcome \<Rightarrow> unit result \<Rightarrow> int \<Rightarrow> int \<Rightarrow> redis_rate_limiter \<Rightarrow> u64 \<Rightarrow> string \<Rightarrow> zset_key \<Rightarrow>
     zset_key \<times> u32 result" where
  "redis_get_remaining first second fresh ms1 ms2 l now_ms key z =
     map_prod id (map_sum id rlr_remaining) (redis_check first second fresh ms1 ms2 l now_ms key z)"

text \<open>The limiter for a Redis cluster differs in the texts of its errors.\<close>

definition cluster_sliding_window_check ::
    "redis_outcome \<Rightarrow> redis_outcome \<Rightarrow> string + unit \<Rightarrow> int \<Rightarrow> int \<Rightarrow> sliding_window_request \<Rightarrow> zset_key \<Rightarrow>
     zset_key \<times> rate_limit_result result" where
  "cluster_sliding_window_check first second fresh ms1 ms2 q z =
     (case redis_attempt first ms1 q z of
        (z1, Inr result) \<Rightarrow> (z1, Inr result)
      | (z1, Inl e) \<Rightarrow>
          if is_connection_dropped first
          then (case fresh of
                  Inl e' \<Rightarrow> (z1, Inl (Redis (''failed to reconnect Redis Cluster rate limiter: '' @ e')))
                | Inr _ \<Rightarrow>
                    (case redis_attempt second ms2 q z1 of
                       (z2, Inr result) \<Rightarrow> (z2, Inr result)
                     | (z2, Inl e2) \<Rightarrow>
                         (z2, Inl (Redis (''redis cluster sliding-window command failed after reconnect: '' @ e2)))))
          else (z1, Inl (Redis (''redis cluster sliding-window command failed: '' @ e))))"

section \<open>The middleware\<close>

record rate_limit_options =
  rlo_include_headers :: bool
  rlo_fail_open :: bool
  rlo_key_prefix :: "string option"

definition rate_limit_options_default :: rate_limit_options where
  "rate_limit_options_default = \<lparr>rlo_include_headers = True, rlo_fail_open = True, rlo_key_prefix = None\<rparr>"

text \<open>What the key extractor reads of a request: two headers and the address of the peer.\<close>

record limited_request =
  lrq_forwarded_for :: "string option"
  lrq_real_ip :: "string option"
  lrq_peer_ip :: "string option"

text \<open>\<^verbatim>\<open>HeaderValue::to_str\<close> accepts visible ASCII and tabs, so \<^verbatim>\<open>trim\<close> only meets spaces and tabs.\<close>

definition header_to_str :: "string \<Rightarrow> string option" where
  "header_to_str v =
     (if list_all (\<lambda>c. c = CHR 0x09 \<or> (32 \<le> (of_char c :: int) \<and> (of_char c :: int) < 127)) v then Some v else None)"

definition header_space :: "char \<Rightarrow> bool" where
  "header_space c \<longleftrightarrow> c = CHR '' '' \<or> c = CHR 0x09"

definition trim_header :: "string \<Rightarrow> string" where
  "trim_header s = rev (dropWhile header_space (rev (dropWhile header_space s)))"

fun split_commas :: "string \<Rightarrow> string list" where
  "split_commas [] = [[]]"
| "split_commas (c # s) =
     (if c = CHR '','' then [] # split_commas s
      else case split_commas s of [] \<Rightarrow> [[c]] | part # parts \<Rightarrow> (c # part) # parts)"

text \<open>\<open>is_ip\<close> stands for \<^verbatim>\<open>parse::<IpAddr>().is_ok()\<close>.\<close>

definition forwarded_ip :: "(string \<Rightarrow> bool) \<Rightarrow> usize \<Rightarrow> string \<Rightarrow> string option" where
  "forwarded_ip is_ip trust_hops forwarded =
     (let ips = map trim_header (split_commas forwarded);
          client_ip_index = length ips - unat trust_hops in
      if client_ip_index < length ips
      then (if is_ip (ips ! client_ip_index) then Some (ips ! client_ip_index) else None)
      else (case ips of [] \<Rightarrow> None | ip # _ \<Rightarrow> if is_ip ip then Some ip else None))"

definition get_ip :: "(string \<Rightarrow> bool) \<Rightarrow> usize \<Rightarrow> limited_request \<Rightarrow> string option" where
  "get_ip is_ip trust_hops q =
     (case (if trust_hops > 0
            then (case Option.bind (lrq_forwarded_for q) header_to_str of
                    Some forwarded \<Rightarrow> forwarded_ip is_ip trust_hops forwarded | None \<Rightarrow> None)
            else None) of
        Some ip \<Rightarrow> Some ip
      | None \<Rightarrow>
          (case Option.bind (lrq_real_ip q) header_to_str of
             Some real_ip \<Rightarrow> if is_ip (trim_header real_ip) then Some (trim_header real_ip) else lrq_peer_ip q
           | None \<Rightarrow> lrq_peer_ip q))"

definition extract_ip_key :: "(string \<Rightarrow> bool) \<Rightarrow> usize \<Rightarrow> limited_request \<Rightarrow> string" where
  "extract_ip_key is_ip trust_hops q =
     (case get_ip is_ip trust_hops q of None \<Rightarrow> ''unknown_ip'' | Some ip \<Rightarrow> ip)"

definition final_key :: "rate_limit_options \<Rightarrow> string \<Rightarrow> string" where
  "final_key options key = (case rlo_key_prefix options of Some prefix \<Rightarrow> prefix @ '':'' @ key | None \<Rightarrow> key)"

definition request_context :: "string \<Rightarrow> string" where
  "request_context path =
     (if take 5 path = ''/app/'' then ''websocket_upgrade''
      else if take 6 path = ''/apps/'' then ''http_api''
      else if take 4 path = ''/up/'' \<or> path = ''/live'' then ''health_check''
      else ''other'')"

text \<open>The headers that a response gets, in the order they are inserted.\<close>

definition add_rate_limit_headers :: "rate_limit_result \<Rightarrow> bool \<Rightarrow> (string \<times> string) list" where
  "add_rate_limit_headers r is_rate_limited =
     [(''x-ratelimit-limit'', show_nat (unat (rlr_limit r))),
      (''x-ratelimit-remaining'', show_nat (unat (rlr_remaining r))),
      (''x-ratelimit-reset'', show_nat (unat (rlr_reset_after r)))] @
     (if is_rate_limited then [(''retry-after'', show_nat (unat (rlr_reset_after r)))] else [])"

text \<open>The answer of the middleware: one of its own, or the inner service's with headers added.\<close>

datatype limited_response =
    TooManyRequests "(string \<times> string) list"
  | InternalError string
  | FromService "(string \<times> string) list"

definition limited_call :: "rate_limit_options \<Rightarrow> rate_limit_result result \<Rightarrow> limited_response" where
  "limited_call options increment_result =
     (let passed = (\<lambda>r. if \<not> rlr_allowed r then TooManyRequests (add_rate_limit_headers r True)
                        else FromService (if rlo_include_headers options \<and> rlr_limit r > 0
                                          then add_rate_limit_headers r False else [])) in
      case increment_result of
        Inr r \<Rightarrow> passed r
      | Inl _ \<Rightarrow>
          if rlo_fail_open options
          then passed \<lparr>rlr_allowed = True, rlr_remaining = 0, rlr_reset_after = 0, rlr_limit = 0\<rparr>
          else InternalError ''Rate limiter backend unavailable.'')"

section \<open>How many requests a window admits\<close>

datatype limiter_event = LIncrement string | LCheck string | LRemaining string | LSweep

text \<open>One operation at a time, and whether it admitted a request for the key.\<close>

fun limiter_step :: "string \<Rightarrow> instant \<Rightarrow> limiter_event \<Rightarrow> memory_rate_limiter \<Rightarrow> memory_rate_limiter \<times> bool" where
  "limiter_step key now (LIncrement k) l =
     (case memory_increment now k l of
        (l', r) \<Rightarrow> (l', k = key \<and> (case r of None \<Rightarrow> False | Some res \<Rightarrow> rlr_allowed res)))"
| "limiter_step key now (LCheck k) l = (fst (memory_check now k l), False)"
| "limiter_step key now (LRemaining k) l = (fst (memory_get_remaining now k l), False)"
| "limiter_step key now LSweep l = (hd (sweep_live_maps now [l]), False)"

fun admitted :: "string \<Rightarrow> (instant \<times> limiter_event) list \<Rightarrow> memory_rate_limiter \<Rightarrow> instant list" where
  "admitted key [] l = []"
| "admitted key ((now, e) # events) l =
     (case limiter_step key now e l of (l', ok) \<Rightarrow> (if ok then [now] else []) @ admitted key events l')"

text \<open>
  What a key's entry says about the times \<open>ts\<close> admitted so far, at time \<open>now\<close>: its count is the number of
  requests seen in its window, and the window before admitted at most \<open>m\<close>.
\<close>

definition entry_inv :: "nat \<Rightarrow> int \<Rightarrow> nat \<Rightarrow> instant \<Rightarrow> rate_limit_entry option \<Rightarrow> instant list \<Rightarrow> bool" where
  "entry_inv m w n now entry ts \<longleftrightarrow>
     (\<forall>\<tau> \<in> set ts. \<tau> \<le> now) \<and>
     (case entry of
        None \<Rightarrow> (\<forall>\<tau> \<in> set ts. \<tau> < now) \<and> length (filter (\<lambda>\<tau>. now - w < \<tau>) ts) \<le> m
      | Some e \<Rightarrow>
          (let s = rle_expiry e - w in
           s \<le> now \<and> unat (rle_count e) \<le> n \<and> (\<forall>\<tau> \<in> set ts. \<tau> < rle_expiry e) \<and>
           length (filter (\<lambda>\<tau>. s \<le> \<tau>) ts) = min (unat (rle_count e)) m \<and>
           length (filter (\<lambda>\<tau>. s - w < \<tau> \<and> \<tau> < s) ts) \<le> m))"

definition bounded_windows :: "nat \<Rightarrow> int \<Rightarrow> instant list \<Rightarrow> bool" where
  "bounded_windows m w ts \<longleftrightarrow> (\<forall>t. length (filter (\<lambda>\<tau>. t \<le> \<tau> \<and> \<tau> < t + w) ts) \<le> 2 * m)"

lemma filter_length_mono: "(\<And>x. x \<in> set xs \<Longrightarrow> P x \<Longrightarrow> Q x) \<Longrightarrow> length (filter P xs) \<le> length (filter Q xs)"
  by (induction xs) (auto simp: le_SucI)

lemma filter_length_split:
  "(\<And>x. x \<in> set xs \<Longrightarrow> P x \<Longrightarrow> Q x \<or> R x) \<Longrightarrow> length (filter P xs) \<le> length (filter Q xs) + length (filter R xs)"
  by (induction xs) (auto simp: le_SucI)

text \<open>Removing an expired entry.\<close>

lemma entry_inv_expired:
  assumes "entry_inv m w n now (Some e) ts" "now \<le> now'" "rle_expiry e \<le> now'" "0 < w"
  shows "entry_inv m w n now' None ts"
proof -
  have inv: "\<forall>\<tau> \<in> set ts. \<tau> \<le> now" "\<forall>\<tau> \<in> set ts. \<tau> < rle_expiry e"
    "length (filter (\<lambda>\<tau>. rle_expiry e - w \<le> \<tau>) ts) \<le> m"
    using assms(1) by (auto simp: entry_inv_def Let_def)
  have "length (filter (\<lambda>\<tau>. now' - w < \<tau>) ts) \<le> length (filter (\<lambda>\<tau>. rle_expiry e - w \<le> \<tau>) ts)"
    using assms(3) by (intro filter_length_mono) auto
  with inv assms(2,3) show ?thesis by (fastforce simp: entry_inv_def)
qed

lemma entry_inv_later:
  assumes "entry_inv m w n now entry ts" "now \<le> now'"
  shows "entry_inv m w n now' entry ts"
proof (cases entry)
  case None
  have "length (filter (\<lambda>\<tau>. now' - w < \<tau>) ts) \<le> length (filter (\<lambda>\<tau>. now - w < \<tau>) ts)"
    using assms(2) by (intro filter_length_mono) auto
  with assms None show ?thesis by (fastforce simp: entry_inv_def)
qed (use assms in \<open>fastforce simp: entry_inv_def Let_def\<close>)

text \<open>A request counted in a fresh window.\<close>

lemma entry_inv_fresh:
  assumes "entry_inv m w n now None ts" "0 < w"
  shows "entry_inv m w (Suc 0) now (Some \<lparr>rle_count = 0 + 1, rle_window_start = now, rle_expiry = now + w\<rparr>)
      (ts @ (if 1 \<le> m then [now] else []))"
proof -
  have ts: "\<forall>\<tau> \<in> set ts. \<tau> < now" "length (filter (\<lambda>\<tau>. now - w < \<tau>) ts) \<le> m"
    using assms(1) by (auto simp: entry_inv_def)
  then have "filter (\<lambda>\<tau>. now \<le> \<tau>) ts = []" by (fastforce simp: filter_empty_conv)
  moreover have "filter (\<lambda>\<tau>. now - w < \<tau> \<and> \<tau> < now) ts = filter (\<lambda>\<tau>. now - w < \<tau>) ts"
    using ts(1) by (intro filter_cong) auto
  ultimately show ?thesis
    using ts assms by (auto simp: entry_inv_def Let_def)
qed

lemma bounded_windows_add:
  assumes "bounded_windows m w ts" "entry_inv m w n now (Some e) (ts @ [now])"
  shows "bounded_windows m w (ts @ [now])"
  unfolding bounded_windows_def
proof
  fix t
  let ?s = "rle_expiry e - w"
  show "length (filter (\<lambda>\<tau>. t \<le> \<tau> \<and> \<tau> < t + w) (ts @ [now])) \<le> 2 * m"
  proof (cases "t \<le> now \<and> now < t + w")
    case True
    have inv: "?s \<le> now" "length (filter (\<lambda>\<tau>. ?s \<le> \<tau>) (ts @ [now])) \<le> m"
      "length (filter (\<lambda>\<tau>. ?s - w < \<tau> \<and> \<tau> < ?s) (ts @ [now])) \<le> m"
      using assms(2) by (auto simp: entry_inv_def Let_def simp del: filter_append)
    have "length (filter (\<lambda>\<tau>. t \<le> \<tau> \<and> \<tau> < t + w) (ts @ [now])) \<le>
        length (filter (\<lambda>\<tau>. ?s \<le> \<tau>) (ts @ [now])) + length (filter (\<lambda>\<tau>. ?s - w < \<tau> \<and> \<tau> < ?s) (ts @ [now]))"
      using True inv(1) by (intro filter_length_split) auto
    with inv show ?thesis by linarith
  next
    case False
    then have "filter (\<lambda>\<tau>. t \<le> \<tau> \<and> \<tau> < t + w) (ts @ [now]) = filter (\<lambda>\<tau>. t \<le> \<tau> \<and> \<tau> < t + w) ts" by auto
    with assms(1) show ?thesis by (simp add: bounded_windows_def)
  qed
qed

lemma entry_inv_more: "entry_inv m w n now entry ts \<Longrightarrow> n \<le> n' \<Longrightarrow> entry_inv m w n' now entry ts"
  by (fastforce simp: entry_inv_def Let_def split: option.splits)

text \<open>A request counted in the current window.\<close>

lemma entry_inv_count:
  assumes "entry_inv m w n now (Some e) ts" "now < rle_expiry e" "Suc n < 2 ^ 32"
  shows "entry_inv m w (Suc n) now (Some (e\<lparr>rle_count := rle_count e + 1\<rparr>))
      (ts @ (if unat (rle_count e + 1) \<le> m then [now] else []))"
proof -
  have "unat (rle_count e) \<le> n" using assms(1) by (simp add: entry_inv_def Let_def)
  then have "unat (rle_count e + 1) = Suc (unat (rle_count e))"
    using assms(3) by (simp add: unat_word_ariths(1) Suc_lessD)
  with assms show ?thesis by (auto simp: entry_inv_def Let_def)
qed

lemma u32_le_iff: "(a :: u32) \<le> b \<longleftrightarrow> unat a \<le> unat b"
  by (simp add: word_le_nat_alt)

lemma increment_key_inv:
  assumes inv: "entry_inv m w n now (mrl_limits l key) ts" "0 < w" "Suc n < 2 ^ 32" "instant_add now w \<noteq> None"
    and conf: "unat (rlc_max_requests (mrl_config l)) = m" "from_secs (rlc_window_secs (mrl_config l)) = w"
    and step: "memory_increment now key l = (l', r)"
  shows "entry_inv m w (Suc n) now (mrl_limits l' key)
     (ts @ (if (case r of None \<Rightarrow> False | Some res \<Rightarrow> rlr_allowed res) then [now] else []))"
proof -
  have add: "instant_add now w = Some (now + w)" using inv(4) by (auto simp: instant_add_def split: if_splits)
  have fresh: ?thesis
    if "entry_inv m w n now None ts"
      "increment_entry now w (mrl_limits l key) = Inr \<lparr>rle_count = 0, rle_window_start = now, rle_expiry = now + w\<rparr>"
  proof -
    have "entry_inv m w (Suc n) now (Some \<lparr>rle_count = 0 + 1, rle_window_start = now, rle_expiry = now + w\<rparr>)
        (ts @ (if 1 \<le> m then [now] else []))"
      by (rule entry_inv_more [OF entry_inv_fresh [OF that(1) inv(2)]]) simp
    with that(2) step conf show ?thesis by (auto simp: memory_increment_def Let_def u32_le_iff)
  qed
  show ?thesis
  proof (cases "mrl_limits l key")
    case None
    with inv(1,2) add show ?thesis by (intro fresh) (simp_all add: increment_entry_def)
  next
    case (Some e)
    show ?thesis
    proof (cases "rle_expiry e \<le> now")
      case True
      have "increment_entry now w (mrl_limits l key) = Inr \<lparr>rle_count = 0, rle_window_start = now, rle_expiry = now + w\<rparr>"
        by (cases e) (use True Some add in \<open>simp add: increment_entry_def\<close>)
      with fresh entry_inv_expired [OF _ order_refl True inv(2)] inv(1) Some show ?thesis by simp
    next
      case False
      have "entry_inv m w (Suc n) now (Some (e\<lparr>rle_count := rle_count e + 1\<rparr>))
          (ts @ (if unat (rle_count e + 1) \<le> m then [now] else []))"
        using entry_inv_count [OF _ _ inv(3)] inv(1) Some False by simp
      with Some False step conf show ?thesis
        by (auto simp: memory_increment_def increment_entry_def Let_def u32_le_iff)
    qed
  qed
qed

lemma increment_other:
  "memory_increment now k l = (l', r) \<Longrightarrow> mrl_config l' = mrl_config l \<and> (k \<noteq> key \<longrightarrow> mrl_limits l' key = mrl_limits l key)"
  by (auto simp: memory_increment_def Let_def split: sum.splits)

text \<open>The other operations at most drop expired entries.\<close>

lemma other_event_drops:
  assumes "limiter_step key now e l = (l', ok)" "\<And>k. e \<noteq> LIncrement k"
  shows "\<not> ok" "mrl_config l' = mrl_config l"
    and "mrl_limits l' key = mrl_limits l key \<or>
         (\<exists>x. mrl_limits l key = Some x \<and> rle_expiry x \<le> now \<and> mrl_limits l' key = None)"
  using assms
  by (cases e; auto simp: memory_check_def check_read_def memory_get_remaining_def remaining_read_def memory_reset_def
      sweep_live_maps_def sweep_expired_entries_def Let_def split: option.splits if_splits prod.splits)+

lemma limiter_step_inv:
  assumes inv: "entry_inv m w n now (mrl_limits l key) ts" "bounded_windows m w ts" "now \<le> now'"
    and w: "0 < w" "Suc n < 2 ^ 32" "instant_add now' w \<noteq> None"
    and conf: "unat (rlc_max_requests (mrl_config l)) = m" "from_secs (rlc_window_secs (mrl_config l)) = w"
    and step: "limiter_step key now' e l = (l', ok)"
  shows "entry_inv m w (Suc n) now' (mrl_limits l' key) (ts @ (if ok then [now'] else []))"
    and "bounded_windows m w (ts @ (if ok then [now'] else []))" and "mrl_config l' = mrl_config l"
proof -
  have later: "entry_inv m w n now' (mrl_limits l key) ts" using inv(1,3) by (rule entry_inv_later)
  have more: "entry_inv m w (Suc n) now' (mrl_limits l key) ts" by (rule entry_inv_more [OF later]) simp
  have "entry_inv m w (Suc n) now' (mrl_limits l' key) (ts @ (if ok then [now'] else [])) \<and> mrl_config l' = mrl_config l \<and>
      (ok \<longrightarrow> mrl_limits l' key \<noteq> None)"
  proof (cases "\<exists>k. e = LIncrement k")
    case True
    then obtain k r where k: "e = LIncrement k" "memory_increment now' k l = (l', r)"
      "ok = (k = key \<and> (case r of None \<Rightarrow> False | Some res \<Rightarrow> rlr_allowed res))"
      using step by (auto split: prod.splits)
    show ?thesis
    proof (cases "k = key")
      case True
      have "r \<noteq> None \<longrightarrow> mrl_limits l' key \<noteq> None"
        using k(2) True by (auto simp: memory_increment_def Let_def split: sum.splits)
      with True k increment_other [OF k(2)] increment_key_inv [OF later w conf] show ?thesis
        by (auto split: option.splits)
    next
      case False
      with k increment_other [OF k(2)] more show ?thesis by simp
    qed
  next
    case False
    then have drops: "\<not> ok" "mrl_config l' = mrl_config l"
      "mrl_limits l' key = mrl_limits l key \<or>
       (\<exists>x. mrl_limits l key = Some x \<and> rle_expiry x \<le> now' \<and> mrl_limits l' key = None)"
      using other_event_drops [OF step] by blast+
    with more entry_inv_expired [OF _ order_refl _ w(1)] show ?thesis by fastforce
  qed
  then show "entry_inv m w (Suc n) now' (mrl_limits l' key) (ts @ (if ok then [now'] else []))" "mrl_config l' = mrl_config l"
    "bounded_windows m w (ts @ (if ok then [now'] else []))"
    using inv(2) bounded_windows_add by auto
qed

lemma admitted_bounded:
  assumes "entry_inv m w n now (mrl_limits l key) ts" "bounded_windows m w ts" "0 < w"
    and "unat (rlc_max_requests (mrl_config l)) = m" "from_secs (rlc_window_secs (mrl_config l)) = w"
    and "sorted (now # map fst events)" "n + length events < 2 ^ 32"
    and "list_all (\<lambda>(t, _). instant_add t w \<noteq> None) events"
  shows "bounded_windows m w (ts @ admitted key events l)"
  using assms
proof (induction events arbitrary: n now l ts)
  case (Cons ev events)
  obtain now' e where ev: "ev = (now', e)" by fastforce
  obtain l' ok where step: "limiter_step key now' e l = (l', ok)" by fastforce
  have le: "now \<le> now'" "Suc n < 2 ^ 32" "instant_add now' w \<noteq> None" using Cons.prems ev by auto
  note inv = limiter_step_inv [OF Cons.prems(1,2) le(1) Cons.prems(3) le(2,3) Cons.prems(4,5) step]
  have "bounded_windows m w ((ts @ (if ok then [now'] else [])) @ admitted key events l')"
    by (rule Cons.IH [OF inv(1,2)]) (use Cons.prems inv(3) ev in auto)
  then show ?case by (simp add: ev step)
qed simp


section \<open>How many requests the sliding window admits\<close>

text \<open>
  The requests of one key, each with its time and member, and the times of those admitted; Redis runs the
  script at the time the caller read.
\<close>

fun sliding_admitted :: "redis_rate_limiter \<Rightarrow> string \<Rightarrow> (u64 \<times> string \<times> bool) list \<Rightarrow> zset_key \<Rightarrow> int list" where
  "sliding_admitted l key [] z = []"
| "sliding_admitted l key ((now, member, increment) # rest) z =
     (let q = (sliding_request l now 0 0 key increment)\<lparr>swr_member := member\<rparr> in
      case run_sliding_window (uint now) q z of
        (z', r) \<Rightarrow> (if increment \<and> rlr_allowed r then [uint now] else []) @ sliding_admitted l key rest z')"

definition zset_counts :: "int \<Rightarrow> int \<Rightarrow> (string \<times> u64) list \<Rightarrow> int list \<Rightarrow> bool" where
  "zset_counts now w members ts \<longleftrightarrow>
     (\<forall>\<theta> \<ge> now - w. length (filter (\<lambda>\<tau>. \<theta> < \<tau>) ts) \<le> length (filter (\<lambda>(_, s). \<theta> < uint s) members))"

definition sliding_inv :: "int \<Rightarrow> int \<Rightarrow> string set \<Rightarrow> zset_key \<Rightarrow> int list \<Rightarrow> bool" where
  "sliding_inv now w used z ts \<longleftrightarrow>
     (\<forall>\<tau> \<in> set ts. 0 < \<tau> \<and> \<tau> \<le> now) \<and> fst ` set (zk_members z) \<subseteq> used \<and> zset_counts now w (zk_members z) ts \<and>
     (\<forall>a. zk_expire_at z = Some a \<longrightarrow> (\<forall>\<tau> \<in> set ts. \<tau> \<le> a - w))"

definition sliding_bounded :: "nat \<Rightarrow> int \<Rightarrow> int list \<Rightarrow> bool" where
  "sliding_bounded m w ts \<longleftrightarrow> (\<forall>t. length (filter (\<lambda>\<tau>. t < \<tau> \<and> \<tau> \<le> t + w) ts) \<le> m)"

definition window_ms :: "u64 \<Rightarrow> int" where
  "window_ms secs = uint secs * 1000"

lemma uint_window_start:
  assumes "window_ms secs < 2 ^ 64"
  shows "uint (window_start_ms now secs) = max 0 (uint now - window_ms secs)"
proof -
  have mul: "uint (sat_mul secs 1000) = window_ms secs"
    using assms by (simp add: sat_mul_def window_ms_def uint_word_ariths)
  show ?thesis
  proof (cases "sat_mul secs 1000 \<le> now")
    case True
    then show ?thesis
      using mul by (simp add: window_start_ms_def sat_sub_def word_le_def uint_sub_lem [THEN iffD1])
  next
    case False
    then show ?thesis using mul by (simp add: window_start_ms_def sat_sub_def word_le_def)
  qed
qed

text \<open>What the script works on: the members still in the window.\<close>

lemma zset_counts_window:
  assumes inv: "sliding_inv now w used z ts" "now \<le> now'"
    and start: "uint start = max 0 (now' - w)"
  shows "zset_counts now' w (zk_members (zremrangebyscore start (redis_expire now' z))) ts"
  unfolding zset_counts_def
proof (intro allI impI)
  fix \<theta> assume \<theta>: "now' - w \<le> \<theta>"
  have counts: "zset_counts now w (zk_members z) ts" using inv(1) by (simp add: sliding_inv_def)
  let ?members = "zk_members (zremrangebyscore start (redis_expire now' z))"
  show "length (filter (\<lambda>\<tau>. \<theta> < \<tau>) ts) \<le> length (filter (\<lambda>(_, s). \<theta> < uint s) ?members)"
  proof (cases "redis_expire now' z = z")
    case True
    have "length (filter (\<lambda>\<tau>. \<theta> < \<tau>) ts) \<le> length (filter (\<lambda>\<tau>. max 0 \<theta> < \<tau>) ts)"
      using inv(1) by (intro filter_length_mono) (auto simp: sliding_inv_def)
    also have "\<dots> \<le> length (filter (\<lambda>(_, s). max 0 \<theta> < uint s) (zk_members z))"
      using counts [unfolded zset_counts_def, rule_format, of "max 0 \<theta>"] inv(2) \<theta> by linarith
    also have "\<dots> \<le> length (filter (\<lambda>(_, s). \<theta> < uint s) ?members)"
    proof -
      have "filter (\<lambda>(_, s). max 0 \<theta> < uint s) (zk_members z) = filter (\<lambda>(_, s). max 0 \<theta> < uint s) ?members"
        using \<theta> start by (auto simp: True zremrangebyscore_def word_less_def intro!: filter_cong)
      then show ?thesis by (auto intro!: filter_length_mono)
    qed
    finally show ?thesis .
  next
    case False
    then obtain a where "zk_expire_at z = Some a" "a \<le> now'"
      by (auto simp: redis_expire_def split: option.splits if_splits)
    then have "\<forall>\<tau> \<in> set ts. \<tau> \<le> \<theta>" using inv(1) \<theta> by (force simp: sliding_inv_def)
    then have "filter (\<lambda>\<tau>. \<theta> < \<tau>) ts = []" by (auto simp: filter_empty_conv)
    then show ?thesis by simp
  qed
qed

lemma redis_expire_members: "set (zk_members (zremrangebyscore start (redis_expire now z))) \<subseteq> set (zk_members z)"
  by (auto simp: zremrangebyscore_def redis_expire_def zset_empty_def split: option.splits)


text \<open>The script in one equation, for windows that do not end at once.\<close>

lemma run_sliding_window_eq:
  assumes "0 < uint (swr_window_secs q)"
    and members_def: "members = zk_members (zremrangebyscore (swr_window_start_ms q) (redis_expire ms z))"
  shows "run_sliding_window ms q z =
     (let counted = swr_increment q \<and> map_of members (swr_member q) \<noteq> None;
          admit = \<not> counted \<and> length members < unat (swr_max_requests q);
          members' = (if admit \<and> swr_increment q then members @ [(swr_member q, swr_now_ms q)] else members) in
      (\<lparr>zk_members = members', zk_expire_at = (if members' = [] then None else Some (ms + uint (swr_window_secs q) * 1000))\<rparr>,
       \<lparr>rlr_allowed = counted \<or> admit, rlr_remaining = of_nat (unat (swr_max_requests q) - length members'),
        rlr_reset_after = swr_window_secs q, rlr_limit = swr_max_requests q\<rparr>))"
proof -
  obtain members0 expire where z: "zremrangebyscore (swr_window_start_ms q) (redis_expire ms z) =
      \<lparr>zk_members = members0, zk_expire_at = expire\<rparr>"
    by (cases "zremrangebyscore (swr_window_start_ms q) (redis_expire ms z)") (auto split: unit.splits)
  then have "members = members0" by (simp add: members_def)
  then show ?thesis
    using assms(1) z unfolding run_sliding_window_def sliding_window_script_def
    by (auto simp: Let_def redis_expire_def zset_empty_def unat_eq_zero)
qed

lemma sliding_step:
  assumes inv: "sliding_inv now w used z ts" "sliding_bounded m w ts" "now \<le> uint now'" "0 < uint now'"
    and w: "w = window_ms (rlc_window_secs (rrl_config l))" "0 < w" "w < 2 ^ 64"
    and m: "m = unat (rlc_max_requests (rrl_config l))" and new: "increment \<Longrightarrow> member \<notin> used"
    and run: "run_sliding_window (uint now') ((sliding_request l now' 0 0 key increment)\<lparr>swr_member := member\<rparr>) z = (z', r)"
  shows "sliding_inv (uint now') w (if increment then insert member used else used) z' (ts @ (if increment \<and> rlr_allowed r then [uint now'] else []))"
    and "sliding_bounded m w (ts @ (if increment \<and> rlr_allowed r then [uint now'] else []))"
proof -
  let ?q = "(sliding_request l now' 0 0 key increment)\<lparr>swr_member := member\<rparr>" and ?T = "uint now'"
  define members where "members = zk_members (zremrangebyscore (swr_window_start_ms ?q) (redis_expire ?T z))"
  have counts: "zset_counts ?T w members ts"
    unfolding members_def by (rule zset_counts_window [OF inv(1,3)]) (use w in \<open>simp add: sliding_request_def uint_window_start\<close>)
  have sub: "fst ` set members \<subseteq> used"
    using inv(1) redis_expire_members unfolding members_def sliding_inv_def by (meson image_mono subset_trans)
  have secs: "0 < uint (swr_window_secs ?q)" using w by (simp add: sliding_request_def window_ms_def)
  have fresh: "map_of members member = None" if increment using new [OF that] sub by (auto simp: map_of_eq_None_iff)
  let ?members' = "if increment \<and> length members < m then members @ [(member, now')] else members"
  have z': "z' = \<lparr>zk_members = ?members', zk_expire_at = (if ?members' = [] then None else Some (?T + w))\<rparr>"
    and r: "increment \<Longrightarrow> rlr_allowed r \<longleftrightarrow> length members < m"
    using run fresh unfolding run_sliding_window_eq [OF secs members_def]
    by (auto simp: Let_def sliding_request_def m w(1) window_ms_def)
  let ?ts' = "ts @ (if increment \<and> rlr_allowed r then [?T] else [])"
  have times: "\<forall>\<tau> \<in> set ts. 0 < \<tau> \<and> \<tau> \<le> ?T" using inv(1,3) by (fastforce simp: sliding_inv_def)
  have counts': "zset_counts ?T w ?members' ?ts'"
    using counts r by (auto simp: zset_counts_def)
  show "sliding_inv ?T w (if increment then insert member used else used) z' ?ts'"
    using times counts' sub inv(4) by (auto simp: sliding_inv_def z')
  show "sliding_bounded m w ?ts'"
  proof (cases "increment \<and> rlr_allowed r")
    case True
    have le: "length (filter (\<lambda>\<tau>. ?T - w < \<tau>) ?ts') \<le> m"
    proof -
      have "length (filter (\<lambda>\<tau>. ?T - w < \<tau>) ?ts') \<le> length (filter (\<lambda>(_, s). ?T - w < uint s) ?members')"
        using counts' by (simp add: zset_counts_def)
      also have "\<dots> \<le> length ?members'" by simp
      also have "\<dots> \<le> m" using True r by simp
      finally show ?thesis .
    qed
    show ?thesis
      unfolding sliding_bounded_def
    proof
      fix t
      show "length (filter (\<lambda>\<tau>. t < \<tau> \<and> \<tau> \<le> t + w) ?ts') \<le> m"
      proof (cases "t < ?T \<and> ?T \<le> t + w")
        case True
        have "length (filter (\<lambda>\<tau>. t < \<tau> \<and> \<tau> \<le> t + w) ?ts') \<le> length (filter (\<lambda>\<tau>. ?T - w < \<tau>) ?ts')"
          using True by (intro filter_length_mono) auto
        with le show ?thesis by linarith
      next
        case False
        then show ?thesis using inv(2) by (auto simp: sliding_bounded_def)
      qed
    qed
  qed (use inv(2) in auto)
qed


lemma sliding_admitted_bounded:
  assumes "sliding_inv now w used z ts" "sliding_bounded m w ts"
    and "w = window_ms (rlc_window_secs (rrl_config l))" "0 < w" "w < 2 ^ 64" "m = unat (rlc_max_requests (rrl_config l))"
    and "sorted (now # map (\<lambda>(t, _). uint t) events)" "list_all (\<lambda>(t, _). 0 < t) events"
    and "distinct (map (\<lambda>(_, member, _). member) events)" "used \<inter> (\<lambda>(_, member, _). member) ` set events = {}"
  shows "sliding_bounded m w (ts @ sliding_admitted l key events z)"
  using assms
proof (induction events arbitrary: now used z ts)
  case (Cons ev events)
  obtain now' member increment where ev: "ev = (now', member, increment)" by (cases ev) auto
  obtain z' r where run: "run_sliding_window (uint now') ((sliding_request l now' 0 0 key increment)\<lparr>swr_member := member\<rparr>) z = (z', r)"
    by fastforce
  have t: "now \<le> uint now'" "0 < uint now'" using Cons.prems(7,8) ev by (auto simp: word_less_def)
  have new: "increment \<Longrightarrow> member \<notin> used" using Cons.prems(10) ev by auto
  note step = sliding_step [OF Cons.prems(1,2) t Cons.prems(3-6) new run]
  have "sliding_bounded m w ((ts @ (if increment \<and> rlr_allowed r then [uint now'] else [])) @ sliding_admitted l key events z')"
    by (rule Cons.IH [OF step]) (use Cons.prems(3-10) ev in \<open>auto split: if_splits\<close>)
  then show ?case by (simp add: ev run)
qed simp

text \<open>C28: The sliding window admits at most its limit in every interval of the window's length, for every sequence of checks
and increments with distinct members whose times do not go back.\<close>

theorem sliding_window_bounded:
  assumes "0 < rlc_window_secs (rrl_config l)" and "window_ms (rlc_window_secs (rrl_config l)) < 2 ^ 64"
    and "sorted (map (\<lambda>(t, _). uint t) events)" and "list_all (\<lambda>(t, _). 0 < t) events"
    and "distinct (map (\<lambda>(_, member, _). member) events)"
  shows "length (filter (\<lambda>\<tau>. t < \<tau> \<and> \<tau> \<le> t + window_ms (rlc_window_secs (rrl_config l)))
     (sliding_admitted l key events zset_empty)) \<le> unat (rlc_max_requests (rrl_config l))"
proof -
  let ?w = "window_ms (rlc_window_secs (rrl_config l))" and ?m = "unat (rlc_max_requests (rrl_config l))"
  define now where "now = (case events of [] \<Rightarrow> 0 | (t, _) # _ \<Rightarrow> uint t)"
  have sorted: "sorted (now # map (\<lambda>(t, _). uint t) events)" using assms(3) by (cases events) (auto simp: now_def)
  have "sliding_bounded ?m ?w ([] @ sliding_admitted l key events zset_empty)"
    by (rule sliding_admitted_bounded [where now = now and used = "{}"])
      (use assms sorted in \<open>auto simp: sliding_inv_def zset_counts_def sliding_bounded_def zset_empty_def window_ms_def word_less_def\<close>)
  then show ?thesis by (simp add: sliding_bounded_def)
qed

section \<open>Retries\<close>

lemma run_sliding_window_members:
  assumes "run_sliding_window ms q z = (z', r)"
  shows "set (map fst (zk_members z')) \<subseteq> insert (swr_member q) (set (map fst (zk_members z)))"
    and "distinct (map fst (zk_members z)) \<Longrightarrow> distinct (map fst (zk_members z'))"
    and "length (zk_members z') \<le> Suc (length (zk_members z))"
proof -
  have member: "map_of (zk_members z0) (swr_member q) = None \<Longrightarrow> swr_member q \<notin> fst ` set (zk_members z0)" for z0
    by (simp add: map_of_eq_None_iff)
  let ?z = "zremrangebyscore (swr_window_start_ms q) (redis_expire ms z)"
  have kept: "set (map fst (zk_members ?z)) \<subseteq> set (map fst (zk_members z))" "length (zk_members ?z) \<le> length (zk_members z)"
    "distinct (map fst (zk_members z)) \<Longrightarrow> distinct (map fst (zk_members ?z))"
    using redis_expire_members [of "swr_window_start_ms q" ms z]
    by (auto simp: zremrangebyscore_def redis_expire_def zset_empty_def distinct_map_filter split: option.splits)
  have z': "zk_members z' = [] \<or> zk_members z' = zk_members ?z \<or>
      (map_of (zk_members ?z) (swr_member q) = None \<and> zk_members z' = zk_members ?z @ [(swr_member q, swr_now_ms q)])" 
    using assms unfolding run_sliding_window_def sliding_window_script_def
    by (auto simp: Let_def zset_empty_def redis_expire_def split: if_splits option.splits)
  show "set (map fst (zk_members z')) \<subseteq> insert (swr_member q) (set (map fst (zk_members z)))" 
    using z' kept(1) by (elim disjE conjE) (simp_all add: subset_insertI2)
  show "distinct (map fst (zk_members z'))" if "distinct (map fst (zk_members z))"
    using z' kept(3) [OF that] member by auto
  show "length (zk_members z') \<le> Suc (length (zk_members z))" using z' kept(2) by auto
qed


lemma redis_attempt_state: "redis_attempt oc ms q z = (z', res) \<Longrightarrow> z' = z \<or> z' = fst (run_sliding_window ms q z)"
  by (cases oc) (auto simp: map_prod_def split: prod.splits)

lemma redis_attempt_members:
  assumes "redis_attempt oc ms q z = (z', res)" "distinct (map fst (zk_members z))"
  shows "distinct (map fst (zk_members z'))"
    and "set (map fst (zk_members z')) \<subseteq> insert (swr_member q) (set (map fst (zk_members z)))"
  using redis_attempt_state [OF assms(1)] run_sliding_window_members(1,2) [OF surjective_pairing [of "run_sliding_window ms q z"]] assms(2)
  by blast+

lemma redis_attempt_allowed:
  assumes "redis_attempt oc ms q z = (z', Inr r)" "rlr_allowed r" "swr_increment q" "0 < uint (swr_window_secs q)"
  shows "swr_member q \<in> set (map fst (zk_members z'))"
proof -
  have run: "run_sliding_window ms q z = (z', r)" using assms(1) by (cases oc) (auto simp: map_prod_def split: prod.splits)
  define members where "members = zk_members (zremrangebyscore (swr_window_start_ms q) (redis_expire ms z))"
  show ?thesis
  proof (cases "map_of members (swr_member q)")
    case None
    with run assms(2,3) show ?thesis unfolding run_sliding_window_eq [OF assms(4) members_def] by (auto simp: Let_def)
  next
    case (Some s)
    then have "swr_member q \<in> fst ` set members" by (force dest: map_of_SomeD)
    with Some run assms(2,3) show ?thesis unfolding run_sliding_window_eq [OF assms(4) members_def] by (auto simp: Let_def)
  qed
qed

text \<open>A request is counted once even if the connection drops: whatever happens to the two attempts, and whether or not the
script ran before the drop, the member is in the sorted set at most once, nothing else is added, and a request that is told it
is allowed is counted.\<close>

theorem redis_retry_counts_once:
  assumes "run_sliding_window_check first second fresh ms1 ms2 q z = (z', res)"
    and "distinct (map fst (zk_members z))" and "swr_increment q" and "0 < uint (swr_window_secs q)"
  shows "distinct (map fst (zk_members z')) \<and> set (map fst (zk_members z')) \<subseteq> insert (swr_member q) (set (map fst (zk_members z))) \<and>
     (case res of Inr r \<Rightarrow> rlr_allowed r \<longrightarrow> swr_member q \<in> set (map fst (zk_members z')) | Inl _ \<Rightarrow> True)"
proof -
  obtain z1 res1 where 1: "redis_attempt first ms1 q z = (z1, res1)" by fastforce
  obtain z2 res2 where 2: "redis_attempt second ms2 q z1 = (z2, res2)" by fastforce
  have m1: "distinct (map fst (zk_members z1))" "set (map fst (zk_members z1)) \<subseteq> insert (swr_member q) (set (map fst (zk_members z)))"
    using redis_attempt_members [OF 1 assms(2)] by auto
  have m2: "distinct (map fst (zk_members z2))" "set (map fst (zk_members z2)) \<subseteq> insert (swr_member q) (set (map fst (zk_members z)))"
    using redis_attempt_members [OF 2 m1(1)] m1(2) by auto
  have "(z' = z1 \<and> (\<forall>r. res = Inr r \<longrightarrow> res1 = Inr r)) \<or> (z' = z2 \<and> (\<forall>r. res = Inr r \<longrightarrow> res2 = Inr r))"
    using assms(1) 1 2 unfolding run_sliding_window_check_def by (auto split: sum.splits if_splits)
  then show ?thesis
  proof (elim disjE conjE)
    assume "z' = z1" "\<forall>r. res = Inr r \<longrightarrow> res1 = Inr r"
    with m1 1 show ?thesis using redis_attempt_allowed [OF _ _ assms(3,4)] by (cases res) simp_all
  next
    assume "z' = z2" "\<forall>r. res = Inr r \<longrightarrow> res2 = Inr r"
    with m2 2 show ?thesis using redis_attempt_allowed [OF _ _ assms(3,4)] by (cases res) simp_all
  qed
qed

section \<open>The contract the limiters share\<close>

text \<open>
  What the middleware relies on: an increment is admitted exactly while the limit is not used up, and each
  increment uses one up. Both limiters meet it, the in-memory one within a window, the sliding one at an instant.
\<close>

fun limiter_burst :: "('a \<Rightarrow> 's \<Rightarrow> 's \<times> bool) \<Rightarrow> 'a list \<Rightarrow> 's \<Rightarrow> bool list" where
  "limiter_burst inc [] s = []"
| "limiter_burst inc (a # as) s = (case inc a s of (s', ok) \<Rightarrow> ok # limiter_burst inc as s')"

locale request_limiter =
  fixes inc :: "'a \<Rightarrow> 's \<Rightarrow> 's \<times> bool" and used :: "'s \<Rightarrow> nat" and limit :: nat and ready :: "'a list \<Rightarrow> 's \<Rightarrow> bool"
  assumes ready_step: "ready (a # as) s \<Longrightarrow> ready as (fst (inc a s))"
    and admits: "ready (a # as) s \<Longrightarrow> snd (inc a s) \<longleftrightarrow> used s < limit"
    and counts: "ready (a # as) s \<Longrightarrow> min limit (used (fst (inc a s))) = min limit (Suc (used s))"
begin

lemma burst_exact: "ready as s \<Longrightarrow> limiter_burst inc as s = replicate (min (length as) (limit - used s)) True @
    replicate (length as - (limit - used s)) False"
proof (induction as arbitrary: s)
  case (Cons a as)
  obtain s' ok where inc: "inc a s = (s', ok)" by fastforce
  have law: "ready as s'" "ok \<longleftrightarrow> used s < limit" "min limit (used s') = min limit (Suc (used s))"
    using ready_step [OF Cons.prems] admits [OF Cons.prems] counts [OF Cons.prems] inc by auto
  have left: "limit - used s' = limit - Suc (used s)" using law(3) by linarith
  show ?case
  proof (cases "used s < limit")
    case True
    then have "limit - used s = Suc (limit - used s')" using left by simp
    then show ?thesis using Cons.IH [OF law(1)] law(2) True by (simp add: inc)
  next
    case False
    then show ?thesis using Cons.IH [OF law(1)] law(2) left by (simp add: inc)
  qed
qed simp

lemma burst_admits: "ready as s \<Longrightarrow> length (filter id (limiter_burst inc as s)) = min (length as) (limit - used s)"
  by (simp add: burst_exact)

end

text \<open>The in-memory limiter on one key, at times within the current window.\<close>

definition memory_inc :: "string \<Rightarrow> instant \<Rightarrow> memory_rate_limiter \<Rightarrow> memory_rate_limiter \<times> bool" where
  "memory_inc key now l = (case memory_increment now key l of (l', r) \<Rightarrow> (l', case r of None \<Rightarrow> False | Some res \<Rightarrow> rlr_allowed res))"

definition memory_used :: "string \<Rightarrow> memory_rate_limiter \<Rightarrow> nat" where
  "memory_used key l = (case mrl_limits l key of None \<Rightarrow> 0 | Some e \<Rightarrow> unat (rle_count e))"

definition memory_ready :: "string \<Rightarrow> u32 \<Rightarrow> instant list \<Rightarrow> memory_rate_limiter \<Rightarrow> bool" where
  "memory_ready key m moments l \<longleftrightarrow>
     rlc_max_requests (mrl_config l) = m \<and> memory_used key l + length moments < 2 ^ 32 \<and>
     (case mrl_limits l key of None \<Rightarrow> moments = [] | Some e \<Rightarrow> \<forall>t \<in> set moments. t < rle_expiry e)"

lemma unat_u32_Suc: "Suc (unat (c :: u32)) < 2 ^ 32 \<Longrightarrow> unat (c + 1) = Suc (unat c)"
  by (simp add: unat_word_ariths(1))

interpretation fixed: request_limiter "memory_inc key" "memory_used key" "unat m" "memory_ready key m"
proof
  fix now moments and l :: memory_rate_limiter
  assume ready: "memory_ready key m (now # moments) l"
  then obtain e where e: "mrl_limits l key = Some e" "now < rle_expiry e" "\<forall>t \<in> set moments. t < rle_expiry e"
    "rlc_max_requests (mrl_config l) = m" "Suc (unat (rle_count e) + length moments) < 2 ^ 32"
    by (auto simp: memory_ready_def memory_used_def split: option.splits)
  have Suc: "unat (rle_count e + 1) = Suc (unat (rle_count e))" using e(5) by (intro unat_u32_Suc) simp
  have inc: "memory_inc key now l = (l\<lparr>mrl_limits := (mrl_limits l)(key \<mapsto> e\<lparr>rle_count := rle_count e + 1\<rparr>)\<rparr>, unat (rle_count e) < unat m)"
    using e by (simp add: memory_inc_def memory_increment_def increment_entry_def Let_def u32_le_iff Suc Suc_le_eq)
  show "memory_ready key m moments (fst (memory_inc key now l))"
    using e Suc by (simp add: inc memory_ready_def memory_used_def)
  show "snd (memory_inc key now l) \<longleftrightarrow> memory_used key l < unat m" by (simp add: inc memory_used_def e(1))
  show "min (unat m) (memory_used key (fst (memory_inc key now l))) = min (unat m) (Suc (memory_used key l))"
    by (simp add: inc memory_used_def e(1) Suc)
qed

text \<open>The sliding window on one key, for distinct members at one instant.\<close>

definition sliding_inc ::
    "redis_rate_limiter \<Rightarrow> string \<Rightarrow> u64 \<Rightarrow> string \<Rightarrow> zset_key \<Rightarrow> zset_key \<times> bool" where
  "sliding_inc l key now member z =
     map_prod id rlr_allowed (run_sliding_window (uint now) ((sliding_request l now 0 0 key True)\<lparr>swr_member := member\<rparr>) z)"

definition sliding_used :: "redis_rate_limiter \<Rightarrow> u64 \<Rightarrow> zset_key \<Rightarrow> nat" where
  "sliding_used l now z =
     length (zk_members (zremrangebyscore (window_start_ms now (rlc_window_secs (rrl_config l))) (redis_expire (uint now) z)))"

definition sliding_ready :: "redis_rate_limiter \<Rightarrow> u64 \<Rightarrow> string list \<Rightarrow> zset_key \<Rightarrow> bool" where
  "sliding_ready l now members z \<longleftrightarrow>
     0 < rlc_window_secs (rrl_config l) \<and> window_start_ms now (rlc_window_secs (rrl_config l)) < now \<and>
     distinct members \<and> set members \<inter> fst ` set (zk_members z) = {}"

interpretation sliding: request_limiter "sliding_inc l key now" "sliding_used l now" "unat (rlc_max_requests (rrl_config l))"
  "sliding_ready l now"
proof
  fix member members and z :: zset_key
  assume ready: "sliding_ready l now (member # members) z"
  let ?secs = "rlc_window_secs (rrl_config l)" and ?m = "unat (rlc_max_requests (rrl_config l))"
  let ?q = "(sliding_request l now 0 0 key True)\<lparr>swr_member := member\<rparr>"
  define kept where "kept = zk_members (zremrangebyscore (window_start_ms now ?secs) (redis_expire (uint now) z))"
  have sub: "set kept \<subseteq> set (zk_members z)" unfolding kept_def by (rule redis_expire_members)
  then have new: "map_of kept member = None" using ready by (auto simp: sliding_ready_def map_of_eq_None_iff)
  have pos: "0 < uint (swr_window_secs ?q)" using ready by (simp add: sliding_ready_def sliding_request_def word_less_def)
  have kept: "kept = zk_members (zremrangebyscore (swr_window_start_ms ?q) (redis_expire (uint now) z))"
    by (simp add: kept_def sliding_request_def)
  let ?members' = "if length kept < ?m then kept @ [(member, now)] else kept"
  have inc: "sliding_inc l key now member z =
      (\<lparr>zk_members = ?members', zk_expire_at = (if ?members' = [] then None else Some (uint now + uint ?secs * 1000))\<rparr>, length kept < ?m)"
    unfolding sliding_inc_def run_sliding_window_eq [OF pos kept]
    using new by (auto simp: Let_def sliding_request_def)
  have stay: "zk_members (zremrangebyscore (window_start_ms now ?secs) (redis_expire (uint now) (fst (sliding_inc l key now member z)))) = ?members'"
    using ready pos by (auto simp: inc redis_expire_def zremrangebyscore_def sliding_ready_def sliding_request_def kept_def filter_id_conv)
  show "sliding_ready l now members (fst (sliding_inc l key now member z))"
    using ready sub by (auto simp: inc sliding_ready_def)
  show "snd (sliding_inc l key now member z) \<longleftrightarrow> sliding_used l now z < ?m" by (simp add: inc sliding_used_def kept_def)
  show "min ?m (sliding_used l now (fst (sliding_inc l key now member z))) = min ?m (Suc (sliding_used l now z))"
    unfolding sliding_used_def stay kept_def [symmetric] by simp
qed

text \<open>Bursts are limited exactly: within a window the in-memory limiter, and at any instant the sliding window, admits
the first requests of a burst up to what is left of the limit and refuses the others.\<close>

theorem limiter_burst_exact:
  assumes "memory_ready key m moments l" and "sliding_ready r now members z"
  shows "limiter_burst (memory_inc key) moments l =
       replicate (min (length moments) (unat m - memory_used key l)) True @
       replicate (length moments - (unat m - memory_used key l)) False \<and>
     limiter_burst (sliding_inc r key now) members z =
       replicate (min (length members) (unat (rlc_max_requests (rrl_config r)) - sliding_used r now z)) True @
       replicate (length members - (unat (rlc_max_requests (rrl_config r)) - sliding_used r now z)) False"
  using fixed.burst_exact [OF assms(1)] sliding.burst_exact [OF assms(2)] by simp

section \<open>Ways around the limit\<close>


text \<open>The requests of one peer that names a different address in each, limited by the middleware without trusted proxies.\<close>

fun spoofed_calls ::
    "(string \<Rightarrow> bool) \<Rightarrow> string \<Rightarrow> instant \<Rightarrow> string list \<Rightarrow> memory_rate_limiter \<Rightarrow> limited_response list" where
  "spoofed_calls is_ip peer now [] l = []"
| "spoofed_calls is_ip peer now (ip # ips) l =
     (let q = \<lparr>lrq_forwarded_for = None, lrq_real_ip = Some ip, lrq_peer_ip = Some peer\<rparr>;
          key = final_key rate_limit_options_default (extract_ip_key is_ip 0 q) in
      case memory_increment now key l of
        (l', Some r) \<Rightarrow> limited_call rate_limit_options_default (Inr r) # spoofed_calls is_ip peer now ips l'
      | (l', None) \<Rightarrow> [])"

definition from_service :: "limited_response \<Rightarrow> bool" where
  "from_service r = (case r of FromService _ \<Rightarrow> True | _ \<Rightarrow> False)"

lemma spoofed_key:
  "is_ip ip \<Longrightarrow> header_to_str ip = Some ip \<Longrightarrow> trim_header ip = ip \<Longrightarrow>
     final_key rate_limit_options_default
       (extract_ip_key is_ip 0 \<lparr>lrq_forwarded_for = f, lrq_real_ip = Some ip, lrq_peer_ip = p\<rparr>) = ip"
  by (simp add: extract_ip_key_def get_ip_def final_key_def rate_limit_options_default_def)

lemma spoofed_calls_pass:
  assumes "list_all (\<lambda>ip. is_ip ip \<and> header_to_str ip = Some ip \<and> trim_header ip = ip) ips" "distinct ips"
    and "instant_add now (from_secs (rlc_window_secs (mrl_config l))) \<noteq> None" "1 \<le> rlc_max_requests (mrl_config l)"
    and "\<forall>ip \<in> set ips. mrl_limits l ip = None"
  shows "length (filter from_service (spoofed_calls is_ip peer now ips l)) = length ips"
  using assms
proof (induction ips arbitrary: l)
  case (Cons ip ips)
  obtain expiry where add: "instant_add now (from_secs (rlc_window_secs (mrl_config l))) = Some expiry" using Cons.prems(3) by blast
  obtain e where e: "increment_entry now (from_secs (rlc_window_secs (mrl_config l))) None = Inr e" "rle_count e = 0"
    by (simp add: increment_entry_def add Let_def)
  obtain l' r where inc: "memory_increment now ip l = (l', Some r)" "rlr_allowed r" "mrl_config l' = mrl_config l"
    "\<forall>k. k \<noteq> ip \<longrightarrow> mrl_limits l' k = mrl_limits l k"
    using e Cons.prems(4,5) by (auto simp: memory_increment_def Let_def)
  have key: "final_key rate_limit_options_default
      (extract_ip_key is_ip 0 \<lparr>lrq_forwarded_for = None, lrq_real_ip = Some ip, lrq_peer_ip = Some peer\<rparr>) = ip"
    using Cons.prems(1) by (intro spoofed_key) auto
  have "length (filter from_service (spoofed_calls is_ip peer now ips l')) = length ips"
    by (rule Cons.IH) (use Cons.prems inc in auto)
  moreover have "from_service (limited_call rate_limit_options_default (Inr r))"
    by (simp add: limited_call_def inc(2) from_service_def)
  ultimately show ?case using inc(1) by (simp add: Let_def key)
qed simp

text \<open>Without trusted proxies the middleware still believes the x-real-ip header: a peer that names a new address in each
request is never limited, whatever the limit.\<close>

theorem limiter_header_bypass:
  assumes "list_all (\<lambda>ip. is_ip ip \<and> header_to_str ip = Some ip \<and> trim_header ip = ip) ips" and "distinct ips"
    and "instant_add now (from_secs secs) \<noteq> None" and "1 \<le> m"
  shows "length (filter from_service (spoofed_calls is_ip peer now ips (memory_limiter_new m secs))) = length ips"
  by (rule spoofed_calls_pass)
    (use assms in \<open>simp_all add: memory_limiter_new_def memory_limiter_with_config_def\<close>)

section \<open>Concrete runs\<close>

text \<open>Two per second: both allowances of two adjacent windows fall into less than a second.\<close>

definition sample_requests :: "(instant \<times> limiter_event) list" where
  "sample_requests =
     [(0, LIncrement ''k''), (999999998, LCheck ''k''), (999999999, LIncrement ''k''), (999999999, LIncrement ''k''), (1000000000, LSweep),
      (1000000000, LIncrement ''k''), (1000000001, LIncrement ''k''), (1000000002, LIncrement ''k'')]"


definition sample_redis :: redis_rate_limiter where
  "sample_redis = \<lparr>rrl_prefix = ''p'', rrl_config = \<lparr>rlc_max_requests = 2, rlc_window_secs = 1, rlc_identifier = None\<rparr>\<rparr>"

definition sample_sliding :: "(u64 \<times> string \<times> bool) list" where
  "sample_sliding =
     [(1, ''a'', True), (900, ''b'', True), (999, ''c'', True), (1000, ''d'', False), (1001, ''e'', True), (1002, ''f'', True),
      (1900, ''g'', True)]"

lemma sliding_window_bounded_witness:
  "sorted (map (\<lambda>(t, _). uint t) sample_sliding) \<and> sliding_admitted sample_redis ''k'' sample_sliding zset_empty = [1, 900, 1001, 1900] \<and>
   length (filter (\<lambda>\<tau>. 500 < \<tau> \<and> \<tau> \<le> 500 + window_ms (rlc_window_secs (rrl_config sample_redis)))
     (sliding_admitted sample_redis ''k'' sample_sliding zset_empty)) \<le> unat (rlc_max_requests (rrl_config sample_redis))"
proof -
  have "sorted (map (\<lambda>(t, _). uint t) sample_sliding)" by (simp add: sample_sliding_def)
  moreover have "list_all (\<lambda>(t, _). 0 < t) sample_sliding" "distinct (map (\<lambda>(_, member, _). member) sample_sliding)"
    by (simp_all add: sample_sliding_def)
  moreover have "sliding_admitted sample_redis ''k'' sample_sliding zset_empty = [1, 900, 1001, 1900]" by code_simp
  moreover have "0 < rlc_window_secs (rrl_config sample_redis)" "window_ms (rlc_window_secs (rrl_config sample_redis)) < 2 ^ 64"
    by (simp_all add: sample_redis_def window_ms_def)
  ultimately show ?thesis using sliding_window_bounded [of sample_redis sample_sliding 500 "''k''"] by simp
qed

lemma redis_retry_counts_once_witness:
  "case run_sliding_window_check (DroppedAfter ''reset'') Replied (Inr ()) 1000 1001
      (sliding_request sample_redis 1000 7 0 ''k'' True) zset_empty of
     (z', Inr r) \<Rightarrow> rlr_allowed r \<and> distinct (map fst (zk_members z')) \<and> zk_members z' = [(''1000:7:0'', 1000)]
   | (_, Inl _) \<Rightarrow> False"
proof -
  let ?q = "sliding_request sample_redis 1000 7 0 ''k'' True"
  obtain z' res where run: "run_sliding_window_check (DroppedAfter ''reset'') Replied (Inr ()) 1000 1001 ?q zset_empty = (z', res)"
    by fastforce
  have "case run_sliding_window_check (DroppedAfter ''reset'') Replied (Inr ()) 1000 1001 ?q zset_empty of
      (z', Inr r) \<Rightarrow> rlr_allowed r \<and> zk_members z' = [(''1000:7:0'', 1000)] | (_, Inl _) \<Rightarrow> False"
    by code_simp
  moreover have "distinct (map fst (zk_members z'))"
    using redis_retry_counts_once [OF run]
    by (simp add: zset_empty_def sliding_request_def sample_redis_def)
  ultimately show ?thesis by (simp add: run split: sum.splits)
qed

lemma limiter_header_bypass_witness:
  "length (filter from_service (spoofed_calls (\<lambda>s. s \<in> {''10.0.0.1'', ''10.0.0.2'', ''10.0.0.3''}) ''192.0.2.7'' 0
     [''10.0.0.1'', ''10.0.0.2'', ''10.0.0.3''] (memory_limiter_new 1 60))) = 3"
proof -
  let ?ips = "[''10.0.0.1'', ''10.0.0.2'', ''10.0.0.3'']" and ?is_ip = "\<lambda>s. s \<in> {''10.0.0.1'', ''10.0.0.2'', ''10.0.0.3''}"
  have "list_all (\<lambda>ip. ?is_ip ip \<and> header_to_str ip = Some ip \<and> trim_header ip = ip) ?ips" by code_simp
  moreover have "distinct ?ips" by simp
  moreover have "instant_add 0 (from_secs 60) \<noteq> None" by (simp add: instant_add_def from_secs_def)
  ultimately have "length (filter from_service (spoofed_calls ?is_ip ''192.0.2.7'' 0 ?ips (memory_limiter_new 1 60))) = length ?ips"
    by (rule limiter_header_bypass) simp
  then show ?thesis by simp
qed

lemma limiter_burst_exact_witness:
  "limiter_burst (memory_inc ''k'') [1, 2, 3] (fst (memory_increment 0 ''k'' (memory_limiter_new 2 1))) = [True, False, False] \<and>
   limiter_burst (sliding_inc sample_redis ''k'' 5000) [''a'', ''b'', ''c''] zset_empty = [True, True, False]"
proof -
  let ?l = "fst (memory_increment 0 ''k'' (memory_limiter_new 2 1))"
  have entry: "mrl_limits ?l ''k'' = Some \<lparr>rle_count = 1, rle_window_start = 0, rle_expiry = 1000000000\<rparr>"
    "rlc_max_requests (mrl_config ?l) = 2"
    by (simp_all add: memory_increment_def memory_limiter_new_def memory_limiter_with_config_def increment_entry_def
        instant_add_def from_secs_def Let_def)
  then have fixed: "memory_ready ''k'' 2 [1, 2, 3] ?l" "memory_used ''k'' ?l = 1"
    by (simp_all add: memory_ready_def memory_used_def)
  have start: "window_start_ms 5000 (rlc_window_secs (rrl_config sample_redis)) = 4000" by code_simp
  have sliding: "sliding_ready sample_redis 5000 [''a'', ''b'', ''c''] zset_empty" "sliding_used sample_redis 5000 zset_empty = 0"
    by (simp_all add: sliding_ready_def sliding_used_def start) (simp_all add: sample_redis_def zset_empty_def
        zremrangebyscore_def redis_expire_def)
  have "unat (2 :: u32) = 2" "unat (rlc_max_requests (rrl_config sample_redis)) = 2" by (simp_all add: sample_redis_def)
  then show ?thesis
    using limiter_burst_exact [OF fixed(1) sliding(1)] by (simp add: fixed(2) sliding(2) numeral_2_eq_2)
qed

end
