(* ===== verification/Spec2Isabelle.thy ===== *)
theory Spec2Isabelle
  imports Presence_Tracking Replay_Buffer Subscription_Predicate Filter_Index Idempotency Leased_Store Annotation_Store
    Rate_Limiter
begin

text \<open>
  A verification library for the state that the sockudo realtime server keeps: what was published, in which order, who may
  receive it, and how often a client may ask.

  \<^bold>\<open>The program and its parts.\<close> A server node receives publishes and mutations of messages. A publish first claims its
  message id in the cache (idempotency), takes a position of its channel (history, version store, leases) and is stored
  and delivered to the subscribers whose filter accepts it (tag filters, predicates, filter index). Clients that
  reconnect ask for what they missed (replay buffer, history pages, version replay), for who was present (presence
  history) and for the reactions to a message (annotations). Requests are throttled by the rate limiters. The parts
  meet through the traits of \<^verbatim>\<open>src/crates/sockudo-core\<close>; each trait that another part relies on is a locale here, and
  the in-memory implementation provides it.

  \<^bold>\<open>Conventions.\<close> \<^verbatim>\<open>u64\<close> and \<^verbatim>\<open>usize\<close> are 64-bit words with the saturation of the source written out, \<^verbatim>\<open>i64\<close>
  times are integers, a string is the list of its bytes. A \<^verbatim>\<open>Result\<close> is a sum with the error on the left. A
  section of code under one lock is one step; code with several sections is several steps, and where the order of steps
  of different tasks matters it is explicit (step relations, or an argument for what the others do in between). Clocks,
  UUIDs, hashes and the JSON, base64, JMESPath and SHA-256 libraries are arguments. Metrics and logging are left out.

  \<^bold>\<open>Shared theories.\<close>
  \<^item> \<^verbatim>\<open>Errors\<close>: the error enum of \<^verbatim>\<open>sockudo-core/src/error.rs\<close> with close codes and reconnect classes.
  \<^item> \<^verbatim>\<open>Prelude\<close>: machine integers, saturating arithmetic, decimal printing, generic list lemmas.
  \<^item> \<^verbatim>\<open>BTree\<close>: ordered maps as sorted association lists, locale \<open>keyed_map\<close>.
  \<^item> \<^verbatim>\<open>Paging\<close>: the client that follows cursors and the locales \<open>cursor_reader\<close> and \<open>progress_reader\<close>, where it is
    proved once that it ends with every row exactly once. Five readers provide them.
  \<^item> \<^verbatim>\<open>Retention\<close>: the loops that evict by age, count and bytes, locale \<open>retained_queue\<close>: they keep the longest suffix
    that meets the limits.

  \<^bold>\<open>Message history\<close> (\<^verbatim>\<open>sockudo-core/src/history/types.rs\<close>, \<^verbatim>\<open>memory.rs\<close>). \<^verbatim>\<open>History\<close>: requests, cursors, pages
  and every operation of \<^verbatim>\<open>MemoryHistoryStore\<close>. Shown: the invariant of reachable channels, exact eviction and
  purging, completeness of paging, refusal of old cursors after a reset; and that an append out of reservation order
  makes paging skip a message, and that the largest window evicts everything.

  \<^bold>\<open>Presence history\<close> (\<^verbatim>\<open>sockudo-core/src/presence_history\<close>). \<^verbatim>\<open>Presence_History\<close>: types, the in-memory store and
  \<^verbatim>\<open>snapshot_at\<close>; the invariant of reachable channels and what the members of a snapshot are. \<^verbatim>\<open>Presence_Filter\<close>:
  \<^verbatim>\<open>read_filtered_page\<close> over any page reader; paging through it is complete although a page may stop at its scan budget.
  \<^verbatim>\<open>Presence_Tracking\<close>: the store that remembers lost writes, over any inner store; no page claims continuity after
  one until the stream is reset.

  \<^bold>\<open>Replay buffer\<close> (\<^verbatim>\<open>sockudo-adapter/src/replay_buffer.rs\<close>). \<^verbatim>\<open>Replay_Buffer\<close>: every operation. A granted recovery is
  contiguous, is granted whenever it can be, and storing returns exactly when the configured size is not zero.

  \<^bold>\<open>Versioned messages\<close> (\<^verbatim>\<open>sockudo-core/src/versioned_messages.rs\<close>, \<^verbatim>\<open>message_envelope.rs\<close>, \<^verbatim>\<open>version_store\<close>).
  \<^verbatim>\<open>Versioned_Messages\<close> and \<^verbatim>\<open>Version_Types\<close>: serials, mutations, appends, requests and mutation rules.
  \<^verbatim>\<open>Version_Store\<close>: every operation of \<^verbatim>\<open>MemoryVersionStore\<close> and the purge worker's loop of
  \<^verbatim>\<open>sockudo-server/src/bootstrap/server.rs\<close>. \<^verbatim>\<open>Version_Invariant\<close>: the consistency of chains, indexes, replay log and
  counters in every reachable store. \<^verbatim>\<open>Version_Properties\<close>: a retry is applied once, no update is lost, paging is
  complete, replay is contiguous, purging is exact and ends, the in-memory store follows the shared mutation rules.

  \<^bold>\<open>Leased positions\<close> (\<^verbatim>\<open>sockudo-core/src/version_store/leased.rs\<close>, part of \<^verbatim>\<open>sockudo-adapter/src/handler/ai_orphans.rs\<close>).
  \<^verbatim>\<open>Leased_Store\<close>: tasks on several nodes as interleaved actions over a position source (locale \<open>position_source\<close>).
  Positions handed out are distinct and no waiter is forgotten; a cancelled reservation blocks its channel, and the
  orphan janitor's leases leave gaps that break replay.

  \<^bold>\<open>Filters\<close> (\<^verbatim>\<open>sockudo-filter\<close>, \<^verbatim>\<open>sockudo-adapter/src/filter_index.rs\<close>). \<^verbatim>\<open>Tag_Filter\<close>: operators, nodes, optimisation,
  validation and the interpreter over any tag source (locale \<open>tag_map\<close>). \<^verbatim>\<open>Subscription_Predicate\<close>: limits, compilation
  and evaluation of message predicates; a compiled predicate decides what the view means, and compilation accepts
  exactly the views within the limits. \<^verbatim>\<open>Filter_Index\<close>: the inverted index; its lookup agrees with the interpreter for
  disciplined use, and not when a filter is replaced in place.

  \<^bold>\<open>Annotations\<close> (\<^verbatim>\<open>sockudo-core/src/annotations\<close>, \<^verbatim>\<open>annotation_summarizers.rs\<close>). \<^verbatim>\<open>Annotations\<close>: types, summarisers
  and the rebuild of a projection. \<^verbatim>\<open>Annotation_Store\<close>: every operation of the in-memory store, with its critical
  sections as steps. What a projection means, that an appended event is visible, that a repeated create changes nothing;
  and the interleaving and the purge that lose events.

  \<^bold>\<open>Rate limiting\<close> (\<^verbatim>\<open>sockudo-core/src/rate_limiter.rs\<close>, \<^verbatim>\<open>sockudo-rate-limiter\<close>). \<^verbatim>\<open>Rate_Limiter\<close>: the fixed-window
  limiter in memory, the sliding-window script on a sorted set with its retrying callers, and the decision of the
  middleware. Both limiters provide the locale \<open>request_limiter\<close>: never more than the limit in a window.

  \<^bold>\<open>Coordination through the cache\<close> (\<^verbatim>\<open>sockudo-core/src/cache.rs\<close>, \<^verbatim>\<open>idempotency.rs\<close>,
  \<^verbatim>\<open>sockudo-cache/src/memory_cache_manager.rs\<close>). \<^verbatim>\<open>Cache_Manager\<close>: the contract of an atomic cache (locale
  \<open>atomic_cache\<close>), the in-memory cache that meets it, and scanning by pages. \<^verbatim>\<open>Idempotency\<close>: claiming, committing,
  recovering and aborting a publish while other callers act between any two cache calls. The calls implement an abstract
  protocol in which a claim is exclusive and a committed receipt is final.

  \<^bold>\<open>Fuel and bounds.\<close> Loops over finite data are structural or have a measure. Fuel bounds only loops that read a store
  again: following cursors needs one page more than there are rows left, a snapshot one page more than the retained
  events, a filtered read at most the scan budget of 4096 items, and the theorems are stated for every sufficient
  amount. The optimistic rebuild of annotations needs one round when nobody interferes; a leased call needs the number
  of its actions. The 40 waits and 8 swaps of the idempotency calls are the constants of the source. Theorems about
  capacity state the assumption that a 64-bit counter does not overflow where they need one.

  \<^bold>\<open>Not modelled.\<close> Adapters, transports, sockets, queues, push, webhooks, the HTTP, MCP and Ably interfaces, the durable
  stores and the distributed caches: their behaviour is that of external brokers, databases and the network.
  The wire codecs, derived by library macros. Authentication and tokens, which rest on HMAC and JWT libraries.
  Delta compression, whose algorithms are external. Configuration, metrics and telemetry. Of the handlers in
  \<^verbatim>\<open>sockudo-adapter/src/handler\<close> only the store part of closing an orphaned stream is modelled. Expiry of cache entries
  is not a step of the claim protocol: its promises hold for the lifetime of the records.
\<close>

end
